(* ===== verification/Prelude.thy ===== *)
theory Prelude
  imports Main "HOL-Library.Word" "HOL-Library.Sublist"
begin

text \<open>
  Shared vocabulary of the development: the machine integers of the Rust sources as words of
  their width, little-endian byte codecs (\<open>to_le_bytes\<close> / \<open>from_le_bytes\<close> of the
  standard library), saturating arithmetic, and the generic lemmas on lists and words the
  component theories share.

  A Rust \<open>uN\<close> is an \<open>N word\<close>; \<open>usize\<close> (lengths and indices of in-memory vectors) is
  \<open>nat\<close>; \<open>x as uN\<close> is \<open>ucast\<close> or \<open>word_of_nat\<close>, which truncate as Rust's cast does.
\<close>

unbundle bit_operations_syntax

type_synonym u8 = "8 word"
type_synonym u16 = "16 word"
type_synonym u32 = "32 word"
type_synonym u64 = "64 word"
type_synonym u128 = "128 word"
type_synonym bytes = "u8 list"

named_theorems codec \<open>round trips and lengths of the wire codecs\<close>

section \<open>Little-endian codecs\<close>

primrec to_le :: "nat \<Rightarrow> 'a::len word \<Rightarrow> bytes" where
  "to_le 0 w = []"
| "to_le (Suc n) w = ucast w # to_le n (drop_bit 8 w)"

primrec from_le :: "bytes \<Rightarrow> 'a::len word" where
  "from_le [] = 0"
| "from_le (b # bs) = ucast b OR push_bit 8 (from_le bs)"

abbreviation le16 :: "u16 \<Rightarrow> bytes" where "le16 \<equiv> to_le 2"
abbreviation le32 :: "u32 \<Rightarrow> bytes" where "le32 \<equiv> to_le 4"
abbreviation le64 :: "u64 \<Rightarrow> bytes" where "le64 \<equiv> to_le 8"

lemma length_to_le [simp, codec]: "length (to_le n w) = n"
  by (induction n arbitrary: w) simp_all

lemma from_le_to_le: "from_le (to_le n w) = take_bit (8 * n) (w :: 'a::len word)"
proof (induction n arbitrary: w)
  case 0
  show ?case by simp
next
  case (Suc n)
  show ?case
  proof (rule bit_word_eqI)
    fix i assume "i < LENGTH('a)"
    then show "bit (from_le (to_le (Suc n) w) :: 'a word) i = bit (take_bit (8 * Suc n) w) i"
      by (cases "i < 8")
        (auto simp: Suc.IH bit_simps)
  qed
qed

lemma from_le_to_le_full [simp, codec]:
  assumes "8 * n = LENGTH('a)"
  shows "from_le (to_le n w) = (w :: 'a::len word)"
  using assms by (simp add: from_le_to_le)

lemma nth_to_le: "i < n \<Longrightarrow> to_le n w ! i = ucast (drop_bit (8 * i) w)"
proof (induction n arbitrary: w i)
  case 0
  then show ?case by simp
next
  case (Suc n)
  then show ?case by (cases i) (simp_all add: add.commute)
qed

lemma bit_from_le:
  "bit (from_le bs :: 'a::len word) j \<longleftrightarrow>
     j < LENGTH('a) \<and> j < 8 * length bs \<and> bit (bs ! (j div 8)) (j mod 8)"
proof (induction bs arbitrary: j)
  case Nil
  show ?case by simp
next
  case (Cons b bs)
  show ?case
  proof (cases "j < 8")
    case True
    then show ?thesis by (auto simp: bit_simps)
  next
    case False
    then have "j div 8 = Suc ((j - 8) div 8)" "j mod 8 = (j - 8) mod 8"
      by (simp_all add: le_div_geq le_mod_geq)
    with False show ?thesis by (auto simp: bit_simps Cons.IH dest: bit_imp_le_length)
  qed
qed

lemma to_le_from_le [codec]:
  assumes "length bs = n" and "8 * n \<le> LENGTH('a)"
  shows "to_le n (from_le bs :: 'a::len word) = bs"
proof (rule nth_equalityI)
  show "length (to_le n (from_le bs :: 'a word)) = length bs"
    by (simp add: assms)
next
  fix i assume "i < length (to_le n (from_le bs :: 'a word))"
  then have i: "i < n" by simp
  show "to_le n (from_le bs :: 'a word) ! i = bs ! i"
    by (rule bit_word_eqI)
      (use i assms in \<open>auto simp: nth_to_le bit_from_le bit_simps\<close>)
qed

text \<open>Evaluation of concrete encodings.\<close>

lemma le_eval:
  "to_le 2 w = [ucast w, ucast (drop_bit 8 w)]"
  "to_le 4 w = [ucast w, ucast (drop_bit 8 w), ucast (drop_bit 16 w), ucast (drop_bit 24 w)]"
  "to_le 8 w = [ucast w, ucast (drop_bit 8 w), ucast (drop_bit 16 w), ucast (drop_bit 24 w),
     ucast (drop_bit 32 w), ucast (drop_bit 40 w), ucast (drop_bit 48 w), ucast (drop_bit 56 w)]"
  by (simp_all add: eval_nat_numeral)

section \<open>Saturating and checked arithmetic\<close>

definition sat_add :: "'a::len word \<Rightarrow> 'a word \<Rightarrow> 'a word" where
  "sat_add a b = (if unat a + unat b < 2 ^ LENGTH('a) then a + b else - 1)"

definition sat_sub :: "'a::len word \<Rightarrow> 'a word \<Rightarrow> 'a word" where
  "sat_sub a b = (if b \<le> a then a - b else 0)"

lemma unat_less_exp: "unat w < 2 ^ LENGTH('a)" for w :: "'a::len word"
  by (rule unsigned_less)

lemma unat_ucast_up:
  assumes "LENGTH('a) \<le> LENGTH('b)"
  shows "unat (ucast w :: 'b::len word) = unat (w :: 'a::len word)"
proof -
  have "unat w < 2 ^ LENGTH('b)"
    using unat_less_exp [of w] power_increasing [OF assms, of "2 :: nat"] by linarith
  then show ?thesis by (simp add: unsigned_ucast_eq take_bit_nat_eq_self)
qed

lemma unat_sat_add: "unat (sat_add a b) = min (unat a + unat b) (2 ^ LENGTH('a) - 1)"
  for a b :: "'a::len word"
  by (auto simp: sat_add_def unat_word_ariths unsigned_minus_1_eq_mask mask_eq_exp_minus_1)

lemma unat_sat_sub: "unat (sat_sub a b) = unat a - unat b"
  by (auto simp: sat_sub_def unat_sub_if' word_le_nat_alt)

lemma sat_add_ge: "a \<le> sat_add a b"
  for a b :: "'a::len word"
  using unat_less_exp [of a] by (simp add: word_le_nat_alt unat_sat_add less_eq_Suc_le flip: Suc_le_eq)

lemma sat_sub_zero_iff [simp]: "sat_sub a b = 0 \<longleftrightarrow> a \<le> b"
  by (simp add: word_le_nat_alt unat_sat_sub flip: unat_eq_zero)

lemma xor_left_cancel [simp]: "a XOR b = a XOR c \<longleftrightarrow> b = c" for a :: "'a::len word"
  by (metis xor.assoc xor_self_eq xor.left_neutral)

text \<open>Loops that count a word up to a limit.\<close>

lemma loop_measure:
  fixes tick max_ticks :: "'a::len word"
  assumes "\<not> max_ticks \<le> tick + 1"
  shows "unat (max_ticks - (2 + tick)) < unat (max_ticks - (tick + 1))"
proof -
  have "max_ticks - (tick + 1) \<noteq> 0" using assms by auto
  then have "unat (max_ticks - (tick + 1) - 1) < unat (max_ticks - (tick + 1))"
    by (metis measure_unat)
  then show ?thesis by (simp add: diff_diff_eq add.commute)
qed

lemma unat_incr:
  fixes n m :: "'a::len word"
  assumes "n < m"
  shows "unat (n + 1) = Suc (unat n)"
proof -
  have "Suc (unat n) < 2 ^ LENGTH('a)" using assms unat_less_exp [of m] unfolding word_less_nat_alt by linarith
  then show ?thesis by (simp add: unat_word_ariths)
qed

section \<open>Lists and prefixes\<close>

text \<open>The Rust slice \<open>xs[a..b]\<close>, used only where the source has checked the bounds.\<close>

definition slice_of :: "nat \<Rightarrow> nat \<Rightarrow> 'a list \<Rightarrow> 'a list" where
  "slice_of a b xs = take (b - a) (drop a xs)"

lemma length_slice [simp]: "length (slice_of a b xs) = min (b - a) (length xs - a)"
  by (simp add: slice_of_def)

lemma slice_append_slice: "a \<le> b \<Longrightarrow> b \<le> c \<Longrightarrow> slice_of a b xs @ slice_of b c xs = slice_of a c xs"
  using take_add [of "b - a" "c - b" "drop a xs"] by (simp add: slice_of_def add.commute)

lemma slice_to_end: "length xs \<le> b \<Longrightarrow> slice_of a b xs = drop a xs"
  by (simp add: slice_of_def)

lemma slice_from_start: "slice_of 0 b xs = take b xs"
  by (simp add: slice_of_def)

text \<open>\<open>slice_at S k d\<close>: the bytes \<open>d\<close> stand in the stream \<open>S\<close> at offset \<open>k\<close>.\<close>

definition slice_at :: "'a list \<Rightarrow> nat \<Rightarrow> 'a list \<Rightarrow> bool" where
  "slice_at S k d \<longleftrightarrow> k + length d \<le> length S \<and> take (length d) (drop k S) = d"

lemma slice_at_append: "slice_at S k d \<Longrightarrow> slice_at (S @ T) k d"
  by (auto simp: slice_at_def)

lemma slice_at_prefix_extend:
  assumes "slice_at S k d" and "take n S = P" and "n \<le> length S"
    and "k \<le> n" and "n \<le> k + length d"
  shows "P @ drop (n - k) d = take (k + length d) S"
proof -
  have d: "d = take (length d) (drop k S)" using assms(1) by (simp add: slice_at_def)
  have "drop (n - k) d = take (k + length d - n) (drop n S)"
    by (subst d) (use assms(4,5) in \<open>simp add: drop_take ac_simps\<close>)
  moreover have "take (k + length d) S = take n S @ take (k + length d - n) (drop n S)"
    using assms(5) by (metis le_add_diff_inverse take_add)
  ultimately show ?thesis using assms(2) by simp
qed

section \<open>Transition systems\<close>

inductive reachable :: "('s \<Rightarrow> bool) \<Rightarrow> ('s \<Rightarrow> 's \<Rightarrow> bool) \<Rightarrow> 's \<Rightarrow> bool"
  for init step where
  reachable_init: "init s \<Longrightarrow> reachable init step s"
| reachable_step: "reachable init step s \<Longrightarrow> step s s' \<Longrightarrow> reachable init step s'"

locale invariant_system =
  fixes init :: "'s \<Rightarrow> bool" and step :: "'s \<Rightarrow> 's \<Rightarrow> bool" and inv :: "'s \<Rightarrow> bool"
  assumes init_inv: "init s \<Longrightarrow> inv s"
    and step_inv: "inv s \<Longrightarrow> step s s' \<Longrightarrow> inv s'"
begin

lemma reachable_inv: "reachable init step s \<Longrightarrow> inv s"
  by (induction rule: reachable.induct) (auto intro: init_inv step_inv)

end

end
