(* ===== verification/Rng.thy ===== *)
theory Rng
  imports Prelude Complex_Main
begin

text \<open>
  The two SplitMix64 generators, \<^verbatim>\<open>crates/channel/src/rng.rs\<close> and
  \<^verbatim>\<open>crates/workload/src/rng.rs\<close>: the same state and \<open>next_u64\<close>, different draws on top of it.
  A draw that panics is \<open>None\<close>. The locale \<open>random_source\<close> is what their callers rely on.
\<close>

section \<open>The generator\<close>

definition GAMMA :: u64 where "GAMMA = 0x9E3779B97F4A7C15"

definition mix :: "u64 \<Rightarrow> u64" where
  "mix z0 =
    (let z1 = (z0 XOR drop_bit 30 z0) * 0xBF58476D1CE4E5B9;
         z2 = (z1 XOR drop_bit 27 z1) * 0x94D049BB133111EB
     in z2 XOR drop_bit 31 z2)"

definition next_u64 :: "u64 \<Rightarrow> u64 \<times> u64" where
  "next_u64 state = (let state' = state + GAMMA in (mix state', state'))"

text \<open>
  A double: \<open>chance\<close> compares an exact multiple of \<open>2 ^ -53\<close> with it, so only the order of doubles
  matters, and every comparison with NaN is false.
\<close>

datatype f64 = Fin rat | PInf | NInf | NaN

fun f64_less :: "f64 \<Rightarrow> f64 \<Rightarrow> bool" where
  "f64_less (Fin a) (Fin b) \<longleftrightarrow> a < b"
| "f64_less (Fin a) PInf \<longleftrightarrow> True"
| "f64_less NInf (Fin b) \<longleftrightarrow> True"
| "f64_less NInf PInf \<longleftrightarrow> True"
| "f64_less _ _ \<longleftrightarrow> False"

fun f64_le :: "f64 \<Rightarrow> f64 \<Rightarrow> bool" where
  "f64_le NaN _ \<longleftrightarrow> False"
| "f64_le _ NaN \<longleftrightarrow> False"
| "f64_le a b \<longleftrightarrow> a = b \<or> f64_less a b"

definition chance :: "f64 \<Rightarrow> u64 \<Rightarrow> bool \<times> u64" where
  "chance p state =
    (case next_u64 state of (x, state') \<Rightarrow>
       (f64_less (Fin (of_nat (unat (drop_bit 11 x)) / 2 ^ 53)) p, state'))"

definition below :: "u64 \<Rightarrow> u64 \<Rightarrow> (u64 \<times> u64) option" where
  "below n state =
    (if n = 0 then None
     else case next_u64 state of (x, state') \<Rightarrow>
       Some (ucast (drop_bit 64 (ucast x * ucast n :: u128)), state'))"

text \<open>The workload's draws; \<open>usize\<close> values are naturals below \<open>2 ^ 64\<close>.\<close>

definition below_usize :: "nat \<Rightarrow> u64 \<Rightarrow> (nat \<times> u64) option" where
  "below_usize n state =
    (if n = 0 then None
     else case next_u64 state of (x, state') \<Rightarrow> Some (unat x * n div 2 ^ 64, state'))"

definition percent :: "u64 \<Rightarrow> u64 \<Rightarrow> bool \<times> u64" where
  "percent p state = (case next_u64 state of (x, state') \<Rightarrow> (x mod 100 < p, state'))"

section \<open>Draws\<close>

locale random_source =
  fixes draw :: "'n \<Rightarrow> 's \<Rightarrow> ('n \<times> 's) option" and to_nat :: "'n \<Rightarrow> nat" and step :: "'s \<Rightarrow> 's"
  assumes draw_zero: "to_nat n = 0 \<Longrightarrow> draw n s = None"
    and draw_pos: "0 < to_nat n \<Longrightarrow> \<exists>x. draw n s = Some (x, step s) \<and> to_nat x < to_nat n"
begin

lemma draw_range: "draw n s = Some (x, s') \<Longrightarrow> to_nat x < to_nat n"
  using draw_pos [of n s] draw_zero [of n s] by fastforce

lemma draw_step: "draw n s = Some (x, s') \<Longrightarrow> s' = step s"
  using draw_pos [of n s] draw_zero [of n s] by fastforce

lemma draw_None_iff: "draw n s = None \<longleftrightarrow> to_nat n = 0"
  using draw_pos [of n s] draw_zero [of n s] by fastforce

lemma draw_index:
  assumes "to_nat n = length xs" and "xs \<noteq> []"
  obtains i s' where "draw n s = Some (i, s')" "to_nat i < length xs"
  using draw_pos [of n s] assms by fastforce

end

lemma mult_high_less: "0 < n \<Longrightarrow> unat (x :: u64) * n div 2 ^ 64 < n"
  using unat_less_exp [of x] by (simp add: less_mult_imp_div_less mult.commute)

lemma unat_below:
  assumes "below n s = Some (x, s')"
  shows "unat x = unat (fst (next_u64 s)) * unat n div 2 ^ 64" and "s' = s + GAMMA"
proof -
  let ?z = "fst (next_u64 s)"
  have b: "unat ?z * unat n < 2 ^ 128"
  proof -
    have "unat ?z * unat n < 2 ^ 64 * 2 ^ 64"
      using unat_less_exp [of ?z] unat_less_exp [of n] by (intro mult_strict_mono) auto
    then show ?thesis by simp
  qed
  have p: "unat (ucast ?z * ucast n :: u128) = unat ?z * unat n"
    using b by (simp add: unat_word_ariths unat_ucast_up)
  have "unat ?z * unat n div 2 ^ 64 < 2 ^ 64"
    using b by (simp add: less_mult_imp_div_less)
  then have "unat (ucast (drop_bit 64 (ucast ?z * ucast n :: u128)) :: u64) = unat ?z * unat n div 2 ^ 64"
    by (simp only: unsigned_ucast_eq take_bit_eq_mod unat_drop_bit_eq p) (simp add: drop_bit_eq_div)
  with assms show "unat x = unat ?z * unat n div 2 ^ 64" "s' = s + GAMMA"
    by (auto simp: below_def next_u64_def Let_def split: if_splits)
qed

interpretation channel_rng: random_source below unat "\<lambda>s. s + GAMMA"
proof unfold_locales
  fix n s :: u64
  assume n: "0 < unat n"
  then obtain x s' where "below n s = Some (x, s')"
    by (cases "next_u64 s") (fastforce simp: below_def)
  moreover from this have "unat x < unat n" "s' = s + GAMMA"
    using unat_below [of n s] n mult_high_less [OF n] by auto
  ultimately show "\<exists>x. below n s = Some (x, s + GAMMA) \<and> unat x < unat n" by blast
qed (simp add: below_def unat_eq_0)

interpretation workload_rng: random_source below_usize "\<lambda>n. n" "\<lambda>s. s + GAMMA"
proof unfold_locales
  fix n :: nat and s :: u64
  assume "0 < n"
  then show "\<exists>x. below_usize n s = Some (x, s + GAMMA) \<and> x < n"
    using mult_high_less [of n] by (simp add: below_usize_def next_u64_def Let_def)
qed (simp add: below_usize_def)

lemma chance_step [simp]: "snd (chance p s) = s + GAMMA"
  by (simp add: chance_def next_u64_def Let_def)

lemma chance_never: "\<not> fst (chance (Fin 0) s)"
  by (simp add: chance_def not_less split: prod.split) (metis of_nat_0_le_iff of_nat_unat)

lemma chance_always: "fst (chance (Fin 1) s)"
proof -
  have "unat (drop_bit 11 x) < 2 ^ 53" for x :: u64
    using unat_less_exp [of x] by (simp only: unat_drop_bit_eq) (simp add: drop_bit_eq_div less_mult_imp_div_less)
  then have "of_nat (unat (drop_bit 11 x)) < (2 ^ 53 :: rat)" for x :: u64
    by (metis of_nat_less_iff of_nat_numeral of_nat_power)
  then show ?thesis by (simp add: chance_def divide_less_eq split: prod.split del: of_nat_unat)
qed

section \<open>The period\<close>

lemma drop_bit_fixed:
  assumes "drop_bit k d = (d :: u64)" and "0 < k"
  shows "d = 0"
proof (rule ccontr)
  assume "d \<noteq> 0"
  then have "0 < unat d" by (simp add: unat_gt_0)
  moreover have "unat d div 2 ^ k = unat d"
    using assms(1) by (metis drop_bit_eq_div unat_drop_bit_eq)
  moreover have "1 < (2::nat) ^ k" using assms(2) by (intro one_less_power) auto
  ultimately show False by (metis div_less_dividend less_irrefl)
qed

lemma xor_eq_0_iff: "x XOR y = 0 \<longleftrightarrow> y = (x :: u64)"
proof -
  have "x XOR y = 0 \<longleftrightarrow> x XOR y = x XOR x" by (simp only: xor_self_eq)
  then show ?thesis by (simp only: xor_left_cancel)
qed

lemma inj_xorshift:
  assumes "0 < k"
  shows "inj (\<lambda>z :: u64. z XOR drop_bit k z)"
proof (rule injI)
  fix a b :: u64
  assume e: "a XOR drop_bit k a = b XOR drop_bit k b"
  have "(a XOR drop_bit k a) XOR (b XOR drop_bit k b) = (a XOR b) XOR drop_bit k (a XOR b)"
    by (simp only: drop_bit_xor xor.assoc xor.commute xor.left_commute)
  then have "(a XOR b) XOR drop_bit k (a XOR b) = 0" by (simp only: e xor_self_eq)
  then have "drop_bit k (a XOR b) = a XOR b" by (simp only: xor_eq_0_iff)
  then have "a XOR b = 0" using assms by (rule drop_bit_fixed)
  then show "a = b" by (simp only: xor_eq_0_iff)
qed

lemma inj_mult_inverse:
  assumes "c * d = (1 :: u64)"
  shows "inj (\<lambda>z. z * c)"
proof (rule injI)
  fix a b assume "a * c = b * c"
  then have "a * (c * d) = b * (c * d)" by (simp only: mult.assoc [symmetric])
  then show "a = b" by (simp only: assms mult_1_right)
qed

lemma inj_mix: "inj mix"
proof -
  have 1: "inj (\<lambda>z :: u64. z * 0x94D049BB133111EB)"
    by (rule inj_mult_inverse [of _ "0x319642b2d24d8ec3"]) simp
  have 2: "inj (\<lambda>z :: u64. z * 0xBF58476D1CE4E5B9)"
    by (rule inj_mult_inverse [of _ "0x96de1b173f119089"]) simp
  have "inj ((\<lambda>z. z XOR drop_bit 31 z) \<circ> ((\<lambda>z. z * 0x94D049BB133111EB) \<circ> ((\<lambda>z. z XOR drop_bit 27 z)
      \<circ> ((\<lambda>z. z * 0xBF58476D1CE4E5B9) \<circ> (\<lambda>z :: u64. z XOR drop_bit 30 z)))))"
    by (intro inj_compose inj_xorshift 1 2 zero_less_numeral)
  moreover have "(\<lambda>z. z XOR drop_bit 31 z) \<circ> ((\<lambda>z. z * 0x94D049BB133111EB) \<circ> ((\<lambda>z. z XOR drop_bit 27 z)
      \<circ> ((\<lambda>z. z * 0xBF58476D1CE4E5B9) \<circ> (\<lambda>z. z XOR drop_bit 30 z)))) = mix"
    by (simp only: fun_eq_iff mix_def Let_def o_apply simp_thms)
  ultimately show ?thesis by simp
qed

text \<open>The \<open>i\<close>-th output of a generator.\<close>

fun nth_output :: "u64 \<Rightarrow> nat \<Rightarrow> u64" where
  "nth_output s 0 = fst (next_u64 s)"
| "nth_output s (Suc i) = nth_output (snd (next_u64 s)) i"

lemma nth_output_closed: "nth_output s i = mix (s + word_of_nat (Suc i) * GAMMA)"
  by (induction i arbitrary: s) (simp_all add: next_u64_def Let_def algebra_simps)

lemma inj_GAMMA: "inj (\<lambda>z. z * GAMMA)"
  unfolding GAMMA_def by (rule inj_mult_inverse [of _ "0xf1de83e19937733d"]) simp

lemma unat_of_nat_len64: "unat (word_of_nat i :: u64) = i mod 2 ^ 64"
  by (simp add: unat_of_nat)

lemma nth_output_distinct:
  assumes "nth_output s i = nth_output s j"
  shows "i mod 2 ^ 64 = j mod 2 ^ 64"
proof -
  have "word_of_nat (Suc i) * GAMMA = word_of_nat (Suc j) * GAMMA"
    using assms injD [OF inj_mix] by (fastforce simp: nth_output_closed)
  then have "(word_of_nat (Suc i) :: u64) = word_of_nat (Suc j)"
    using injD [OF inj_GAMMA] by blast
  then have "(word_of_nat i :: u64) = word_of_nat j" by simp
  then show ?thesis by (metis unat_of_nat_len64)
qed

section \<open>Properties\<close>

text \<open>C31. The generator repeats no output before its period of \<open>2 ^ 64\<close> is over: outputs number \<open>i\<close> and
  \<open>j\<close> of one seed are equal if and only if \<open>i\<close> and \<open>j\<close> are congruent modulo \<open>2 ^ 64\<close>.\<close>

theorem splitmix_full_period: "nth_output seed i = nth_output seed j \<longleftrightarrow> i mod 2 ^ 64 = j mod 2 ^ 64"
proof
  assume "i mod 2 ^ 64 = j mod 2 ^ 64"
  then have "(word_of_nat i :: u64) = word_of_nat j" by (metis unat_of_nat_len64 word_unat_eq_iff)
  then show "nth_output seed i = nth_output seed j" by (simp add: nth_output_closed)
qed (rule nth_output_distinct)

text \<open>Both bounded draws stay in range and consume exactly one output; they fail only for the bound 0.
  The channel's draw, computed on 128-bit words, is the high half of the product.\<close>

theorem bounded_draws:
  "(below n s = None \<longleftrightarrow> n = 0) \<and> (below_usize k s = None \<longleftrightarrow> k = 0)
   \<and> (n = 0 \<or> (\<exists>x. below n s = Some (x, s + GAMMA) \<and> x < n
        \<and> unat x = unat (fst (next_u64 s)) * unat n div 2 ^ 64))
   \<and> (k = 0 \<or> (\<exists>x. below_usize k s = Some (x, s + GAMMA) \<and> x < k))"
proof -
  have "\<exists>x. below n s = Some (x, s + GAMMA) \<and> x < n \<and> unat x = unat (fst (next_u64 s)) * unat n div 2 ^ 64"
    if n: "n \<noteq> 0"
  proof -
    obtain x where x: "below n s = Some (x, s + GAMMA)" "unat x < unat n"
      using channel_rng.draw_pos [of n s] n by (auto simp: unat_gt_0)
    then show ?thesis using unat_below(1) [OF x(1)] by (auto simp: word_less_nat_alt)
  qed
  then show ?thesis
    using channel_rng.draw_None_iff [of n s] workload_rng.draw_None_iff [of k s]
      workload_rng.draw_pos [of k s] by (auto simp: unat_eq_0)
qed

end
