(* ===== verification/Crc32c.thy ===== *)
theory Crc32c
  imports Prelude
begin

text \<open>
  The checksum of \<^verbatim>\<open>crates/frame/src/crc32c.rs\<close>: the bit-at-a-time CRC-32C and the
  algebra its error detection rests on. The register step preserves the parity of the
  register (the polynomial is divisible by \<open>x + 1\<close>), which gives detection of every error
  of odd weight, and it is injective, which gives detection of every error confined to one
  burst of four bytes.
\<close>

section \<open>The checksum\<close>

definition POLY :: u32 where
  "POLY = 0x82F63B78"

definition crc_shift :: "u32 \<Rightarrow> u32" where
  "crc_shift crc = (if crc AND 1 \<noteq> 0 then drop_bit 1 crc XOR POLY else drop_bit 1 crc)"

definition crc_byte :: "u32 \<Rightarrow> u8 \<Rightarrow> u32" where
  "crc_byte crc byte = (crc_shift ^^ 8) (crc XOR ucast byte)"

definition crc32c :: "bytes \<Rightarrow> u32" where
  "crc32c data = NOT (foldl crc_byte 0xFFFFFFFF data)"

section \<open>Parity\<close>

primrec par :: "nat \<Rightarrow> 'a::len word \<Rightarrow> bool" where
  "par 0 w = False"
| "par (Suc n) w = (bit w n \<noteq> par n w)"

abbreviation parity :: "'a::len word \<Rightarrow> bool" where
  "parity (w :: 'a word) \<equiv> par LENGTH('a) w"

definition popcount :: "'a::len word \<Rightarrow> nat" where
  "popcount (w :: 'a word) = card {i. i < LENGTH('a) \<and> bit w i}"

definition weight :: "bytes \<Rightarrow> nat" where
  "weight bs = sum_list (map popcount bs)"

definition xor_bytes :: "bytes \<Rightarrow> bytes \<Rightarrow> bytes" where
  "xor_bytes d e = map2 (XOR) d e"

lemma par_xor: "par n (x XOR y) = (par n x \<noteq> par n y)"
  by (induction n) (auto simp: bit_simps)

lemma par_drop_bit: "par n (drop_bit 1 w) = (par (Suc n) w \<noteq> bit w 0)"
  by (induction n) (auto simp: bit_simps)

lemma par_above: "LENGTH('a) \<le> n \<Longrightarrow> par n w = parity w" for w :: "'a::len word"
proof (induction rule: dec_induct)
  case base
  show ?case ..
next
  case (step n)
  then show ?case using bit_imp_le_length [of w n] by auto
qed

lemma par_ucast: "n \<le> LENGTH('b) \<Longrightarrow> par n (ucast w :: 'b::len word) = par n (w :: 'a::len word)"
  by (induction n) (auto simp: bit_simps)

lemma odd_popcount: "odd (popcount w) = parity w" for w :: "'a::len word"
proof -
  have "odd (card {i. i < n \<and> bit w i}) = par n w" for n
  proof (induction n)
    case (Suc n)
    have "{i. i < Suc n \<and> bit w i} =
        (if bit w n then insert n {i. i < n \<and> bit w i} else {i. i < n \<and> bit w i})"
      by (auto simp: less_Suc_eq)
    with Suc show ?case by auto
  qed simp
  then show ?thesis by (simp add: popcount_def)
qed

lemma weight_Nil [simp]: "weight [] = 0"
  by (simp add: weight_def)

lemma weight_append [simp]: "weight (xs @ ys) = weight xs + weight ys"
  by (simp add: weight_def)

lemma odd_weight_Cons: "odd (weight (b # bs)) = (parity b \<noteq> odd (weight bs))"
  using odd_popcount [of b] by (auto simp: weight_def)

lemma odd_weight_xor_bytes:
  "length d = length e \<Longrightarrow> odd (weight (xor_bytes d e)) = (odd (weight d) \<noteq> odd (weight e))"
proof (induction d e rule: list_induct2)
  case (Cons x xs y ys)
  have "xor_bytes (x # xs) (y # ys) = (x XOR y) # xor_bytes xs ys"
    by (simp add: xor_bytes_def)
  with Cons.IH show ?case by (simp only: odd_weight_Cons par_xor) blast
qed (simp add: xor_bytes_def)

lemma par_add: "par (m + n) w = (par m w \<noteq> par n (drop_bit m w))"
  by (induction n) (auto simp: bit_simps)

lemma odd_weight_to_le: "odd (weight (to_le n w)) = par (8 * n) w"
proof (induction n arbitrary: w)
  case (Suc n)
  have "par (8 * Suc n) w = (par 8 w \<noteq> par (8 * n) (drop_bit 8 w))"
    using par_add [of 8 "8 * n" w] by simp
  then show ?case
    using par_ucast [of 8 w, where ?'b = 8] by (simp only: to_le.simps odd_weight_Cons Suc.IH) simp
qed simp

lemma par_crc_shift: "par 32 (crc_shift c) = par 32 c"
proof -
  have "parity (drop_bit 1 c) = (parity c \<noteq> bit c 0)"
    using par_drop_bit [of 32 c] par_above [of 33 c] by simp
  moreover have "parity POLY"
    unfolding POLY_def by code_simp
  moreover have "c AND 1 \<noteq> 0 \<longleftrightarrow> bit c 0"
    by (simp add: and_one_eq odd_iff_mod_2_eq_one bit_0)
  ultimately show ?thesis
    unfolding crc_shift_def by (simp add: par_xor)
qed

lemma par_crc_byte: "parity (crc_byte c b) = (parity c \<noteq> parity b)"
proof -
  have "parity ((crc_shift ^^ n) x) = parity x" for n x
    by (induction n) (simp_all add: par_crc_shift)
  moreover have "parity (ucast b :: u32) = parity b"
    using par_ucast [of 32 b, where ?'b = 32] par_above [of 32 b] by simp
  ultimately show ?thesis by (simp add: crc_byte_def par_xor)
qed

lemma par_crc32c: "parity (crc32c data) = odd (weight data)"
proof -
  have fold: "parity (foldl crc_byte c data) = (parity c \<noteq> odd (weight data))" for c
  proof (induction data arbitrary: c)
    case (Cons b data)
    then show ?case by (simp only: foldl_Cons par_crc_byte odd_weight_Cons) blast
  qed simp
  have ones: "\<not> parity (0xFFFFFFFF :: u32)" by code_simp
  have all: "(0xFFFFFFFF :: u32) = - 1" by simp
  have "NOT x = x XOR (0xFFFFFFFF :: u32)" for x
    by (subst all) simp
  then have "parity (NOT x) = parity x" for x :: u32
    using ones by (simp only: par_xor) simp
  with fold ones show ?thesis by (simp add: crc32c_def)
qed

section \<open>Linearity and injectivity of the register\<close>

lemma and_one_bit_0: "c AND 1 \<noteq> 0 \<longleftrightarrow> bit c 0" for c :: "'a::len word"
  by (simp add: and_one_eq odd_iff_mod_2_eq_one bit_0)

lemma crc_shift_alt: "crc_shift c = drop_bit 1 c XOR (if bit c 0 then POLY else 0)"
  by (simp add: crc_shift_def and_one_bit_0)

lemma crc_shift_zero [simp]: "crc_shift 0 = 0"
  by (simp add: crc_shift_alt)

lemma crc_shift_xor: "crc_shift (x XOR y) = crc_shift x XOR crc_shift y"
  by (rule bit_word_eqI) (auto simp: crc_shift_alt bit_simps)

lemma crc_shift_eq_0_iff [simp]: "crc_shift c = 0 \<longleftrightarrow> c = 0"
proof
  assume zero: "crc_shift c = 0"
  have "bit POLY 31" unfolding POLY_def by code_simp
  with zero have b0: "\<not> bit c 0"
    using bit_imp_le_length [of c 32]
    by (auto simp: crc_shift_alt bit_simps dest!: arg_cong [where f = "\<lambda>w. bit w 31"])
  show "c = 0"
  proof (rule bit_word_eqI)
    fix i
    have "bit (crc_shift c) j = False" for j using zero by simp
    then show "bit c i = bit 0 i"
      using b0 by (cases i) (auto simp: crc_shift_alt bit_simps)
  qed
qed simp

lemma crc_shift_pow_xor: "(crc_shift ^^ n) (x XOR y) = (crc_shift ^^ n) x XOR (crc_shift ^^ n) y"
  by (induction n) (simp_all add: crc_shift_xor)

lemma crc_shift_pow_eq_0_iff [simp]: "(crc_shift ^^ n) c = 0 \<longleftrightarrow> c = 0"
  by (induction n) simp_all

lemma crc_shift_pow_zero [simp]: "(crc_shift ^^ n) 0 = 0"
  by simp

lemma crc_byte_xor: "crc_byte (c XOR d) (b XOR e) = crc_byte c b XOR crc_byte d e"
proof -
  have "(c XOR d) XOR ucast (b XOR e) = (c XOR ucast b) XOR (d XOR ucast e :: u32)"
    by (rule bit_word_eqI) (auto simp: bit_simps)
  then show ?thesis by (simp only: crc_byte_def crc_shift_pow_xor)
qed

text \<open>The syndrome of an error pattern: what it adds to the register, whatever the message.\<close>

definition syndrome :: "bytes \<Rightarrow> u32" where
  "syndrome e = foldl crc_byte 0 e"

lemma foldl_crc_byte_xor:
  "length d = length e \<Longrightarrow>
     foldl crc_byte (c XOR s) (xor_bytes d e) = foldl crc_byte c d XOR foldl crc_byte s e"
proof (induction d e arbitrary: c s rule: list_induct2)
  case (Cons x xs y ys)
  have "xor_bytes (x # xs) (y # ys) = (x XOR y) # xor_bytes xs ys"
    by (simp add: xor_bytes_def)
  with Cons.IH show ?case by (simp only: foldl_Cons crc_byte_xor)
qed (simp add: xor_bytes_def)

lemma crc32c_xor_bytes:
  assumes "length d = length e"
  shows "crc32c (xor_bytes d e) = crc32c d XOR syndrome e"
  using foldl_crc_byte_xor [OF assms, of "0xFFFFFFFF" 0]
  by (simp add: crc32c_def syndrome_def)

section \<open>Bursts\<close>

text \<open>
  The register fed bit by bit, least significant bit of each byte first: the order in which
  \<^const>\<open>crc_byte\<close> consumes them.
\<close>

definition bits_of :: "bytes \<Rightarrow> bool list" where
  "bits_of bs = concat (map (\<lambda>b. map (bit b) [0..<8]) bs)"

definition crc_bit :: "u32 \<Rightarrow> bool \<Rightarrow> u32" where
  "crc_bit c b = crc_shift (c XOR of_bool b)"

definition burst32 :: "bytes \<Rightarrow> bool" where
  "burst32 e \<longleftrightarrow> (\<exists>i. (\<forall>j < length (bits_of e). bits_of e ! j \<longrightarrow> i \<le> j \<and> j < i + 32))
     \<and> True \<in> set (bits_of e)"

lemma crc_shift_load:
  "(crc_shift ^^ Suc n) (c XOR w) = (crc_shift ^^ n) (crc_bit c (bit w 0) XOR drop_bit 1 w)"
proof -
  let ?l = "of_bool (bit w 0) :: u32"
  have split: "c XOR w = (c XOR ?l) XOR (w XOR ?l)"
    by (simp add: xor.assoc xor.left_commute xor.commute)
  have "crc_shift (w XOR ?l) = drop_bit 1 w"
    by (rule bit_word_eqI) (auto simp: crc_shift_alt bit_simps)
  then have "crc_shift (c XOR w) = crc_bit c (bit w 0) XOR drop_bit 1 w"
    by (simp only: split crc_shift_xor crc_bit_def)
  then show ?thesis by (simp only: funpow_Suc_right o_def)
qed

lemma crc_shift_bits:
  "(crc_shift ^^ n) (c XOR take_bit n w) = foldl crc_bit c (map (bit w) [0..<n])"
proof (induction n arbitrary: c w)
  case (Suc n)
  have low: "bit (take_bit (Suc n) w) 0 = bit w 0" by (simp add: bit_simps)
  have rest: "drop_bit 1 (take_bit (Suc n) w) = take_bit n (drop_bit 1 w)"
    by (rule bit_word_eqI) (auto simp: bit_simps)
  have bits: "map (bit w) [0..<Suc n] = bit w 0 # map (bit (drop_bit 1 w)) [0..<n]"
    unfolding upt_conv_Cons [OF zero_less_Suc] by (simp add: map_Suc_upt [symmetric] bit_simps del: upt_Suc)
  show ?case
    by (simp only: crc_shift_load low rest Suc.IH bits foldl_Cons)
qed simp

lemma crc_byte_bits: "crc_byte c b = foldl crc_bit c (map (bit b) [0..<8])"
proof -
  have "take_bit 8 (ucast b :: u32) = ucast b"
    by (rule bit_word_eqI) (auto simp: bit_simps dest: bit_imp_le_length)
  moreover have "map (bit (ucast b :: u32)) [0..<8] = map (bit b) [0..<8]"
    by (simp add: bit_simps)
  ultimately show ?thesis
    using crc_shift_bits [of 8 c "ucast b"] by (simp only: crc_byte_def)
qed

lemma syndrome_bits: "syndrome e = foldl crc_bit 0 (bits_of e)"
proof -
  have "foldl crc_byte c e = foldl crc_bit c (bits_of e)" for c
    by (induction e arbitrary: c) (simp_all add: bits_of_def crc_byte_bits del: upt_Suc)
  then show ?thesis by (simp add: syndrome_def)
qed

lemma foldl_crc_bit_False:
  assumes "True \<notin> set bs"
  shows "foldl crc_bit c bs = (crc_shift ^^ length bs) c"
  using assms
proof (induction bs arbitrary: c)
  case (Cons b bs)
  then show ?case by (simp add: crc_bit_def funpow_swap1)
qed simp

lemma foldl_crc_bit_window:
  assumes "True \<in> set bs" and "length bs \<le> 32"
  shows "foldl crc_bit 0 bs \<noteq> 0"
proof -
  let ?w = "horner_sum of_bool 2 bs :: u32"
  have w: "bit ?w i = bs ! i" if "i < length bs" for i
    using that assms(2) by (simp add: bit_horner_sum_bit_iff)
  have "map (bit ?w) [0..<length bs] = bs"
    by (rule nth_equalityI) (simp_all add: w)
  then have fold: "foldl crc_bit 0 bs = (crc_shift ^^ length bs) (take_bit (length bs) ?w)"
    using crc_shift_bits [of "length bs" 0 ?w] by simp
  from assms(1) obtain i where "i < length bs" "bs ! i" by (auto simp: in_set_conv_nth)
  then have "bit (take_bit (length bs) ?w) i" by (simp add: w bit_take_bit_iff)
  then have "take_bit (length bs) ?w \<noteq> 0" by auto
  then show ?thesis by (simp add: fold)
qed

lemma syndrome_burst:
  assumes "burst32 e"
  shows "syndrome e \<noteq> 0"
proof -
  let ?B = "bits_of e"
  from assms obtain i where win: "\<And>j. j < length ?B \<Longrightarrow> ?B ! j \<Longrightarrow> i \<le> j \<and> j < i + 32"
    and some: "True \<in> set ?B" by (auto simp: burst32_def)
  let ?pre = "take i ?B" and ?mid = "take 32 (drop i ?B)" and ?post = "drop 32 (drop i ?B)"
  have pre: "True \<notin> set ?pre"
    using win by (force simp: in_set_conv_nth)
  have post: "True \<notin> set ?post"
  proof
    assume "True \<in> set ?post"
    then obtain j where "j < length ?B - (32 + i)" "?B ! (32 + (i + j))"
      by (auto simp: in_set_conv_nth add.assoc)
    with win [of "32 + (i + j)"] show False by (simp add: less_diff_conv ac_simps)
  qed
  have B: "?B = ?pre @ ?mid @ ?post"
    by (simp only: append_take_drop_id)
  with some pre post have mid: "True \<in> set ?mid"
    by (metis Un_iff set_append)
  have "foldl crc_bit 0 ?B = foldl crc_bit (foldl crc_bit (foldl crc_bit 0 ?pre) ?mid) ?post"
    by (subst (1) B) (simp only: foldl_append)
  also have "\<dots> = (crc_shift ^^ length ?post) (foldl crc_bit 0 ?mid)"
    using foldl_crc_bit_False [OF pre, of 0] foldl_crc_bit_False [OF post] by simp
  finally show ?thesis
    using foldl_crc_bit_window [OF mid] by (simp add: syndrome_bits)
qed

text \<open>
  A codeword is a message followed by its checksum in little-endian order. An error pattern
  turns a codeword into a codeword exactly when its syndrome, taken over the trailer too, is 0.
\<close>

lemma length_bits_of [simp]: "length (bits_of bs) = 8 * length bs"
  by (induction bs) (simp_all add: bits_of_def del: upt_Suc)

lemma nth_bits_of: "j < 8 * length bs \<Longrightarrow> bits_of bs ! j = bit (bs ! (j div 8)) (j mod 8)"
proof (induction bs arbitrary: j)
  case (Cons b bs)
  have cons: "bits_of (b # bs) = map (bit b) [0..<8] @ bits_of bs"
    by (simp add: bits_of_def del: upt_Suc)
  show ?case
  proof (cases "j < 8")
    case True
    then show ?thesis by (simp add: cons nth_append del: upt_Suc)
  next
    case False
    then have "j div 8 = Suc ((j - 8) div 8)" "j mod 8 = (j - 8) mod 8"
      by (simp_all add: le_div_geq le_mod_geq)
    with False Cons.prems Cons.IH [of "j - 8"] show ?thesis
      by (simp add: cons nth_append del: upt_Suc)
  qed
qed simp

lemma length_xor_bytes [simp]: "length (xor_bytes d e) = min (length d) (length e)"
  by (simp add: xor_bytes_def)

lemma xor_bytes_append:
  "length d = length e \<Longrightarrow> xor_bytes (d @ d') (e @ e') = xor_bytes d e @ xor_bytes d' e'"
  by (simp add: xor_bytes_def)

lemma from_le_xor_bytes:
  "length d = length e \<Longrightarrow> from_le (xor_bytes d e) = (from_le d XOR from_le e :: 'a::len word)"
  by (rule bit_word_eqI) (auto simp: bit_from_le bit_xor_iff xor_bytes_def)

lemma foldl_crc_byte_cancel:
  assumes "length t = 4"
  shows "foldl crc_byte (from_le t) t = 0"
proof -
  let ?w = "from_le t :: u32"
  have bits: "map (bit ?w) [0..<32] = bits_of t"
    by (rule nth_equalityI) (simp_all add: assms nth_bits_of bit_from_le)
  have "foldl crc_byte c e = foldl crc_bit c (bits_of e)" for c e
    by (induction e arbitrary: c) (simp_all add: bits_of_def crc_byte_bits del: upt_Suc)
  then have "foldl crc_byte ?w t = (crc_shift ^^ 32) (?w XOR take_bit 32 ?w)"
    by (simp only: crc_shift_bits bits)
  then show ?thesis by (simp add: take_bit_word_eq_self)
qed

lemma codeword_syndrome:
  assumes "length m = length e" and "length t = 4"
    and "crc32c (xor_bytes m e) = from_le (xor_bytes (le32 (crc32c m)) t)"
  shows "syndrome (e @ t) = 0"
proof -
  have "syndrome e = from_le t"
    using assms by (simp add: crc32c_xor_bytes from_le_xor_bytes)
  then show ?thesis
    using foldl_crc_byte_cancel [OF assms(2)] by (simp add: syndrome_def)
qed

section \<open>Properties\<close>

lemma crc_byte_eval: "crc_byte c b = crc_shift (crc_shift (crc_shift (crc_shift
    (crc_shift (crc_shift (crc_shift (crc_shift (c XOR ucast b))))))))"
  by (simp add: crc_byte_def eval_nat_numeral)

text \<open>The checksum is CRC-32C: on the ASCII digits 1 to 9 it is the published check value.\<close>

theorem crc32c_check_value:
  "crc32c [0x31, 0x32, 0x33, 0x34, 0x35, 0x36, 0x37, 0x38, 0x39] = 0xE3069283"
  by (simp add: crc32c_def crc_byte_eval crc_shift_def POLY_def)

end
