(* ===== verification/Frame.thy ===== *)
theory Frame
  imports Crc32c
begin

text \<open>
  The wire unit of \<^verbatim>\<open>crates/frame/src/lib.rs\<close>: \<open>encode\<close> and the fail-fast \<open>decode\<close> with its
  four error variants. The theorems state that \<open>decode\<close> inverts \<open>encode\<close>, that it accepts
  only datagrams \<open>encode\<close> produces, and which channel faults it is certain to reject.
\<close>

section \<open>Format\<close>

definition VERSION :: u8 where "VERSION = 1"
definition HEADER_LEN :: nat where "HEADER_LEN = 12"
definition CRC_LEN :: nat where "CRC_LEN = 4"
definition MIN_FRAME_LEN :: nat where "MIN_FRAME_LEN = HEADER_LEN + CRC_LEN"

lemmas frame_consts = VERSION_def HEADER_LEN_def CRC_LEN_def MIN_FRAME_LEN_def

record frame =
  frame_type :: u8
  sequence :: u32
  flags :: u16
  payload :: bytes

datatype decode_error =
    TooShort nat
  | UnsupportedVersion u8
  | LengthMismatch u32 nat
  | ChecksumMismatch u32 u32

definition frame_body :: "frame \<Rightarrow> bytes" where
  "frame_body f = [VERSION, frame_type f] @ le32 (sequence f) @ le16 (flags f)
     @ le32 (word_of_nat (length (payload f))) @ payload f"

definition frame_encode :: "frame \<Rightarrow> bytes" where
  "frame_encode f = (let out = frame_body f in out @ le32 (crc32c out))"

definition frame_decode :: "bytes \<Rightarrow> decode_error + frame" where
  "frame_decode datagram =
    (if length datagram < MIN_FRAME_LEN then Inl (TooShort (length datagram))
     else let version = datagram ! 0 in
       if version \<noteq> VERSION then Inl (UnsupportedVersion version)
       else let ftype = datagram ! 1;
                seq = from_le (slice_of 2 6 datagram);
                flgs = from_le (slice_of 6 8 datagram);
                declared_len = from_le (slice_of 8 12 datagram) :: u32;
                available = length datagram - HEADER_LEN - CRC_LEN in
         if unat declared_len \<noteq> available then Inl (LengthMismatch declared_len available)
         else let payload_end = HEADER_LEN + available;
                  claimed_crc = from_le (slice_of payload_end (payload_end + CRC_LEN) datagram);
                  computed_crc = crc32c (take payload_end datagram) in
           if computed_crc \<noteq> claimed_crc then Inl (ChecksumMismatch computed_crc claimed_crc)
           else Inr \<lparr>frame_type = ftype, sequence = seq, flags = flgs,
                     payload = slice_of HEADER_LEN payload_end datagram\<rparr>)"

section \<open>Round trips\<close>

lemma length_frame_body [simp]: "length (frame_body f) = 12 + length (payload f)"
  by (simp add: frame_body_def)

lemma length_frame_encode [simp]: "length (frame_encode f) = 16 + length (payload f)"
  by (simp add: frame_encode_def Let_def)

lemma frame_encode_header:
  "frame_encode f ! 0 = VERSION"
  "frame_encode f ! Suc 0 = frame_type f"
  "slice_of 2 6 (frame_encode f) = le32 (sequence f)"
  "slice_of 6 8 (frame_encode f) = le16 (flags f)"
  "slice_of 8 12 (frame_encode f) = le32 (word_of_nat (length (payload f)))"
  "slice_of 12 (12 + length (payload f)) (frame_encode f) = payload f"
  by (simp_all add: frame_encode_def frame_body_def slice_of_def Let_def)

lemma frame_encode_trailer:
  "take (12 + length (payload f)) (frame_encode f) = frame_body f"
  "slice_of (12 + length (payload f)) (16 + length (payload f)) (frame_encode f)
     = le32 (crc32c (frame_body f))"
  by (simp_all add: frame_encode_def slice_of_def Let_def)

lemma frame_decode_encode:
  "frame_decode (frame_encode f) =
     (if length (payload f) < 2 ^ 32 then Inr f
      else Inl (LengthMismatch (word_of_nat (length (payload f))) (length (payload f))))"
  using mod_less_divisor [of 4294967296 "length (payload f)"]
  by (auto simp: frame_decode_def frame_consts Let_def unat_of_nat
      frame_encode_header frame_encode_trailer)

lemma frame_decode_InrD:
  assumes "frame_decode d = Inr f"
  shows "16 \<le> length d" and "d ! 0 = VERSION" and "frame_type f = d ! 1"
    and "sequence f = from_le (slice_of 2 6 d)" and "flags f = from_le (slice_of 6 8 d)"
    and "payload f = slice_of 12 (length d - 4) d"
    and "unat (from_le (slice_of 8 12 d) :: u32) = length d - 16"
    and "from_le (drop (length d - 4) d) = crc32c (take (length d - 4) d)"
  using assms
  by (auto simp: frame_decode_def frame_consts Let_def slice_to_end split: if_splits)

lemma frame_encode_decode:
  assumes "frame_decode d = Inr f"
  shows "frame_encode f = d"
proof -
  note D = frame_decode_InrD [OF assms]
  let ?e = "length d - 4"
  have e: "12 \<le> ?e" using D(1) by simp
  have "take 2 d = [VERSION, frame_type f]"
    using D(1,2,3) by (cases d rule: list.exhaust; cases "tl d") auto
  moreover have "slice_of 2 6 d = le32 (sequence f)" "slice_of 6 8 d = le16 (flags f)"
    using D(1,4,5) by (simp_all add: to_le_from_le)
  moreover have "slice_of 8 12 d = le32 (word_of_nat (length (payload f)))"
  proof -
    have "length (payload f) = unat (from_le (slice_of 8 12 d) :: u32)"
      using D(1,6,7) by simp
    then show ?thesis using D(1) by (simp add: to_le_from_le)
  qed
  moreover have "take ?e d = take 2 d @ slice_of 2 6 d @ slice_of 6 8 d @ slice_of 8 12 d @ slice_of 12 ?e d"
    using e by (simp add: slice_append_slice flip: slice_from_start)
  ultimately have body: "take ?e d = frame_body f"
    using D(6) by (simp add: frame_body_def)
  have "drop ?e d = le32 (crc32c (take ?e d))"
    using D(1,8) by (simp add: to_le_from_le flip: D(8))
  then show ?thesis
    by (metis append_take_drop_id body frame_encode_def)
qed

section \<open>Detection of channel faults\<close>

lemma even_weight_frame_encode: "even (weight (frame_encode f))"
proof -
  have "odd (weight (le32 (crc32c (frame_body f)))) = odd (weight (frame_body f))"
    using par_crc32c [of "frame_body f"] odd_weight_to_le [of 4 "crc32c (frame_body f)"] by simp
  then show ?thesis by (simp add: frame_encode_def Let_def)
qed

lemma odd_weight_error_rejected:
  assumes "length e = length (frame_encode f)" and "odd (weight e)"
  shows "\<exists>err. frame_decode (xor_bytes (frame_encode f) e) = Inl err"
proof (cases "frame_decode (xor_bytes (frame_encode f) e)")
  case (Inr g)
  then have "even (weight (xor_bytes (frame_encode f) e))"
    using frame_encode_decode even_weight_frame_encode by metis
  then show ?thesis
    using odd_weight_xor_bytes [OF assms(1) [symmetric]] assms(2) even_weight_frame_encode by blast
qed simp

lemma burst_error_rejected:
  assumes len: "length e = length (frame_encode f)" and "burst32 e"
  shows "\<exists>err. frame_decode (xor_bytes (frame_encode f) e) = Inl err"
proof (cases "frame_decode (xor_bytes (frame_encode f) e)")
  case (Inr g)
  let ?n = "length (frame_body f)" and ?c = "le32 (crc32c (frame_body f))"
  have n: "length (take ?n e) = ?n" and t: "length (drop ?n e) = 4" using len by simp_all
  have "xor_bytes (frame_encode f) e
      = xor_bytes (frame_body f) (take ?n e) @ xor_bytes ?c (drop ?n e)"
    using xor_bytes_append [OF n [symmetric], of ?c "drop ?n e"]
    by (simp add: frame_encode_def Let_def)
  moreover have "xor_bytes (frame_encode f) e = frame_body g @ le32 (crc32c (frame_body g))"
    using frame_encode_decode [OF Inr] by (simp add: frame_encode_def Let_def)
  ultimately have "xor_bytes (frame_body f) (take ?n e) = frame_body g"
    and "xor_bytes ?c (drop ?n e) = le32 (crc32c (frame_body g))"
    using n t by (auto simp: append_eq_append_conv)
  then have "syndrome (take ?n e @ drop ?n e) = 0"
    using n t by (intro codeword_syndrome [of "frame_body f"]) simp_all
  with syndrome_burst [OF assms(2)] show ?thesis by simp
qed simp

lemma truncation_rejected:
  assumes "n < length (frame_encode f)" and "length (payload f) < 2 ^ 32"
  shows "frame_decode (take n (frame_encode f)) =
    (if n < 16 then Inl (TooShort n)
     else Inl (LengthMismatch (word_of_nat (length (payload f))) (n - 16)))"
proof (cases "n < 16")
  case False
  have "slice_of 8 12 (take n (frame_encode f)) = slice_of 8 12 (frame_encode f)"
    using False by (simp add: slice_of_def drop_take min_def)
  with False assms show ?thesis
    by (auto simp: frame_decode_def frame_consts Let_def frame_encode_header unat_of_nat)
qed (use assms in \<open>simp add: frame_decode_def frame_consts\<close>)

section \<open>Properties\<close>

text \<open>C21. The frame codec is exact: \<open>decode\<close> accepts a datagram as a frame if and only if the datagram
  is the encoding of that frame and the payload length fits its 32-bit field.\<close>

theorem frame_codec_exact:
  "frame_decode d = Inr f \<longleftrightarrow> d = frame_encode f \<and> length (payload f) < 2 ^ 32"
  using frame_encode_decode [of d f] frame_decode_encode [of f] by (auto split: if_splits)

text \<open>C22. Every error pattern with an odd number of flipped bits, and every burst of flipped bits at most
  32 bits long, anywhere in an encoded frame, is rejected by \<open>decode\<close>.\<close>

theorem frame_detects_errors:
  assumes "length e = length (frame_encode f)" and "odd (weight e) \<or> burst32 e"
  shows "\<exists>err. frame_decode (xor_bytes (frame_encode f) e) = Inl err"
  using assms odd_weight_error_rejected burst_error_rejected by blast

theorem frame_detects_errors_witness:
  "\<exists>err. frame_decode (xor_bytes (frame_encode \<lparr>frame_type = 0, sequence = 5, flags = 2, payload = [9]\<rparr>)
     (replicate 12 0 @ [0x18] @ replicate 4 0)) = Inl err"
proof -
  let ?e = "replicate 12 0 @ [0x18] @ replicate 4 (0 :: u8)"
  have "bits_of ?e = replicate 99 False @ [True, True] @ replicate 35 False"
    by (simp add: bits_of_def eval_nat_numeral upt_rec)
  then have "burst32 ?e"
    by (auto simp: burst32_def nth_append nth_Cons' intro!: exI [of _ 90] split: if_splits)
  then show ?thesis using frame_detects_errors [of ?e] by simp
qed

text \<open>A frame that loses its tail is always rejected, with the error the lost length determines.\<close>

theorem frame_detects_truncation:
  assumes "n < length (frame_encode f)" and "length (payload f) < 2 ^ 32"
  shows "frame_decode (take n (frame_encode f)) =
    (if n < MIN_FRAME_LEN then Inl (TooShort n)
     else Inl (LengthMismatch (word_of_nat (length (payload f))) (n - MIN_FRAME_LEN)))"
  using truncation_rejected [OF assms] by (simp add: frame_consts)

theorem frame_detects_truncation_witness:
  "frame_decode (take 18 (frame_encode \<lparr>frame_type = 0, sequence = 5, flags = 2, payload = [9, 8, 7]\<rparr>))
     = Inl (LengthMismatch 3 2)"
  using frame_detects_truncation [of 18 "\<lparr>frame_type = 0, sequence = 5, flags = 2, payload = [9, 8, 7]\<rparr>"]
  by (simp add: frame_consts)

end
