(* ===== verification/Fault.thy ===== *)
theory Fault
  imports Rng Frame
begin

text \<open>
  What the hostile channel does to a datagram, \<^verbatim>\<open>crates/channel/src/fault.rs\<close>: the random
  \<open>FaultProfile\<close> with its validation, the deterministic \<open>Script\<close>, the counters, and the named
  profiles of \<^verbatim>\<open>crates/workload/src/profiles.rs\<close>. The last section is the theory of the faults
  themselves: what a flipped bit or a lost tail does to an encoded frame.
\<close>

section \<open>Profiles\<close>

record fault_profile =
  loss :: f64
  duplication :: f64
  reorder_max_delay :: u64
  corruption :: f64
  truncation :: f64
  base_delay :: u64

definition CLEAN :: fault_profile where
  "CLEAN = \<lparr>loss = Fin 0, duplication = Fin 0, reorder_max_delay = 0, corruption = Fin 0,
     truncation = Fin 0, base_delay = 1\<rparr>"

datatype profile_error = LossRange | DuplicationRange | CorruptionRange | TruncationRange

definition in_unit :: "f64 \<Rightarrow> bool" where
  "in_unit p \<longleftrightarrow> f64_le (Fin 0) p \<and> f64_le p (Fin 1)"

definition validate :: "fault_profile \<Rightarrow> profile_error + unit" where
  "validate p =
    (if \<not> in_unit (loss p) then Inl LossRange
     else if \<not> in_unit (duplication p) then Inl DuplicationRange
     else if \<not> in_unit (corruption p) then Inl CorruptionRange
     else if \<not> in_unit (truncation p) then Inl TruncationRange
     else Inr ())"

text \<open>
  The named profiles. A decimal literal of the source denotes the nearest double, written here
  as the fraction it is.
\<close>

definition f64_0_01 :: f64 where "f64_0_01 = Fin (5764607523034235 / 2 ^ 59)"
definition f64_0_02 :: f64 where "f64_0_02 = Fin (5764607523034235 / 2 ^ 58)"
definition f64_0_05 :: f64 where "f64_0_05 = Fin (3602879701896397 / 2 ^ 56)"
definition f64_0_10 :: f64 where "f64_0_10 = Fin (3602879701896397 / 2 ^ 55)"
definition f64_0_25 :: f64 where "f64_0_25 = Fin (1 / 4)"
definition f64_0_6 :: f64 where "f64_0_6 = Fin (5404319552844595 / 2 ^ 53)"

lemmas f64_literals = f64_0_01_def f64_0_02_def f64_0_05_def f64_0_10_def f64_0_25_def f64_0_6_def

definition clean :: fault_profile where "clean = CLEAN"

definition lossy :: fault_profile where
  "lossy = \<lparr>loss = f64_0_10, duplication = f64_0_02, reorder_max_delay = 1, corruption = f64_0_01,
     truncation = f64_0_01, base_delay = 1\<rparr>"

definition high_latency_reordering :: fault_profile where
  "high_latency_reordering = \<lparr>loss = f64_0_02, duplication = f64_0_05, reorder_max_delay = 25,
     corruption = Fin 0, truncation = Fin 0, base_delay = 5\<rparr>"

definition bursty_corruption :: fault_profile where
  "bursty_corruption = \<lparr>loss = f64_0_02, duplication = Fin 0, reorder_max_delay = 0,
     corruption = f64_0_25, truncation = f64_0_05, base_delay = 1\<rparr>"

definition near_partition :: fault_profile where
  "near_partition = \<lparr>loss = f64_0_6, duplication = Fin 0, reorder_max_delay = 2,
     corruption = f64_0_05, truncation = Fin 0, base_delay = 1\<rparr>"

definition all_profiles :: "(string \<times> fault_profile) list" where
  "all_profiles =
    [(''clean'', clean), (''lossy'', lossy),
     (''high_latency_reordering'', high_latency_reordering),
     (''bursty_corruption'', bursty_corruption), (''near_partition'', near_partition)]"

section \<open>Scripts and counters\<close>

datatype scripted_fault =
    Drop
  | Duplicate
  | Delay u64
  | Corrupt nat
  | Truncate nat

type_synonym script = "(u64 \<times> scripted_fault) list"

definition script_new :: script where "script_new = []"

definition script_at :: "script \<Rightarrow> u64 \<Rightarrow> scripted_fault \<Rightarrow> script" where
  "script_at s i f = s @ [(i, f)]"

definition for_index :: "script \<Rightarrow> u64 \<Rightarrow> scripted_fault list" where
  "for_index s i = map snd (filter (\<lambda>(j, _). j = i) s)"

record fault_stats =
  fs_sent :: u64
  fs_delivered :: u64
  fs_dropped :: u64
  fs_duplicated :: u64
  fs_reordered :: u64
  fs_corrupted :: u64
  fs_truncated :: u64

definition fault_stats_default :: fault_stats where
  "fault_stats_default = \<lparr>fs_sent = 0, fs_delivered = 0, fs_dropped = 0, fs_duplicated = 0,
     fs_reordered = 0, fs_corrupted = 0, fs_truncated = 0\<rparr>"

lemma for_index_at: "for_index (script_at s i f) j = for_index s j @ (if i = j then [f] else [])"
  by (simp add: for_index_def script_at_def)

lemma for_index_new [simp]: "for_index script_new i = []"
  by (simp add: for_index_def script_new_def)

lemma for_index_simps:
  "for_index [] i = []"
  "for_index ((j, f) # s) i = (if j = i then f # for_index s i else for_index s i)"
  by (simp_all add: for_index_def)

lemma in_for_index: "f \<in> set (for_index s i) \<longleftrightarrow> (i, f) \<in> set s"
  by (force simp: for_index_def)

lemma validate_iff:
  "validate p = Inr () \<longleftrightarrow>
     in_unit (loss p) \<and> in_unit (duplication p) \<and> in_unit (corruption p) \<and> in_unit (truncation p)"
  by (simp add: validate_def)

lemma in_unit_iff: "in_unit p \<longleftrightarrow> (\<exists>q. p = Fin q \<and> 0 \<le> q \<and> q \<le> 1)"
  by (cases p) (auto simp: in_unit_def)

section \<open>The faults as relations\<close>

definition flips :: "bytes \<Rightarrow> bytes \<Rightarrow> bool" where
  "flips p q \<longleftrightarrow> (\<exists>i < length p. \<exists>b < 8. q = p[i := p ! i XOR push_bit b 1])"

definition truncates :: "bytes \<Rightarrow> bytes \<Rightarrow> bool" where
  "truncates p q \<longleftrightarrow> (\<exists>n < length p. q = take n p)"

definition faulty :: "bytes \<Rightarrow> bytes \<Rightarrow> bool" where
  "faulty p q \<longleftrightarrow> q = p \<or> flips p q \<or> truncates p q \<or> (\<exists>m. flips p m \<and> truncates m q)"

lemma parity_push_bit: "b < 8 \<Longrightarrow> parity (push_bit b 1 :: u8)"
  by (auto simp: eval_nat_numeral less_Suc_eq bit_simps)

lemma flips_weight:
  assumes "flips p q"
  shows "odd (weight q) \<noteq> odd (weight p)"
proof -
  obtain i b where i: "i < length p" and b: "b < 8" and q: "q = p[i := p ! i XOR push_bit b 1]"
    using assms by (auto simp: flips_def)
  have "odd (weight q) = odd (weight (take i p @ (p ! i XOR push_bit b 1) # drop (Suc i) p))"
    using i by (simp add: q upd_conv_take_nth_drop)
  also have "\<dots> = (odd (weight (take i p)) \<noteq> odd (weight ((p ! i XOR push_bit b 1) # drop (Suc i) p)))"
    by simp
  also have "\<dots> = (\<not> (odd (weight (take i p)) \<noteq> odd (weight (p ! i # drop (Suc i) p))))"
    using parity_push_bit [OF b] by (simp only: odd_weight_Cons par_xor) blast
  also have "\<dots> = (\<not> odd (weight (take i p @ p ! i # drop (Suc i) p)))" by simp
  also have "take i p @ p ! i # drop (Suc i) p = p" using i by (rule id_take_nth_drop [symmetric])
  finally show ?thesis by blast
qed

lemma flips_rejected:
  assumes "flips (frame_encode f) d"
  shows "isl (frame_decode d)"
proof (cases "frame_decode d")
  case (Inr g)
  then have "even (weight d)" using frame_encode_decode even_weight_frame_encode by metis
  with flips_weight [OF assms] even_weight_frame_encode show ?thesis by blast
qed simp

lemma truncates_rejected:
  assumes "truncates (frame_encode f) d" and "length (payload f) < 2 ^ 32"
  shows "isl (frame_decode d)"
  using assms truncation_rejected by (auto simp: truncates_def)

text \<open>Only a bit flipped in a datagram that then also loses its tail may go unnoticed.\<close>

definition harmless :: "bytes \<Rightarrow> bytes \<Rightarrow> bool" where
  "harmless p q \<longleftrightarrow> q = p \<or> isl (frame_decode q)"

lemma single_fault_harmless:
  assumes "q = p \<or> flips p q \<or> truncates p q" and "p = frame_encode f"
    and "length (payload f) < 2 ^ 32"
  shows "harmless p q"
  using assms by (auto simp: harmless_def flips_rejected truncates_rejected)

section \<open>Properties\<close>

text \<open>Every named profile of the workload is accepted by \<open>validate\<close>, which accepts exactly the
  profiles whose four probabilities are numbers between 0 and 1; infinities and NaN are rejected.\<close>

theorem named_profiles_valid:
  "list_all (\<lambda>(_, p). validate p = Inr ()) all_profiles
   \<and> (validate q = Inr () \<longleftrightarrow>
        list_all (\<lambda>x. \<exists>r. x = Fin r \<and> 0 \<le> r \<and> r \<le> 1) [loss q, duplication q, corruption q, truncation q])"
proof -
  have "list_all (\<lambda>(_, p). validate p = Inr ()) all_profiles"
    by (simp add: all_profiles_def clean_def CLEAN_def lossy_def high_latency_reordering_def
        bursty_corruption_def near_partition_def f64_literals validate_iff in_unit_def)
  then show ?thesis by (simp add: validate_iff in_unit_iff)
qed

end
