(* ===== verification/Tick.thy ===== *)
theory Tick
  imports Prelude
begin

text \<open>
  Virtual time, \<^verbatim>\<open>crates/channel/src/tick.rs\<close>: a wrapped \<open>u64\<close> with a saturating successor and
  a saturating difference, ordered by value (the derived \<open>Ord\<close>).
\<close>

datatype tick = Tick (ticks: u64)

definition ZERO :: tick where
  "ZERO = Tick 0"

definition tick_advance :: "tick \<Rightarrow> u64 \<Rightarrow> tick" where
  "tick_advance t by = Tick (sat_add (ticks t) by)"

definition tick_sub :: "tick \<Rightarrow> tick \<Rightarrow> u64" where
  "tick_sub t rhs = sat_sub (ticks t) (ticks rhs)"

instantiation tick :: linorder
begin

definition less_eq_tick :: "tick \<Rightarrow> tick \<Rightarrow> bool" where
  "s \<le> t \<longleftrightarrow> ticks s \<le> ticks t"

definition less_tick :: "tick \<Rightarrow> tick \<Rightarrow> bool" where
  "s < t \<longleftrightarrow> ticks s < ticks t"

instance
  by standard (auto simp: less_eq_tick_def less_tick_def intro: tick.expand)

end

lemma Tick_le [simp]: "Tick a \<le> Tick b \<longleftrightarrow> a \<le> b"
  by (simp add: less_eq_tick_def)

lemma Tick_less [simp]: "Tick a < Tick b \<longleftrightarrow> a < b"
  by (simp add: less_tick_def)

lemma tick_advance_ge: "t \<le> tick_advance t by"
  by (simp add: less_eq_tick_def tick_advance_def sat_add_ge)

lemma tick_advance_sub:
  assumes "unat (ticks t) + unat by < 2 ^ 64"
  shows "tick_sub (tick_advance t by) t = by"
proof -
  have "unat (sat_sub (sat_add (ticks t) by) (ticks t)) = unat by"
    using assms by (simp add: unat_sat_sub unat_sat_add)
  then show ?thesis by (simp add: tick_sub_def tick_advance_def word_unat_eq_iff)
qed

lemma tick_sub_eq_0 [simp]: "s \<le> t \<Longrightarrow> tick_sub s t = 0"
  by (simp add: tick_sub_def less_eq_tick_def)

end
