(* ===== verification/Channel.thy ===== *)
theory Channel
  imports Fault Tick "HOL-Library.Monad_Syntax" "HOL-Library.Multiset" "HOL-Library.Product_Lexorder"
begin

text \<open>
  One direction of the hostile link, \<^verbatim>\<open>crates/channel/src/lib.rs\<close>. A call that panics is \<open>None\<close>:
  an invalid profile, \<open>below(0)\<close>, an index out of bounds. The binary heap of the source is a
  priority queue with the contract of the locale \<open>min_queue\<close>, provided by an ascending list.
\<close>

section \<open>The heap\<close>

locale min_queue =
  fixes empty :: 'q and push :: "'a::linorder \<Rightarrow> 'q \<Rightarrow> 'q" and peek :: "'q \<Rightarrow> 'a option"
    and pop :: "'q \<Rightarrow> 'q" and items :: "'q \<Rightarrow> 'a multiset" and invar :: "'q \<Rightarrow> bool"
  assumes items_empty: "items empty = {#}"
    and invar_empty: "invar empty"
    and items_push: "items (push x q) = add_mset x (items q)"
    and invar_push: "invar q \<Longrightarrow> invar (push x q)"
    and peek_None_iff: "peek q = None \<longleftrightarrow> items q = {#}"
    and peek_least: "invar q \<Longrightarrow> peek q = Some x \<Longrightarrow> x \<in># items q \<and> (\<forall>y \<in># items q. x \<le> y)"
    and items_pop: "peek q = Some x \<Longrightarrow> items q = add_mset x (items (pop q))"
    and invar_pop: "invar q \<Longrightarrow> invar (pop q)"
begin

lemma peek_push:
  assumes "invar q"
  shows "peek (push x q) = Some (case peek q of None \<Rightarrow> x | Some y \<Rightarrow> min x y)"
proof -
  obtain z where z: "peek (push x q) = Some z"
    using peek_None_iff [of "push x q"] by (cases "peek (push x q)") (auto simp: items_push)
  have least: "z \<in># add_mset x (items q)" "\<forall>y \<in># add_mset x (items q). z \<le> y"
    using peek_least [OF invar_push [OF assms] z] by (simp_all add: items_push)
  show ?thesis
  proof (cases "peek q")
    case None
    then show ?thesis using least z peek_None_iff [of q] by simp
  next
    case (Some y)
    have "y \<in># items q" "\<forall>w \<in># items q. y \<le> w" using peek_least [OF assms Some] by auto
    then have "z = min x y" using least by (auto simp: min_def intro: antisym)
    with z Some show ?thesis by simp
  qed
qed

lemma pop_ge: "invar q \<Longrightarrow> peek q = Some x \<Longrightarrow> y \<in># items (pop q) \<Longrightarrow> x \<le> y"
  using peek_least items_pop by fastforce

lemma size_pop: "peek q = Some x \<Longrightarrow> size (items q) = Suc (size (items (pop q)))"
  by (simp add: items_pop)

end

type_synonym heap_key = "tick \<times> u64 \<times> nat"
type_synonym heap = "heap_key list"

definition heap_push :: "heap_key \<Rightarrow> heap \<Rightarrow> heap" where
  "heap_push x h = insort x h"

definition heap_peek :: "heap \<Rightarrow> heap_key option" where
  "heap_peek h = (case h of [] \<Rightarrow> None | x # _ \<Rightarrow> Some x)"

definition heap_pop :: "heap \<Rightarrow> heap" where
  "heap_pop h = (case h of [] \<Rightarrow> [] | _ # xs \<Rightarrow> xs)"

interpretation heap: min_queue "[]" heap_push heap_peek heap_pop mset sorted
  by unfold_locales
    (auto simp: heap_push_def heap_peek_def heap_pop_def sorted_insort split: list.splits)

section \<open>The channel\<close>

record in_flight =
  fl_arrives :: tick
  fl_seq :: u64
  fl_payload :: bytes

record channel =
  ch_profile :: fault_profile
  ch_script :: script
  ch_rng :: u64
  ch_now :: tick
  ch_in_flight :: heap
  ch_payloads :: "bytes list"
  ch_next_datagram_index :: u64
  ch_stats :: fault_stats

definition with_script :: "u64 \<Rightarrow> fault_profile \<Rightarrow> script \<Rightarrow> channel option" where
  "with_script seed profile script =
    (case validate profile of
       Inl _ \<Rightarrow> None
     | Inr _ \<Rightarrow> Some \<lparr>ch_profile = profile, ch_script = script, ch_rng = seed, ch_now = ZERO,
         ch_in_flight = [], ch_payloads = [], ch_next_datagram_index = 0,
         ch_stats = fault_stats_default\<rparr>)"

definition channel_new :: "u64 \<Rightarrow> fault_profile \<Rightarrow> channel option" where
  "channel_new seed profile = with_script seed profile script_new"

text \<open>The three \<open>find_map\<close> searches of \<open>emit_one\<close>.\<close>

fun find_delay :: "scripted_fault list \<Rightarrow> u64 option" where
  "find_delay [] = None"
| "find_delay (Delay d # _) = Some d"
| "find_delay (_ # rs) = find_delay rs"

fun find_corrupt :: "scripted_fault list \<Rightarrow> nat option" where
  "find_corrupt [] = None"
| "find_corrupt (Corrupt byte_offset # _) = Some byte_offset"
| "find_corrupt (_ # rs) = find_corrupt rs"

fun find_truncate :: "scripted_fault list \<Rightarrow> nat option" where
  "find_truncate [] = None"
| "find_truncate (Truncate to_len # _) = Some to_len"
| "find_truncate (_ # rs) = find_truncate rs"

text \<open>Draws on the channel's generator.\<close>

definition ch_chance :: "f64 \<Rightarrow> channel \<Rightarrow> bool \<times> channel" where
  "ch_chance p c = (case chance p (ch_rng c) of (b, s) \<Rightarrow> (b, c\<lparr>ch_rng := s\<rparr>))"

definition ch_below :: "u64 \<Rightarrow> channel \<Rightarrow> (u64 \<times> channel) option" where
  "ch_below n c = map_option (\<lambda>(x, s). (x, c\<lparr>ch_rng := s\<rparr>)) (below n (ch_rng c))"

definition upd_stats :: "(fault_stats \<Rightarrow> fault_stats) \<Rightarrow> channel \<Rightarrow> channel" where
  "upd_stats f c = c\<lparr>ch_stats := f (ch_stats c)\<rparr>"

text \<open>The three stages of \<open>emit_one\<close>: delay, corruption, truncation.\<close>

definition emit_delay :: "scripted_fault list \<Rightarrow> channel \<Rightarrow> (u64 \<times> channel) option" where
  "emit_delay rules c = do {
     (extra_delay, c) \<leftarrow>
       (case find_delay rules of
          Some d \<Rightarrow> Some (d, c)
        | None \<Rightarrow>
           if 0 < reorder_max_delay (ch_profile c)
           then ch_below (reorder_max_delay (ch_profile c) + 1) c
           else Some (0, c));
     Some (extra_delay,
       if 0 < extra_delay then upd_stats (\<lambda>s. s\<lparr>fs_reordered := fs_reordered s + 1\<rparr>) c else c)
   }"

definition corrupt_offset :: "nat option \<Rightarrow> bytes \<Rightarrow> channel \<Rightarrow> (nat \<times> channel) option" where
  "corrupt_offset scripted bytes c =
    (case scripted of
       Some byte_offset \<Rightarrow> Some (byte_offset, c)
     | None \<Rightarrow> map_option (\<lambda>(x, c). (unat x, c)) (ch_below (word_of_nat (length bytes)) c))"

definition truncate_len :: "nat option \<Rightarrow> bytes \<Rightarrow> channel \<Rightarrow> (nat \<times> channel) option" where
  "truncate_len scripted bytes c =
    (case scripted of
       Some to_len \<Rightarrow> Some (to_len, c)
     | None \<Rightarrow>
        if bytes = [] then Some (0, c)
        else map_option (\<lambda>(x, c). (unat x, c)) (ch_below (word_of_nat (length bytes)) c))"

definition emit_corrupt :: "bytes \<Rightarrow> scripted_fault list \<Rightarrow> channel \<Rightarrow> (bytes \<times> channel) option" where
  "emit_corrupt bytes rules c =
    (let scripted = find_corrupt rules;
         (should_corrupt, c) =
           (if scripted \<noteq> None then (True, c) else ch_chance (corruption (ch_profile c)) c)
     in if should_corrupt \<and> bytes \<noteq> []
        then do {
          (drawn, c) \<leftarrow> corrupt_offset scripted bytes c;
          let offset = drawn mod length bytes;
          (bt, c) \<leftarrow> ch_below 8 c;
          Some (bytes[offset := bytes ! offset XOR push_bit (unat (ucast bt :: u8)) 1],
                upd_stats (\<lambda>s. s\<lparr>fs_corrupted := fs_corrupted s + 1\<rparr>) c)
        }
        else Some (bytes, c))"

definition emit_truncate :: "bytes \<Rightarrow> scripted_fault list \<Rightarrow> channel \<Rightarrow> (bytes \<times> channel) option" where
  "emit_truncate bytes rules c =
    (let scripted = find_truncate rules;
         (should_trunc, c) =
           (if scripted \<noteq> None then (True, c) else ch_chance (truncation (ch_profile c)) c)
     in if should_trunc
        then do {
          (drawn, c) \<leftarrow> truncate_len scripted bytes c;
          let to_len = min drawn (length bytes);
          if to_len < length bytes
          then Some (take to_len bytes, upd_stats (\<lambda>s. s\<lparr>fs_truncated := fs_truncated s + 1\<rparr>) c)
          else Some (bytes, c)
        }
        else Some (bytes, c))"

definition emit_one :: "bytes \<Rightarrow> scripted_fault list \<Rightarrow> channel \<Rightarrow> (in_flight \<times> channel) option" where
  "emit_one data rules c = do {
     (extra_delay, c) \<leftarrow> emit_delay rules c;
     (bytes, c) \<leftarrow> emit_corrupt data rules c;
     (bytes, c) \<leftarrow> emit_truncate bytes rules c;
     Some (\<lparr>fl_arrives = tick_advance (ch_now c) (base_delay (ch_profile c) + extra_delay),
            fl_seq = 0, fl_payload = bytes\<rparr>, c)
   }"

definition enqueue :: "in_flight \<Rightarrow> channel \<Rightarrow> channel" where
  "enqueue datagram c =
    (let sq = word_of_nat (length (ch_payloads c));
         datagram = datagram\<lparr>fl_seq := sq\<rparr>;
         slot = length (ch_payloads c)
     in c\<lparr>ch_payloads := ch_payloads c @ [fl_payload datagram],
          ch_in_flight := heap_push (fl_arrives datagram, sq, slot) (ch_in_flight c)\<rparr>)"

text \<open>A datagram that is not dropped: one copy, and a second one when it is duplicated.\<close>

definition send_copies :: "bytes \<Rightarrow> scripted_fault list \<Rightarrow> channel \<Rightarrow> channel option" where
  "send_copies data rules c = do {
     (base, c) \<leftarrow> emit_one data rules c;
     let c = enqueue base c;
     let (dup, c) =
       (if Duplicate \<in> set rules then (True, c) else ch_chance (duplication (ch_profile c)) c);
     if dup
     then do {
       let c = upd_stats (\<lambda>s. s\<lparr>fs_duplicated := fs_duplicated s + 1\<rparr>) c;
       (dup, c) \<leftarrow> emit_one data rules c;
       Some (enqueue dup c)
     }
     else Some c
   }"

definition channel_send :: "bytes \<Rightarrow> channel \<Rightarrow> channel option" where
  "channel_send data c =
    (let index = ch_next_datagram_index c;
         c = upd_stats (\<lambda>s. s\<lparr>fs_sent := fs_sent s + 1\<rparr>) (c\<lparr>ch_next_datagram_index := index + 1\<rparr>);
         rules = for_index (ch_script c) index;
         (dropped, c) =
           (if Drop \<in> set rules then (True, c) else ch_chance (loss (ch_profile c)) c)
     in if dropped then Some (upd_stats (\<lambda>s. s\<lparr>fs_dropped := fs_dropped s + 1\<rparr>) c)
        else send_copies data rules c)"

text \<open>The \<open>while let\<close> of \<open>deliver_ready\<close>; \<open>mem::take\<close> leaves an empty vector behind.\<close>

function deliver_loop :: "channel \<Rightarrow> bytes list \<Rightarrow> (bytes list \<times> channel) option" where
  "deliver_loop c ready =
    (case heap_peek (ch_in_flight c) of
       None \<Rightarrow> Some (ready, c)
     | Some (arrives, sq, slot) \<Rightarrow>
        if ch_now c < arrives then Some (ready, c)
        else if slot < length (ch_payloads c)
        then deliver_loop
          (c\<lparr>ch_in_flight := heap_pop (ch_in_flight c), ch_payloads := (ch_payloads c)[slot := []],
             ch_stats := (ch_stats c)\<lparr>fs_delivered := fs_delivered (ch_stats c) + 1\<rparr>\<rparr>)
          (ready @ [ch_payloads c ! slot])
        else None)"
  by pat_completeness auto
termination
  by (relation "measure (\<lambda>(c, _). length (ch_in_flight c))")
    (auto simp: heap_peek_def heap_pop_def split: list.splits)

declare deliver_loop.simps [simp del]

definition deliver_ready :: "channel \<Rightarrow> (bytes list \<times> channel) option" where
  "deliver_ready c = deliver_loop c []"

definition channel_advance :: "tick \<Rightarrow> channel \<Rightarrow> (bytes list \<times> channel) option" where
  "channel_advance to c = deliver_ready (if ch_now c < to then c\<lparr>ch_now := to\<rparr> else c)"

definition next_arrival :: "channel \<Rightarrow> tick option" where
  "next_arrival c = map_option fst (heap_peek (ch_in_flight c))"

section \<open>What one emission does\<close>

text \<open>The parts of the channel that emission leaves alone.\<close>

definition fixed :: "channel \<Rightarrow> fault_profile \<times> script \<times> tick \<times> heap \<times> bytes list \<times> u64
    \<times> u64 \<times> u64 \<times> u64 \<times> u64" where
  "fixed c = (ch_profile c, ch_script c, ch_now c, ch_in_flight c, ch_payloads c,
     ch_next_datagram_index c, fs_sent (ch_stats c), fs_delivered (ch_stats c),
     fs_dropped (ch_stats c), fs_duplicated (ch_stats c))"

lemma fixed_draw:
  "fixed (snd (ch_chance p c)) = fixed c" "ch_below n c = Some (x, c') \<Longrightarrow> fixed c' = fixed c"
  by (auto simp: fixed_def ch_chance_def ch_below_def split: prod.split)

lemma ch_below_range: "ch_below n c = Some (x, c') \<Longrightarrow> unat x < unat n"
  by (auto simp: ch_below_def dest: channel_rng.draw_range)

lemma ch_below_total: "n \<noteq> 0 \<Longrightarrow> \<exists>x c'. ch_below n c = Some (x, c')"
  using channel_rng.draw_None_iff [of n "ch_rng c"] by (auto simp: ch_below_def unat_eq_0)

lemma emit_delay_fixed: "emit_delay rules c = Some (d, c') \<Longrightarrow> fixed c' = fixed c"
  by (auto simp: emit_delay_def upd_stats_def fixed_def ch_below_def
      split: option.splits if_splits bind_splits)

lemma fixed_draw_len:
  "corrupt_offset sc bs c = Some (n, c') \<Longrightarrow> fixed c' = fixed c"
  "truncate_len sc bs c = Some (n, c') \<Longrightarrow> fixed c' = fixed c"
  by (auto simp: corrupt_offset_def truncate_len_def fixed_draw split: option.splits if_splits)

lemma flips_update:
  fixes x :: u64
  assumes "bs \<noteq> []" and "unat x < 8"
  shows "flips bs (bs[n mod length bs := bs ! (n mod length bs) XOR push_bit (unat (ucast x :: u8)) 1])"
proof -
  have "n mod length bs < length bs" using assms(1) by simp
  moreover have "unat (ucast x :: u8) < 8"
    using assms(2) by (simp add: unsigned_ucast_eq take_bit_nat_eq_self)
  ultimately show ?thesis unfolding flips_def by blast
qed

lemma emit_corrupt_result:
  assumes "emit_corrupt bs rules c = Some (bs', c')"
  shows "fixed c' = fixed c" and "bs' = bs \<or> flips bs bs'"
    and "corruption (ch_profile c) = Fin 0 \<Longrightarrow> find_corrupt rules = None \<Longrightarrow> bs' = bs"
proof -
  define r where "r = (if find_corrupt rules \<noteq> None then (True, c) else ch_chance (corruption (ch_profile c)) c)"
  obtain should c1 where r: "r = (should, c1)" by fastforce
  have c1: "fixed c1 = fixed c"
    using r fixed_draw(1) [of "corruption (ch_profile c)" c] by (auto simp: r_def split: if_splits)
  have never: "\<not> should" if "corruption (ch_profile c) = Fin 0" "find_corrupt rules = None"
    using that r chance_never [of "ch_rng c"] by (auto simp: r_def ch_chance_def split: prod.splits)
  note E = assms [unfolded emit_corrupt_def Let_def, folded r_def, unfolded r, simplified]
  show "bs' = bs" if "corruption (ch_profile c) = Fin 0" "find_corrupt rules = None"
    using E never [OF that] by simp
  have "fixed c' = fixed c \<and> (bs' = bs \<or> flips bs bs')"
  proof (cases "should \<and> bs \<noteq> []")
    case True
    then obtain n c2 x c3 where d: "corrupt_offset (find_corrupt rules) bs c1 = Some (n, c2)" "ch_below 8 c2 = Some (x, c3)"
      "bs' = bs[n mod length bs := bs ! (n mod length bs) XOR push_bit (unat (ucast x :: u8)) 1]"
      "c' = upd_stats (\<lambda>s. s\<lparr>fs_corrupted := fs_corrupted s + 1\<rparr>) c3"
      using E by (auto split: bind_splits)
    have "fixed c' = fixed c"
      using d(4) c1 fixed_draw_len(1) [OF d(1)] fixed_draw(2) [OF d(2)] by (simp add: upd_stats_def fixed_def)
    moreover have "flips bs bs'"
      using True ch_below_range [OF d(2)] unfolding d(3) by (intro flips_update) auto
    ultimately show ?thesis by simp
  qed (use E c1 in auto)
  then show "fixed c' = fixed c" "bs' = bs \<or> flips bs bs'" by auto
qed

lemma emit_truncate_result:
  assumes "emit_truncate bs rules c = Some (bs', c')"
  shows "fixed c' = fixed c" and "bs' = bs \<or> truncates bs bs'"
    and "truncation (ch_profile c) = Fin 0 \<Longrightarrow> find_truncate rules = None \<Longrightarrow> bs' = bs"
proof -
  define r where "r = (if find_truncate rules \<noteq> None then (True, c) else ch_chance (truncation (ch_profile c)) c)"
  obtain should c1 where r: "r = (should, c1)" by fastforce
  have c1: "fixed c1 = fixed c"
    using r fixed_draw(1) [of "truncation (ch_profile c)" c] by (auto simp: r_def split: if_splits)
  have never: "\<not> should" if "truncation (ch_profile c) = Fin 0" "find_truncate rules = None"
    using that r chance_never [of "ch_rng c"] by (auto simp: r_def ch_chance_def split: prod.splits)
  note E = assms [unfolded emit_truncate_def Let_def, folded r_def, unfolded r, simplified]
  show "bs' = bs" if "truncation (ch_profile c) = Fin 0" "find_truncate rules = None"
    using E never [OF that] by simp
  have "fixed c' = fixed c \<and> (bs' = bs \<or> truncates bs bs')"
  proof (cases should)
    case True
    then obtain n c2 where d: "truncate_len (find_truncate rules) bs c1 = Some (n, c2)" "n < length bs \<longrightarrow> bs' = take n bs"
      "\<not> n < length bs \<longrightarrow> bs' = bs"
      "c' = (if n < length bs then upd_stats (\<lambda>s. s\<lparr>fs_truncated := fs_truncated s + 1\<rparr>) c2 else c2)"
      using E by (auto split: bind_splits if_splits)
    have "fixed c' = fixed c" using d(4) c1 fixed_draw_len(2) [OF d(1)] by (simp add: upd_stats_def fixed_def)
    moreover have "bs' = bs \<or> truncates bs bs'" using d(2,3) by (auto simp: truncates_def)
    ultimately show ?thesis by simp
  qed (use E c1 in auto)
  then show "fixed c' = fixed c" "bs' = bs \<or> truncates bs bs'" by auto
qed

text \<open>
  What an emission may turn a payload into. Two faults compound only when both corruption and
  truncation are possible, by the profile or by the script.
\<close>

definition single_fault :: "channel \<Rightarrow> bool" where
  "single_fault c \<longleftrightarrow>
     corruption (ch_profile c) = Fin 0 \<and> (\<forall>(_, f) \<in> set (ch_script c). \<forall>k. f \<noteq> Corrupt k)
   \<or> truncation (ch_profile c) = Fin 0 \<and> (\<forall>(_, f) \<in> set (ch_script c). \<forall>k. f \<noteq> Truncate k)"

definition may_emit :: "channel \<Rightarrow> bytes \<Rightarrow> bytes \<Rightarrow> bool" where
  "may_emit c p q \<longleftrightarrow> faulty p q \<and> (single_fault c \<longrightarrow> q = p \<or> flips p q \<or> truncates p q)"

lemma find_corrupt_None: "\<forall>k. Corrupt k \<notin> set rules \<Longrightarrow> find_corrupt rules = None"
  by (induction rules rule: find_corrupt.induct) auto

lemma find_truncate_None: "\<forall>k. Truncate k \<notin> set rules \<Longrightarrow> find_truncate rules = None"
  by (induction rules rule: find_truncate.induct) auto

lemma emit_one_result:
  assumes "emit_one data rules c = Some (d, c')" and "set rules \<subseteq> snd ` set (ch_script c)"
  shows "fixed c' = fixed c" and "may_emit c data (fl_payload d)"
    and "\<exists>extra. fl_arrives d = tick_advance (ch_now c) (base_delay (ch_profile c) + extra)"
proof -
  obtain x c1 b1 c2 b2 where s: "emit_delay rules c = Some (x, c1)"
    "emit_corrupt data rules c1 = Some (b1, c2)" "emit_truncate b1 rules c2 = Some (b2, c')"
    "d = \<lparr>fl_arrives = tick_advance (ch_now c') (base_delay (ch_profile c') + x), fl_seq = 0,
      fl_payload = b2\<rparr>"
    using assms(1) by (auto simp: emit_one_def split: bind_splits)
  note f1 = emit_delay_fixed [OF s(1)] and C = emit_corrupt_result [OF s(2)]
    and T = emit_truncate_result [OF s(3)]
  show fixed: "fixed c' = fixed c" using f1 C(1) T(1) by simp
  show "\<exists>extra. fl_arrives d = tick_advance (ch_now c) (base_delay (ch_profile c) + extra)"
    using s(4) fixed by (auto simp: fixed_def)
  have prof: "ch_profile c1 = ch_profile c" "ch_profile c2 = ch_profile c"
    using f1 C(1) by (simp_all add: fixed_def)
  have nc: "find_corrupt rules = None" if "\<forall>(_, f) \<in> set (ch_script c). \<forall>k. f \<noteq> Corrupt k"
    using that assms(2) by (intro find_corrupt_None) fastforce
  have nt: "find_truncate rules = None" if "\<forall>(_, f) \<in> set (ch_script c). \<forall>k. f \<noteq> Truncate k"
    using that assms(2) by (intro find_truncate_None) fastforce
  have "b1 = data \<or> b2 = b1" if "single_fault c"
    using that nc nt C(3) T(3) unfolding single_fault_def prof by blast
  then show "may_emit c data (fl_payload d)"
    using C(2) T(2) s(4) by (auto simp: may_emit_def faulty_def)
qed

section \<open>The invariant of the channel\<close>

text \<open>\<open>L\<close> is the set of payloads handed to \<open>send\<close> so far.\<close>

definition entry_ok :: "bytes set \<Rightarrow> channel \<Rightarrow> heap_key \<Rightarrow> bool" where
  "entry_ok L c k = (case k of (t, s, i) \<Rightarrow>
     i < length (ch_payloads c) \<and> s = word_of_nat i \<and> (\<exists>p \<in> L. may_emit c p (ch_payloads c ! i)))"

definition chan_wf :: "bytes set \<Rightarrow> channel \<Rightarrow> bool" where
  "chan_wf L c \<longleftrightarrow>
     sorted (ch_in_flight c) \<and> distinct (map (snd \<circ> snd) (ch_in_flight c))
     \<and> (\<forall>k \<in> set (ch_in_flight c). entry_ok L c k)"

definition balance :: "channel \<Rightarrow> u64" where
  "balance c = fs_sent (ch_stats c) + fs_duplicated (ch_stats c) - fs_delivered (ch_stats c)
     - fs_dropped (ch_stats c) - word_of_nat (length (ch_in_flight c))"

definition chan_inv :: "bytes set \<Rightarrow> channel \<Rightarrow> bool" where
  "chan_inv L c \<longleftrightarrow> chan_wf L c \<and> balance c = 0"

lemma chan_inv_init: "with_script seed p s = Some c \<Longrightarrow> chan_inv {} c"
  by (auto simp: with_script_def chan_inv_def chan_wf_def balance_def fault_stats_default_def
      split: sum.splits)

lemma chan_wf_fixed: "fixed c' = fixed c \<Longrightarrow> chan_wf L c' = chan_wf L c \<and> balance c' = balance c"
  by (simp add: chan_wf_def entry_ok_def may_emit_def single_fault_def fixed_def balance_def)

lemma chan_wf_mono: "chan_wf L c \<Longrightarrow> L \<subseteq> L' \<Longrightarrow> chan_wf L' c"
  unfolding chan_wf_def entry_ok_def by fastforce

lemma set_heap_push [simp]: "set (heap_push x h) = insert x (set h)"
  by (simp add: heap_push_def set_insort_key)

lemma length_heap_push [simp]: "length (heap_push x h) = Suc (length h)"
  by (simp add: heap_push_def)

lemma distinct_heap_push: "distinct (map f (heap_push x h)) \<longleftrightarrow> f x \<notin> f ` set h \<and> distinct (map f h)"
proof -
  have "mset (map f (heap_push x h)) = mset (map f (x # h))" by (simp add: heap_push_def)
  then have "distinct (map f (heap_push x h)) = distinct (map f (x # h))"
    by (rule mset_eq_imp_distinct_iff)
  then show ?thesis by simp
qed

lemma enqueue_ok:
  assumes "chan_wf L c" and "p \<in> L" and "may_emit c p (fl_payload d)"
  shows "chan_wf L (enqueue d c)" and "balance (enqueue d c) = balance c - 1"
proof -
  have me: "may_emit (enqueue d c) = may_emit c"
    by (simp add: fun_eq_iff may_emit_def single_fault_def enqueue_def Let_def)
  have "\<forall>k \<in> set (ch_in_flight c). entry_ok L (enqueue d c) k"
    using assms(1) unfolding chan_wf_def entry_ok_def me
    by (auto simp: enqueue_def Let_def nth_append)
  moreover have "entry_ok L (enqueue d c)
      (fl_arrives d, word_of_nat (length (ch_payloads c)), length (ch_payloads c))"
    using assms(2,3) unfolding entry_ok_def me by (auto simp: enqueue_def Let_def)
  moreover have "length (ch_payloads c) \<notin> (snd \<circ> snd) ` set (ch_in_flight c)"
    using assms(1) by (fastforce simp: chan_wf_def entry_ok_def)
  ultimately show "chan_wf L (enqueue d c)"
    using assms(1) heap.invar_push
    by (simp add: chan_wf_def) (simp add: enqueue_def Let_def distinct_heap_push)
  show "balance (enqueue d c) = balance c - 1"
    by (simp add: balance_def enqueue_def Let_def)
qed

text \<open>The environment of a channel that no operation changes.\<close>

definition same_env :: "channel \<Rightarrow> channel \<Rightarrow> bool" where
  "same_env c c' \<longleftrightarrow> ch_profile c' = ch_profile c \<and> ch_script c' = ch_script c"

lemma fixed_env: "fixed c' = fixed c \<Longrightarrow> same_env c c' \<and> ch_now c' = ch_now c"
  by (simp add: fixed_def same_env_def)

lemma same_env_emit: "same_env c c' \<Longrightarrow> may_emit c' = may_emit c"
  by (simp add: fun_eq_iff may_emit_def single_fault_def same_env_def)

lemma emit_enqueue_ok:
  assumes "chan_wf L c" and "p \<in> L" and "emit_one p rules c = Some (d, c')"
    and "set rules \<subseteq> snd ` set (ch_script c)"
  shows "chan_wf L (enqueue d c')" and "balance (enqueue d c') = balance c - 1"
    and "same_env c (enqueue d c')" and "ch_now (enqueue d c') = ch_now c"
proof -
  note E = emit_one_result [OF assms(3,4)]
  have "chan_wf L c'" "balance c' = balance c" using chan_wf_fixed [OF E(1)] assms(1) by auto
  moreover have "may_emit c' p (fl_payload d)"
    using E(2) same_env_emit fixed_env [OF E(1)] by metis
  ultimately show "chan_wf L (enqueue d c')" "balance (enqueue d c') = balance c - 1"
    using enqueue_ok assms(2) by auto
  show "same_env c (enqueue d c')" "ch_now (enqueue d c') = ch_now c"
    using fixed_env [OF E(1)] by (simp_all add: same_env_def enqueue_def Let_def)
qed

lemma ch_flip:
  assumes "(if b then (True, c) else ch_chance p c) = (r, c')"
  shows "fixed c' = fixed c"
  using assms fixed_draw(1) [of p c] by (auto split: if_splits)

lemma chan_wf_stats:
  "chan_wf L (upd_stats f c) = chan_wf L c" "same_env x (upd_stats f c) = same_env x c" "ch_now (upd_stats f c) = ch_now c"
  "ch_script (upd_stats f c) = ch_script c"
  by (simp_all add: upd_stats_def chan_wf_def entry_ok_def may_emit_def single_fault_def same_env_def)

lemma balance_stats:
  "balance (upd_stats (\<lambda>s. s\<lparr>fs_sent := fs_sent s + 1\<rparr>) c) = balance c + 1"
  "balance (upd_stats (\<lambda>s. s\<lparr>fs_duplicated := fs_duplicated s + 1\<rparr>) c) = balance c + 1"
  "balance (upd_stats (\<lambda>s. s\<lparr>fs_dropped := fs_dropped s + 1\<rparr>) c) = balance c - 1"
  by (simp_all add: balance_def upd_stats_def)

lemma same_env_trans: "same_env a b \<Longrightarrow> same_env b c \<Longrightarrow> same_env a c"
  by (simp add: same_env_def)

lemma send_copies_ok:
  assumes wf: "chan_wf L c" and p: "p \<in> L" and send: "send_copies p rules c = Some c'"
    and rules: "set rules \<subseteq> snd ` set (ch_script c)"
  shows "chan_wf L c' \<and> balance c' = balance c - 1 \<and> same_env c c' \<and> ch_now c' = ch_now c"
proof -
  obtain d1 c1 where e1: "emit_one p rules c = Some (d1, c1)"
    using send by (auto simp: send_copies_def split: bind_splits)
  note E1 = emit_enqueue_ok [OF wf p e1 rules]
  obtain dup c2 where f: "(if Duplicate \<in> set rules then (True, enqueue d1 c1)
      else ch_chance (duplication (ch_profile (enqueue d1 c1))) (enqueue d1 c1)) = (dup, c2)"
    by fastforce
  have c2: "chan_wf L c2" "balance c2 = balance c - 1" "same_env c c2" "ch_now c2 = ch_now c"
    using E1 chan_wf_fixed [OF ch_flip [OF f]] fixed_env [OF ch_flip [OF f]] by (auto simp: same_env_def)
  define c3 where "c3 = upd_stats (\<lambda>s. s\<lparr>fs_duplicated := fs_duplicated s + 1\<rparr>) c2"
  note S = send [unfolded send_copies_def e1 Let_def bind.bind_lunit prod.case f, folded c3_def]
  show ?thesis
  proof (cases dup)
    case True
    then obtain d2 c4 where e2: "emit_one p rules c3 = Some (d2, c4)" and c': "c' = enqueue d2 c4"
      using S by (auto split: bind_splits)
    have c3: "chan_wf L c3" "balance c3 = balance c" "same_env c c3" "ch_now c3 = ch_now c"
      using c2 by (simp_all add: c3_def chan_wf_stats balance_stats)
    have r3: "set rules \<subseteq> snd ` set (ch_script c3)" using rules c3(3) by (simp add: same_env_def)
    show ?thesis
      using emit_enqueue_ok [OF c3(1) p e2 r3] c3 by (auto simp: c' same_env_def)
  next
    case False
    then show ?thesis using S c2 by simp
  qed
qed

lemma channel_send_ok:
  assumes inv: "chan_inv L c" and send: "channel_send data c = Some c'"
  shows "chan_inv (insert data L) c'" and "same_env c c'" and "ch_now c' = ch_now c"
proof -
  define c1 where "c1 = upd_stats (\<lambda>s. s\<lparr>fs_sent := fs_sent s + 1\<rparr>)
    (c\<lparr>ch_next_datagram_index := ch_next_datagram_index c + 1\<rparr>)"
  define rules where "rules = for_index (ch_script c1) (ch_next_datagram_index c)"
  obtain dropped c2 where d: "(if Drop \<in> set rules then (True, c1) else ch_chance (loss (ch_profile c1)) c1)
      = (dropped, c2)" by fastforce
  have "chan_wf (insert data L) c" "balance c = 0"
    using inv chan_wf_mono [of L c "insert data L"] by (auto simp: chan_inv_def)
  then have c1: "chan_wf (insert data L) c1" "balance c1 = 1" "same_env c c1" "ch_now c1 = ch_now c"
    by (simp_all add: c1_def chan_wf_stats balance_stats)
      (simp_all add: upd_stats_def chan_wf_def entry_ok_def may_emit_def single_fault_def
        balance_def same_env_def)
  have c2: "chan_wf (insert data L) c2" "balance c2 = 1" "same_env c c2" "ch_now c2 = ch_now c"
    using chan_wf_fixed [OF ch_flip [OF d]] fixed_env [OF ch_flip [OF d]] c1
    by (auto simp: same_env_def)
  have rules: "set rules \<subseteq> snd ` set (ch_script c2)"
    using c1(3) c2(3) by (auto simp: rules_def for_index_def same_env_def)
  have S: "(if dropped then Some (upd_stats (\<lambda>s. s\<lparr>fs_dropped := fs_dropped s + 1\<rparr>) c2)
      else send_copies data rules c2) = Some c'"
    using send unfolding channel_send_def Let_def c1_def [symmetric] rules_def [symmetric] d prod.case .
  then have "chan_wf (insert data L) c' \<and> balance c' = 0 \<and> same_env c c' \<and> ch_now c' = ch_now c"
    using c2 send_copies_ok [OF c2(1) insertI1 _ rules, of c']
    by (auto simp: chan_wf_stats balance_stats split: if_splits intro: same_env_trans)
  then show "chan_inv (insert data L) c'" "same_env c c'" "ch_now c' = ch_now c"
    by (auto simp: chan_inv_def)
qed

section \<open>Delivery\<close>

text \<open>What is due at the current tick, in the order of the heap, and what the channel is afterwards.\<close>

definition due :: "channel \<Rightarrow> heap_key list" where
  "due c = filter (\<lambda>k. fst k \<le> ch_now c) (ch_in_flight c)"

definition after_due :: "channel \<Rightarrow> channel" where
  "after_due c = c\<lparr>
     ch_in_flight := filter (\<lambda>k. ch_now c < fst k) (ch_in_flight c),
     ch_payloads := fold (\<lambda>k ps. ps[snd (snd k) := []]) (due c) (ch_payloads c),
     ch_stats := (ch_stats c)\<lparr>fs_delivered :=
       fs_delivered (ch_stats c) + word_of_nat (length (due c))\<rparr>\<rparr>"

lemma deliver_loop_spec:
  assumes "chan_wf L c"
  shows "deliver_loop c ready =
    Some (ready @ map (\<lambda>k. ch_payloads c ! snd (snd k)) (due c), after_due c)"
  using assms
proof (induction "ch_in_flight c" arbitrary: c ready)
  case Nil
  then show ?case
    by (subst deliver_loop.simps) (simp add: heap_peek_def due_def after_due_def)
next
  case (Cons k h)
  obtain t s i where k: "k = (t, s, i)" by (cases k)
  note wf = Cons.prems [unfolded chan_wf_def] and hd = Cons.hyps(2) [symmetric]
  show ?case
  proof (cases "ch_now c < t")
    case True
    have "\<forall>y \<in> set h. t \<le> fst y" using wf by (fastforce simp: hd k less_eq_prod_def)
    then have late: "\<forall>y \<in> set (ch_in_flight c). ch_now c < fst y"
      using True by (auto simp: hd k)
    then have "due c = []" by (auto simp: due_def filter_empty_conv not_le)
    moreover from this late have "after_due c = c" by (simp add: after_due_def filter_True)
    ultimately show ?thesis
      using True by (subst deliver_loop.simps) (simp add: heap_peek_def hd k)
  next
    case False
    let ?c = "c\<lparr>ch_in_flight := h, ch_payloads := (ch_payloads c)[i := []],
       ch_stats := (ch_stats c)\<lparr>fs_delivered := fs_delivered (ch_stats c) + 1\<rparr>\<rparr>"
    have i: "i < length (ch_payloads c)" using wf by (simp add: hd k entry_ok_def)
    have ni: "\<forall>y \<in> set h. snd (snd y) \<noteq> i" using wf by (force simp: hd k)
    have "entry_ok L ?c y" if "y \<in> set h" for y
    proof -
      have "may_emit ?c = may_emit c" by (rule same_env_emit) (simp add: same_env_def)
      moreover have "entry_ok L c y" "snd (snd y) \<noteq> i" using wf that ni by (simp_all add: hd)
      ultimately show ?thesis by (cases y) (simp add: entry_ok_def)
    qed
    then have "chan_wf L ?c" using wf by (simp add: chan_wf_def hd)
    moreover have due: "due c = k # due ?c" using False by (simp add: due_def hd k)
    moreover have "after_due c = after_due ?c"
      using False by (simp add: after_due_def due) (simp add: hd k)
    moreover have "map (\<lambda>k. ch_payloads ?c ! snd (snd k)) (due ?c) = map (\<lambda>k. ch_payloads c ! snd (snd k)) (due ?c)"
      using ni by (auto simp: due_def)
    moreover have "deliver_loop c ready = deliver_loop ?c (ready @ [ch_payloads c ! i])"
      using False i by (subst deliver_loop.simps) (simp add: heap_peek_def heap_pop_def hd k)
    ultimately show ?thesis
      using Cons.hyps(1) [of ?c "ready @ [ch_payloads c ! i]"] by (simp add: k)
  qed
qed

lemma fold_clear:
  "length (fold (\<lambda>k ps. ps[snd (snd k) := []]) ks ps) = length ps"
  "\<forall>k \<in> set ks. snd (snd k) \<noteq> i \<Longrightarrow> fold (\<lambda>k ps. ps[snd (snd k) := []]) ks ps ! i = ps ! i"
  by (induction ks arbitrary: ps) auto

lemma after_due_env: "same_env c (after_due c)" "ch_now (after_due c) = ch_now c"
  by (simp_all add: after_due_def same_env_def)

lemma after_due_ok:
  assumes "chan_inv L c"
  shows "chan_inv L (after_due c)"
proof -
  note wf = assms [unfolded chan_inv_def chan_wf_def]
  have me: "may_emit (after_due c) = may_emit c" by (rule same_env_emit) (rule after_due_env)
  have "entry_ok L (after_due c) y" if y: "y \<in> set (ch_in_flight c)" "ch_now c < fst y" for y
  proof -
    have "\<forall>k \<in> set (due c). snd (snd k) \<noteq> snd (snd y)"
    proof
      fix k assume k: "k \<in> set (due c)"
      then have "k \<noteq> y" "k \<in> set (ch_in_flight c)" using y by (auto simp: due_def)
      then show "snd (snd k) \<noteq> snd (snd y)"
        using wf y(1) unfolding distinct_map inj_on_def by auto
    qed
    then have "ch_payloads (after_due c) ! snd (snd y) = ch_payloads c ! snd (snd y)"
      by (simp add: after_due_def fold_clear)
    moreover have "length (ch_payloads (after_due c)) = length (ch_payloads c)"
      by (simp add: after_due_def fold_clear)
    moreover have "entry_ok L c y" using wf y by blast
    ultimately show ?thesis by (cases y) (simp add: entry_ok_def me)
  qed
  then have "chan_wf L (after_due c)"
    using wf by (auto simp: chan_wf_def after_due_def distinct_map_filter sorted_filter [of "\<lambda>x. x", simplified])
  moreover have "length (ch_in_flight c) = length (due c) + length (filter (\<lambda>k. ch_now c < fst k) (ch_in_flight c))"
    using sum_length_filter_compl [of "\<lambda>k. fst k \<le> ch_now c" "ch_in_flight c"] by (simp add: due_def not_le)
  then have "balance (after_due c) = balance c" by (simp add: balance_def after_due_def)
  ultimately show ?thesis using wf by (simp add: chan_inv_def)
qed

lemma deliver_ready_ok:
  assumes "chan_inv L c"
  shows "deliver_ready c = Some (map (\<lambda>k. ch_payloads c ! snd (snd k)) (due c), after_due c)"
    and "\<forall>d \<in> set (map (\<lambda>k. ch_payloads c ! snd (snd k)) (due c)). \<exists>p \<in> L. may_emit c p d"
proof -
  show "deliver_ready c = Some (map (\<lambda>k. ch_payloads c ! snd (snd k)) (due c), after_due c)"
    using deliver_loop_spec [of L c "[]"] assms by (simp add: deliver_ready_def chan_inv_def)
  show "\<forall>d \<in> set (map (\<lambda>k. ch_payloads c ! snd (snd k)) (due c)). \<exists>p \<in> L. may_emit c p d"
    using assms by (fastforce simp: chan_inv_def chan_wf_def due_def entry_ok_def)
qed

lemma chan_inv_now:
  assumes "chan_inv L c"
  shows "chan_inv L (c\<lparr>ch_now := t\<rparr>)"
proof -
  have "may_emit (c\<lparr>ch_now := t\<rparr>) = may_emit c" by (rule same_env_emit) (simp add: same_env_def)
  with assms show ?thesis
    unfolding chan_inv_def chan_wf_def entry_ok_def by (auto simp: balance_def split: prod.splits)
qed

lemma channel_advance_spec:
  assumes "chan_inv L c"
  shows "channel_advance to c =
    (let c1 = c\<lparr>ch_now := max (ch_now c) to\<rparr>
     in Some (map (\<lambda>k. ch_payloads c ! snd (snd k)) (due c1), after_due c1))"
proof -
  have "(if ch_now c < to then c\<lparr>ch_now := to\<rparr> else c) = c\<lparr>ch_now := max (ch_now c) to\<rparr>"
    by (simp add: max_def not_less)
  then show ?thesis
    using deliver_ready_ok(1) [OF chan_inv_now [OF assms, of "max (ch_now c) to"]]
    by (simp only: channel_advance_def Let_def) simp
qed

lemma channel_advance_ok:
  assumes "chan_inv L c"
  obtains out c' where "channel_advance to c = Some (out, c')" "chan_inv L c'" "same_env c c'"
    "ch_now c' = max (ch_now c) to" "\<forall>d \<in> set out. \<exists>p \<in> L. may_emit c p d"
    "\<forall>t. next_arrival c' = Some t \<longrightarrow> ch_now c' < t"
proof -
  let ?c = "if ch_now c < to then c\<lparr>ch_now := to\<rparr> else c"
  have env: "same_env c ?c" by (simp add: same_env_def)
  then have me: "may_emit ?c = may_emit c" by (rule same_env_emit)
  then have inv: "chan_inv L ?c"
    using assms unfolding chan_inv_def chan_wf_def entry_ok_def by (auto simp: balance_def split: prod.splits)
  note D = deliver_ready_ok [OF inv]
  have late: "\<forall>t. next_arrival (after_due ?c) = Some t \<longrightarrow> ch_now (after_due ?c) < t"
  proof (intro allI impI)
    fix t assume t: "next_arrival (after_due ?c) = Some t"
    have "\<forall>k \<in> set (ch_in_flight (after_due ?c)). ch_now (after_due ?c) < fst k"
      by (auto simp: after_due_def)
    with t show "ch_now (after_due ?c) < t"
      by (auto simp: next_arrival_def heap_peek_def split: list.splits)
  qed
  have env': "same_env c (after_due ?c)" using env after_due_env(1) by (rule same_env_trans)
  have now: "ch_now (after_due ?c) = max (ch_now c) to" by (simp add: after_due_env)
  show ?thesis
    by (rule that [OF _ after_due_ok [OF inv] env' now _ late])
      (simp only: channel_advance_def D(1), rule D(2) [unfolded me])
qed

section \<open>Totality\<close>

definition sane :: "channel \<Rightarrow> bool" where
  "sane c \<longleftrightarrow> reorder_max_delay (ch_profile c) \<noteq> - 1"

lemma length_word: "bs \<noteq> [] \<Longrightarrow> length bs < 2 ^ 64 \<Longrightarrow> (word_of_nat (length bs) :: u64) \<noteq> 0"
  by (metis length_0_conv mod_less unat_0 unat_of_nat_len64)

lemma emit_delay_total: "sane c \<Longrightarrow> \<exists>x c'. emit_delay rules c = Some (x, c')"
  using ch_below_total [of "reorder_max_delay (ch_profile c) + 1" c]
  by (auto simp: emit_delay_def sane_def eq_neg_iff_add_eq_0 split: option.split)

lemma draw_len_total:
  assumes "bs \<noteq> []" and "length bs < 2 ^ 64"
  shows "\<exists>n c'. corrupt_offset sc bs c = Some (n, c')" "\<exists>n c'. truncate_len sc bs c = Some (n, c')"
  using ch_below_total [OF length_word [OF assms], of c]
  by (auto simp: corrupt_offset_def truncate_len_def split: option.split)

lemma emit_corrupt_total:
  assumes "length bs < 2 ^ 64"
  shows "\<exists>bs' c'. emit_corrupt bs rules c = Some (bs', c')"
proof (cases "bs = []")
  case False
  obtain b c1 where r: "(if find_corrupt rules \<noteq> None then (True, c)
      else ch_chance (corruption (ch_profile c)) c) = (b, c1)" by fastforce
  obtain n c2 where "corrupt_offset (find_corrupt rules) bs c1 = Some (n, c2)"
    using draw_len_total [OF False assms] by blast
  moreover obtain x c3 where "ch_below 8 c2 = Some (x, c3)" using ch_below_total [of 8 c2] by auto
  ultimately show ?thesis unfolding emit_corrupt_def Let_def r by simp
qed (simp add: emit_corrupt_def Let_def split: prod.split)

lemma emit_truncate_total:
  assumes "length bs < 2 ^ 64"
  shows "\<exists>bs' c'. emit_truncate bs rules c = Some (bs', c')"
proof -
  obtain b c1 where r: "(if find_truncate rules \<noteq> None then (True, c)
      else ch_chance (truncation (ch_profile c)) c) = (b, c1)" by fastforce
  obtain n c2 where "truncate_len (find_truncate rules) bs c1 = Some (n, c2)"
    using draw_len_total(2) [OF _ assms, of "find_truncate rules" c1]
    by (cases "bs = []"; cases "find_truncate rules") (auto simp: truncate_len_def)
  then show ?thesis unfolding emit_truncate_def Let_def r by simp
qed

lemma sane_env: "same_env c c' \<Longrightarrow> sane c' = sane c"
  by (simp add: sane_def same_env_def)

lemma length_flips: "bs' = bs \<or> flips bs bs' \<Longrightarrow> length bs' = length bs"
  by (auto simp: flips_def)

lemma emit_one_total:
  assumes "sane c" and "length data < 2 ^ 64"
  shows "\<exists>d c'. emit_one data rules c = Some (d, c')"
proof -
  obtain x c1 where 1: "emit_delay rules c = Some (x, c1)" using emit_delay_total [OF assms(1)] by blast
  obtain b1 c2 where 2: "emit_corrupt data rules c1 = Some (b1, c2)"
    using emit_corrupt_total [OF assms(2)] by blast
  have "length b1 = length data" using emit_corrupt_result(2) [OF 2] by (rule length_flips)
  then obtain b2 c3 where "emit_truncate b1 rules c2 = Some (b2, c3)"
    using emit_truncate_total [of b1 rules c2] assms(2) by auto
  with 1 2 show ?thesis by (simp add: emit_one_def)
qed

lemma sane_fixed: "fixed c' = fixed c \<Longrightarrow> sane c' = sane c"
  using fixed_env sane_env by blast

lemma send_copies_total:
  assumes "sane c" and "length data < 2 ^ 64" and "set rules \<subseteq> snd ` set (ch_script c)"
  shows "send_copies data rules c \<noteq> None"
proof -
  obtain d1 c1 where e1: "emit_one data rules c = Some (d1, c1)" using emit_one_total assms by blast
  have "sane (enqueue d1 c1)"
    using sane_fixed [OF emit_one_result(1) [OF e1 assms(3)]] assms(1)
    by (simp add: sane_def enqueue_def Let_def)
  moreover obtain dup c2 where f: "(if Duplicate \<in> set rules then (True, enqueue d1 c1)
      else ch_chance (duplication (ch_profile (enqueue d1 c1))) (enqueue d1 c1)) = (dup, c2)"
    by fastforce
  ultimately have "sane (upd_stats g c2)" for g
    using sane_fixed [OF ch_flip [OF f]] by (simp add: sane_def upd_stats_def)
  then show ?thesis
    unfolding send_copies_def e1 Let_def bind.bind_lunit prod.case f
    using emit_one_total [of "upd_stats (\<lambda>s. s\<lparr>fs_duplicated := fs_duplicated s + 1\<rparr>) c2" data rules]
      assms(2) by auto
qed

lemma channel_send_total:
  assumes "sane c" and "length data < 2 ^ 64"
  shows "channel_send data c \<noteq> None"
proof -
  define c1 where "c1 = upd_stats (\<lambda>s. s\<lparr>fs_sent := fs_sent s + 1\<rparr>)
    (c\<lparr>ch_next_datagram_index := ch_next_datagram_index c + 1\<rparr>)"
  define rules where "rules = for_index (ch_script c1) (ch_next_datagram_index c)"
  obtain dropped c2 where d: "(if Drop \<in> set rules then (True, c1) else ch_chance (loss (ch_profile c1)) c1)
      = (dropped, c2)" by fastforce
  have "sane c2" "ch_script c2 = ch_script c1"
    using sane_fixed [OF ch_flip [OF d]] fixed_env [OF ch_flip [OF d]] assms(1)
    by (simp_all add: c1_def sane_def upd_stats_def same_env_def)
  moreover from this have "set rules \<subseteq> snd ` set (ch_script c2)" by (auto simp: rules_def for_index_def)
  ultimately show ?thesis
    using send_copies_total [of c2 data rules] assms(2)
    unfolding channel_send_def Let_def c1_def [symmetric] rules_def [symmetric] d prod.case by auto
qed

section \<open>Reachable channels\<close>

text \<open>A channel with the set of payloads sent on it.\<close>

inductive chan_step :: "bytes set \<times> channel \<Rightarrow> bytes set \<times> channel \<Rightarrow> bool" where
  chan_send: "channel_send data c = Some c' \<Longrightarrow> chan_step (L, c) (insert data L, c')"
| chan_advance: "channel_advance to c = Some (out, c') \<Longrightarrow> chan_step (L, c) (L, c')"

inductive_cases chan_stepE: "chan_step s s'"

definition chan_init :: "u64 \<Rightarrow> fault_profile \<Rightarrow> script \<Rightarrow> bytes set \<times> channel \<Rightarrow> bool" where
  "chan_init seed profile script s \<longleftrightarrow> fst s = {} \<and> with_script seed profile script = Some (snd s)"

definition chan_good :: "fault_profile \<Rightarrow> script \<Rightarrow> bytes set \<times> channel \<Rightarrow> bool" where
  "chan_good profile script s \<longleftrightarrow> chan_inv (fst s) (snd s)
     \<and> ch_profile (snd s) = profile \<and> ch_script (snd s) = script"

abbreviation chan_reachable where
  "chan_reachable seed profile script \<equiv> reachable (chan_init seed profile script) chan_step"

lemma with_script_env:
  "with_script seed profile script = Some c \<Longrightarrow> ch_profile c = profile \<and> ch_script c = script"
  by (auto simp: with_script_def split: sum.splits)

lemma chan_good_step: "chan_good profile script s \<Longrightarrow> chan_step s s' \<Longrightarrow> chan_good profile script s'"
proof (erule chan_stepE)
  fix data c c' L
  assume "chan_good profile script s" "s = (L, c)" "s' = (insert data L, c')" "channel_send data c = Some c'"
  then show "chan_good profile script s'"
    using channel_send_ok [of L c data c'] by (simp add: chan_good_def same_env_def)
next
  fix to c out c' L
  assume "chan_good profile script s" "s = (L, c)" "s' = (L, c')" "channel_advance to c = Some (out, c')"
  then show "chan_good profile script s'"
    using channel_advance_ok [of L c to] by (auto simp: chan_good_def same_env_def)
qed

interpretation chan: invariant_system "chan_init seed profile script" chan_step
  "chan_good profile script" for seed profile script
proof unfold_locales
  fix s assume "chan_init seed profile script s"
  then show "chan_good profile script s"
    using chan_inv_init [of seed profile script "snd s"] with_script_env [of seed profile script "snd s"]
    by (simp add: chan_init_def chan_good_def)
qed (rule chan_good_step)

end
