(* ===== verification/Channel_Props.thy ===== *)
theory Channel_Props
  imports Channel
begin

text \<open>
  What the channel of \<^verbatim>\<open>crates/channel\<close> guarantees, and what it cannot do: conservation of
  datagrams, delivery order, no forgery, no panic, and the perfect channel as the special case
  without faults.
\<close>

section \<open>The perfect channel\<close>

definition perfect :: "channel \<Rightarrow> bool" where
  "perfect c \<longleftrightarrow> loss (ch_profile c) = Fin 0 \<and> duplication (ch_profile c) = Fin 0
     \<and> corruption (ch_profile c) = Fin 0 \<and> truncation (ch_profile c) = Fin 0
     \<and> reorder_max_delay (ch_profile c) = 0 \<and> ch_script c = []"

fun send_all :: "bytes list \<Rightarrow> channel \<Rightarrow> channel option" where
  "send_all [] c = Some c"
| "send_all (p # ps) c = (case channel_send p c of None \<Rightarrow> None | Some c' \<Rightarrow> send_all ps c')"

lemma ch_chance_never: "ch_chance (Fin 0) c = (False, c\<lparr>ch_rng := ch_rng c + GAMMA\<rparr>)"
  using chance_never [of "ch_rng c"] chance_step [of "Fin 0" "ch_rng c"]
  by (cases "chance (Fin 0) (ch_rng c)") (simp add: ch_chance_def)

lemma perfect_emit:
  assumes "perfect c"
  shows "emit_one data [] c = Some (\<lparr>fl_arrives = tick_advance (ch_now c) (base_delay (ch_profile c)),
    fl_seq = 0, fl_payload = data\<rparr>, c\<lparr>ch_rng := ch_rng c + 2 * GAMMA\<rparr>)"
  using assms
  by (simp add: perfect_def emit_one_def emit_delay_def emit_corrupt_def emit_truncate_def
      ch_chance_never)

lemma perfect_copies:
  assumes "perfect c"
  shows "send_copies data [] c = Some (c\<lparr>ch_rng := ch_rng c + 3 * GAMMA,
      ch_payloads := ch_payloads c @ [data],
      ch_in_flight := heap_push (tick_advance (ch_now c) (base_delay (ch_profile c)),
        word_of_nat (length (ch_payloads c)), length (ch_payloads c)) (ch_in_flight c)\<rparr>)"
  using assms
  by (simp add: send_copies_def perfect_emit enqueue_def Let_def) (simp add: perfect_def ch_chance_never)

lemma perfect_send:
  assumes "perfect c"
  shows "channel_send data c = Some (c\<lparr>ch_rng := ch_rng c + 4 * GAMMA,
      ch_next_datagram_index := ch_next_datagram_index c + 1,
      ch_stats := (ch_stats c)\<lparr>fs_sent := fs_sent (ch_stats c) + 1\<rparr>,
      ch_payloads := ch_payloads c @ [data],
      ch_in_flight := heap_push (tick_advance (ch_now c) (base_delay (ch_profile c)),
        word_of_nat (length (ch_payloads c)), length (ch_payloads c)) (ch_in_flight c)\<rparr>)"
proof -
  let ?c = "c\<lparr>ch_next_datagram_index := ch_next_datagram_index c + 1,
    ch_stats := (ch_stats c)\<lparr>fs_sent := fs_sent (ch_stats c) + 1\<rparr>, ch_rng := ch_rng c + GAMMA\<rparr>"
  have "channel_send data c = send_copies data [] ?c"
    using assms by (simp add: channel_send_def upd_stats_def perfect_def for_index_def ch_chance_never)
  moreover have "perfect ?c" using assms by (simp add: perfect_def)
  ultimately show ?thesis by (simp add: perfect_copies)
qed

lemma heap_push_last: "sorted (h @ [x]) \<Longrightarrow> heap_push x h = h @ [x]"
  by (simp add: heap_push_def sorted_append sorted_insort_is_snoc)

abbreviation fifo_keys :: "tick \<Rightarrow> nat \<Rightarrow> heap" where
  "fifo_keys t n \<equiv> map (\<lambda>i. (t, word_of_nat i, i)) [0..<n]"

lemma sorted_fifo_keys: "n \<le> 2 ^ 64 \<Longrightarrow> sorted (fifo_keys t n)"
  by (auto simp: sorted_wrt_map sorted_wrt_iff_nth_less less_eq_prod_def word_less_nat_alt unat_of_nat
      intro!: le_neq_implies_less)

lemma perfect_send_all:
  assumes "perfect c" and "ch_in_flight c = fifo_keys t (length (ch_payloads c))"
    and "t = tick_advance (ch_now c) (base_delay (ch_profile c))"
    and "length (ch_payloads c) + length ps < 2 ^ 64"
  shows "\<exists>c'. send_all ps c = Some c' \<and> ch_payloads c' = ch_payloads c @ ps
    \<and> ch_in_flight c' = fifo_keys t (length (ch_payloads c')) \<and> ch_now c' = ch_now c"
  using assms
proof (induction ps arbitrary: c)
  case (Cons p ps)
  let ?n = "length (ch_payloads c)"
  obtain c1 where s: "channel_send p c = Some c1" "perfect c1" "ch_payloads c1 = ch_payloads c @ [p]"
    "ch_in_flight c1 = heap_push (t, word_of_nat ?n, ?n) (ch_in_flight c)" "ch_now c1 = ch_now c"
    "ch_profile c1 = ch_profile c"
    using perfect_send [OF Cons.prems(1), of p] Cons.prems(1,3) by (auto simp: perfect_def)
  have "heap_push (t, word_of_nat ?n, ?n) (fifo_keys t ?n) = fifo_keys t (Suc ?n)"
    using sorted_fifo_keys [of "Suc ?n" t] Cons.prems(4) by (subst heap_push_last) auto
  then have "ch_in_flight c1 = fifo_keys t (length (ch_payloads c1))"
    using s(3,4) Cons.prems(2) by simp
  then show ?case
    using Cons.IH [OF s(2)] Cons.prems(3,4) s by simp
qed simp

lemma send_all_inv: "chan_inv L c \<Longrightarrow> send_all ps c = Some c' \<Longrightarrow> \<exists>L'. chan_inv L' c'"
  by (induction ps arbitrary: L c) (auto split: option.splits dest: channel_send_ok(1))

lemma clean_new:
  obtains c where "channel_new seed CLEAN = Some c" "perfect c" "chan_inv {} c" "ch_payloads c = []"
    "ch_in_flight c = []" "ch_now c = ZERO" "base_delay (ch_profile c) = 1"
proof -
  obtain c where c: "with_script seed CLEAN script_new = Some c" "perfect c" "ch_payloads c = []"
    "ch_in_flight c = []" "ch_now c = ZERO" "base_delay (ch_profile c) = 1"
    by (auto simp: with_script_def validate_def in_unit_def CLEAN_def script_new_def perfect_def)
  then show ?thesis using that [of c] chan_inv_init [OF c(1)] by (simp add: channel_new_def)
qed

lemma due_fifo:
  assumes "ch_in_flight c = fifo_keys t (length (ch_payloads c))"
  shows "t \<le> ch_now c \<Longrightarrow> map (\<lambda>k. ch_payloads c ! snd (snd k)) (due c) = ch_payloads c"
    and "ch_now c < t \<Longrightarrow> due c = [] \<and> after_due c = c"
proof -
  show "t \<le> ch_now c \<Longrightarrow> map (\<lambda>k. ch_payloads c ! snd (snd k)) (due c) = ch_payloads c"
    using assms by (simp add: due_def comp_def map_nth filter_map)
  assume now: "ch_now c < t"
  then have "\<forall>k \<in> set (ch_in_flight c). ch_now c < fst k" using assms by auto
  then have "due c = []" "filter (\<lambda>k. ch_now c < fst k) (ch_in_flight c) = ch_in_flight c"
    by (auto simp: due_def filter_empty_conv not_le filter_id_conv)
  then show "due c = [] \<and> after_due c = c" by (simp add: after_due_def)
qed

section \<open>A scripted run\<close>

text \<open>Two datagrams on a clean channel whose script duplicates the first and drops the second.\<close>

definition demo_script :: script where
  "demo_script = script_at (script_at script_new 0 Duplicate) 1 Drop"

definition demo_run :: "bytes \<Rightarrow> bytes \<Rightarrow> channel option" where
  "demo_run p q = do {
     c \<leftarrow> with_script 1 CLEAN demo_script;
     c \<leftarrow> channel_send p c;
     channel_send q c
   }"

lemmas channel_eval = with_script_def validate_def in_unit_def CLEAN_def channel_send_def for_index_simps
  send_copies_def emit_one_def emit_delay_def emit_corrupt_def emit_truncate_def ch_chance_never
  enqueue_def upd_stats_def fault_stats_default_def heap_push_def tick_advance_def ZERO_def
  demo_script_def script_at_def script_new_def sat_add_def

lemma demo_run_eval:
  "\<exists>c. demo_run p q = Some c \<and> ch_now c = ZERO \<and> ch_payloads c = [p, p]
     \<and> ch_in_flight c = [(Tick 1, 0, 0), (Tick 1, 1, 1)]
     \<and> fs_sent (ch_stats c) = 2 \<and> fs_duplicated (ch_stats c) = 1 \<and> fs_dropped (ch_stats c) = 1"
  by (simp add: demo_run_def Let_def channel_eval less_eq_prod_def less_prod_def)

lemma demo_run_reachable: "demo_run p q = Some c \<Longrightarrow> chan_reachable 1 CLEAN demo_script ({p, q}, c)"
proof -
  assume "demo_run p q = Some c"
  then obtain c0 c1 where c: "with_script 1 CLEAN demo_script = Some c0" "channel_send p c0 = Some c1"
    "channel_send q c1 = Some c" by (auto simp: demo_run_def split: bind_splits)
  have "chan_reachable 1 CLEAN demo_script ({}, c0)"
    using c(1) by (intro reachable_init) (simp add: chan_init_def)
  then have "chan_reachable 1 CLEAN demo_script ({p}, c1)"
    using chan_send [OF c(2)] by (rule reachable_step)
  then have "chan_reachable 1 CLEAN demo_script ({q, p}, c)"
    using chan_send [OF c(3)] by (rule reachable_step)
  then show ?thesis by (simp add: insert_commute)
qed

lemma demo_reachable:
  obtains c where "chan_reachable 1 CLEAN demo_script ({p, q}, c)" "ch_now c = ZERO"
    "ch_payloads c = [p, p]" "ch_in_flight c = [(Tick 1, 0, 0), (Tick 1, 1, 1)]"
    "fs_sent (ch_stats c) = 2" "fs_duplicated (ch_stats c) = 1" "fs_dropped (ch_stats c) = 1"
  using demo_run_eval [of p q] demo_run_reachable [of p q] by blast

definition demo_frame :: "u32 \<Rightarrow> frame" where
  "demo_frame n = \<lparr>frame_type = 0, sequence = n, flags = 0, payload = [7]\<rparr>"

section \<open>Properties\<close>

text \<open>C24. No datagram is lost from the books: in every reachable channel, datagrams sent plus
  duplicates made equal those delivered plus those dropped plus those still in flight.\<close>

theorem channel_conservation:
  assumes "chan_reachable seed profile script (L, c)"
  shows "fs_sent (ch_stats c) + fs_duplicated (ch_stats c)
    = fs_delivered (ch_stats c) + fs_dropped (ch_stats c) + word_of_nat (length (ch_in_flight c))"
  using chan.reachable_inv [OF assms] by (simp add: chan_good_def chan_inv_def balance_def algebra_simps)

theorem channel_conservation_witness:
  "\<exists>c. chan_reachable 1 CLEAN demo_script ({[5], [6]}, c) \<and> length (ch_in_flight c) = 2
     \<and> fs_sent (ch_stats c) + fs_duplicated (ch_stats c)
       = fs_delivered (ch_stats c) + fs_dropped (ch_stats c) + 2"
proof -
  obtain c where c: "chan_reachable 1 CLEAN demo_script ({[5], [6]}, c)"
    "ch_in_flight c = [(Tick 1, 0, 0), (Tick 1, 1, 1)]" using demo_reachable [of "[5]" "[6]"] by metis
  then show ?thesis using channel_conservation [OF c(1)] by auto
qed

text \<open>
  What a send adds: payloads in slots past all the others, each a copy of the datagram with the faults
  drawn for it, and keys for those slots only.
\<close>

definition appends :: "bytes \<Rightarrow> channel \<Rightarrow> channel \<Rightarrow> bool" where
  "appends data c c' \<longleftrightarrow> (\<exists>ps. ch_payloads c' = ch_payloads c @ ps \<and> (\<forall>p \<in> set ps. faulty data p))
     \<and> set (ch_in_flight c) \<subseteq> set (ch_in_flight c')
     \<and> (\<forall>k \<in> set (ch_in_flight c') - set (ch_in_flight c). length (ch_payloads c) \<le> snd (snd k))"

lemma appends_fixed: "fixed c1 = fixed c \<Longrightarrow> appends data c1 c' = appends data c c'"
  "fixed c1 = fixed c' \<Longrightarrow> appends data c c1 = appends data c c'"
  by (simp_all add: appends_def fixed_def)

lemma appends_refl: "appends data c c"
  by (simp add: appends_def)

lemma appends_trans: "appends data c c1 \<Longrightarrow> appends data c1 c' \<Longrightarrow> appends data c c'"
proof -
  assume a: "appends data c c1" "appends data c1 c'"
  obtain ps qs where ps: "ch_payloads c1 = ch_payloads c @ ps" "\<forall>p \<in> set ps. faulty data p"
    "ch_payloads c' = (ch_payloads c @ ps) @ qs" "\<forall>p \<in> set qs. faulty data p"
    using a by (auto simp: appends_def)
  have "length (ch_payloads c) \<le> snd (snd k)" if "k \<in> set (ch_in_flight c') - set (ch_in_flight c)" for k
  proof (cases "k \<in> set (ch_in_flight c1)")
    case True
    then show ?thesis using a(1) that by (simp add: appends_def)
  next
    case False
    then have "length (ch_payloads c1) \<le> snd (snd k)" using a(2) that by (simp add: appends_def)
    then show ?thesis by (simp add: ps(1))
  qed
  moreover have "set (ch_in_flight c) \<subseteq> set (ch_in_flight c')" using a by (auto simp: appends_def)
  ultimately show ?thesis using ps(2-4) by (auto simp: appends_def)
qed

lemma appends_stats [simp]: "appends data c (upd_stats f c') = appends data c c'"
  "appends data (upd_stats f c) c' = appends data c c'"
  by (simp_all add: appends_def upd_stats_def)

lemma emit_appends:
  assumes "emit_one data rules c = Some (d, c')" and "set rules \<subseteq> snd ` set (ch_script c)"
  shows "appends data c (enqueue d c')" and "ch_script (enqueue d c') = ch_script c"
proof -
  note E = emit_one_result [OF assms]
  have "ch_payloads c' = ch_payloads c" "ch_in_flight c' = ch_in_flight c" "ch_script c' = ch_script c"
    using E(1) by (simp_all add: fixed_def)
  then show "appends data c (enqueue d c')" "ch_script (enqueue d c') = ch_script c"
    using E(2) by (auto simp: appends_def enqueue_def Let_def may_emit_def)
qed

lemma copies_append:
  assumes "send_copies data rules c = Some c'" and "set rules \<subseteq> snd ` set (ch_script c)"
  shows "appends data c c'"
proof -
  obtain d1 c1 where e1: "emit_one data rules c = Some (d1, c1)"
    using assms(1) by (auto simp: send_copies_def split: bind_splits)
  note E1 = emit_appends [OF e1 assms(2)]
  obtain dup c2 where f: "(if Duplicate \<in> set rules then (True, enqueue d1 c1)
      else ch_chance (duplication (ch_profile (enqueue d1 c1))) (enqueue d1 c1)) = (dup, c2)"
    by fastforce
  have c2: "appends data c c2" "ch_script c2 = ch_script c"
    using ch_flip [OF f] E1 appends_fixed(2) [OF ch_flip [OF f]] by (simp_all add: fixed_def)
  show ?thesis
  proof (cases dup)
    case True
    let ?c3 = "upd_stats (\<lambda>s. s\<lparr>fs_duplicated := fs_duplicated s + 1\<rparr>) c2"
    obtain d2 c4 where e2: "emit_one data rules ?c3 = Some (d2, c4)" "c' = enqueue d2 c4"
      using assms(1) True f by (auto simp: send_copies_def e1 Let_def split: bind_splits)
    have "set rules \<subseteq> snd ` set (ch_script ?c3)" using assms(2) c2(2) by (simp add: upd_stats_def)
    from appends_trans [OF _ emit_appends(1) [OF e2(1) this]] c2(1) e2(2) show ?thesis by simp
  next
    case False
    then show ?thesis using assms(1) f c2(1) by (auto simp: send_copies_def e1 Let_def split: bind_splits)
  qed
qed

lemma send_appends:
  assumes "channel_send data c = Some c'"
  shows "appends data c c'"
proof -
  define c1 where "c1 = upd_stats (\<lambda>s. s\<lparr>fs_sent := fs_sent s + 1\<rparr>)
    (c\<lparr>ch_next_datagram_index := ch_next_datagram_index c + 1\<rparr>)"
  define rules where "rules = for_index (ch_script c1) (ch_next_datagram_index c)"
  obtain dropped c2 where d: "(if Drop \<in> set rules then (True, c1) else ch_chance (loss (ch_profile c1)) c1)
      = (dropped, c2)" by fastforce
  have c2: "appends data c c2" "ch_script c2 = ch_script c"
    using ch_flip [OF d] appends_fixed(2) [OF ch_flip [OF d]]
    by (simp_all add: c1_def fixed_def appends_def upd_stats_def)
  then have rules: "set rules \<subseteq> snd ` set (ch_script c2)"
    by (auto simp: rules_def for_index_def c1_def upd_stats_def)
  have "(if dropped then Some (upd_stats (\<lambda>s. s\<lparr>fs_dropped := fs_dropped s + 1\<rparr>) c2)
      else send_copies data rules c2) = Some c'"
    using assms unfolding channel_send_def Let_def c1_def [symmetric] rules_def [symmetric] d prod.case .
  then show ?thesis
    using c2(1) appends_trans [OF c2(1) copies_append [OF _ rules]] by (auto split: if_splits)
qed

lemma sorted_by_slot:
  assumes "sorted ks" and "distinct (map (snd \<circ> snd) ks)"
    and "\<forall>(t, s, i) \<in> set ks. s = (word_of_nat i :: u64) \<and> i < 2 ^ 64"
  shows "sorted_wrt (\<lambda>k l. fst k < fst l \<or> fst k = fst l \<and> snd (snd k) < snd (snd l)) ks"
  using assms
proof (induction ks)
  case (Cons k ks)
  obtain t i where k: "k = (t, word_of_nat i, i)" "i < 2 ^ 64" using Cons.prems(3) by (cases k) auto
  have "fst k < fst l \<or> fst k = fst l \<and> snd (snd k) < snd (snd l)" if l: "l \<in> set ks" for l
  proof -
    obtain t' j where j: "l = (t', word_of_nat j, j)" "j < 2 ^ 64" using Cons.prems(3) l by (cases l) auto
    have "k \<le> l" "i \<noteq> j" using Cons.prems(1,2) l k(1) j(1) by force+
    then show ?thesis using k j by (auto simp: less_eq_prod_def word_less_nat_alt word_le_nat_alt unat_of_nat)
  qed
  then show ?case using Cons by auto
qed simp

text \<open>C25. \<open>advance\<close> hands over exactly the datagrams whose arrival tick has been reached, and leaves nothing
  overdue behind; time never goes back. They come ordered by arrival tick and, within a tick, by the slot
  of their payload, which is the order of sending: what a send adds to the channel goes into slots past
  those of every datagram sent before it. (Slots are numbered with 64 bits.)\<close>

theorem advance_delivers_due_in_order:
  assumes "chan_reachable seed profile script (L, c)" and "channel_advance to c = Some (out, c')"
    and "length (ch_payloads c) \<le> 2 ^ 64"
  shows "ch_now c' = max (ch_now c) to
    \<and> out = map (\<lambda>k. ch_payloads c ! snd (snd k)) (filter (\<lambda>k. fst k \<le> ch_now c') (ch_in_flight c))
    \<and> ch_in_flight c' = filter (\<lambda>k. ch_now c' < fst k) (ch_in_flight c)
    \<and> sorted_wrt (\<lambda>k l. fst k < fst l \<or> fst k = fst l \<and> snd (snd k) < snd (snd l)) (ch_in_flight c)
    \<and> (\<forall>data c2. channel_send data c = Some c2 \<longrightarrow>
        (\<exists>ps. ch_payloads c2 = ch_payloads c @ ps \<and> (\<forall>p \<in> set ps. faulty data p))
        \<and> set (ch_in_flight c) \<subseteq> set (ch_in_flight c2)
        \<and> (\<forall>k \<in> set (ch_in_flight c). \<forall>l \<in> set (ch_in_flight c2) - set (ch_in_flight c). snd (snd k) < snd (snd l)))"
proof -
  have inv: "chan_inv L c" using chan.reachable_inv [OF assms(1)] by (simp add: chan_good_def)
  then have wf: "chan_wf L c" by (simp add: chan_inv_def)
  have slots: "\<forall>(t, s, i) \<in> set (ch_in_flight c). s = word_of_nat i \<and> i < length (ch_payloads c)"
    using wf by (fastforce simp: chan_wf_def entry_ok_def)
  have "sorted_wrt (\<lambda>k l. fst k < fst l \<or> fst k = fst l \<and> snd (snd k) < snd (snd l)) (ch_in_flight c)"
    using wf slots assms(3) by (intro sorted_by_slot) (fastforce simp: chan_wf_def)+
  moreover have "snd (snd k) < snd (snd l)" if "channel_send data c = Some c2" "k \<in> set (ch_in_flight c)"
    "l \<in> set (ch_in_flight c2) - set (ch_in_flight c)" for data c2 k l
  proof -
    have "length (ch_payloads c) \<le> snd (snd l)" using send_appends [OF that(1)] that(3) by (simp add: appends_def)
    moreover have "snd (snd k) < length (ch_payloads c)" using bspec [OF slots that(2)] by (simp add: case_prod_beta)
    ultimately show ?thesis by simp
  qed
  moreover have "ch_now c' = max (ch_now c) to
    \<and> out = map (\<lambda>k. ch_payloads c ! snd (snd k)) (filter (\<lambda>k. fst k \<le> ch_now c') (ch_in_flight c))
    \<and> ch_in_flight c' = filter (\<lambda>k. ch_now c' < fst k) (ch_in_flight c)"
    using channel_advance_spec [OF inv, of to] assms(2) by (simp add: after_due_def due_def)
  moreover have "(\<exists>ps. ch_payloads c2 = ch_payloads c @ ps \<and> (\<forall>p \<in> set ps. faulty data p))
      \<and> set (ch_in_flight c) \<subseteq> set (ch_in_flight c2)" if "channel_send data c = Some c2" for data c2
    using send_appends [OF that] by (simp add: appends_def)
  ultimately show ?thesis by blast
qed

theorem advance_delivers_due_in_order_witness:
  "\<exists>c c'. chan_reachable 1 CLEAN script_new ({[5], [6]}, c)
     \<and> channel_advance (Tick 1) c = Some ([[5], [6]], c') \<and> ch_in_flight c' = []"
proof -
  have "\<exists>c0 c1 c. with_script 1 CLEAN script_new = Some c0 \<and> channel_send [5] c0 = Some c1
      \<and> channel_send [6] c1 = Some c \<and> ch_now c = ZERO \<and> ch_payloads c = [[5], [6]]
      \<and> ch_in_flight c = [(Tick 1, 0, 0), (Tick 1, 1, 1)]"
    by (simp add: Let_def channel_eval less_eq_prod_def less_prod_def)
  then obtain c0 c1 c where c: "with_script 1 CLEAN script_new = Some c0" "channel_send [5] c0 = Some c1"
    "channel_send [6] c1 = Some c" "ch_now c = ZERO" "ch_payloads c = [[5], [6]]"
    "ch_in_flight c = [(Tick 1, 0, 0), (Tick 1, 1, 1)]" by blast
  have "chan_reachable 1 CLEAN script_new ({}, c0)" using c(1) by (intro reachable_init) (simp add: chan_init_def)
  then have "chan_reachable 1 CLEAN script_new ({[5]}, c1)" using chan_send [OF c(2)] by (rule reachable_step)
  then have "chan_reachable 1 CLEAN script_new ({[6], [5]}, c)" using chan_send [OF c(3)] by (rule reachable_step)
  then have r: "chan_reachable 1 CLEAN script_new ({[5], [6]}, c)" by (simp only: insert_commute)
  obtain out c' where s: "channel_advance (Tick 1) c = Some (out, c')"
    using chan.reachable_inv [OF r] channel_advance_spec [of "{[5], [6]}" c "Tick 1"]
    by (auto simp: chan_good_def Let_def)
  have "out = [[5], [6]] \<and> ch_in_flight c' = []"
    using advance_delivers_due_in_order [OF r s, unfolded c(4-6), THEN conjunct1]
      advance_delivers_due_in_order [OF r s, unfolded c(4-6), THEN conjunct2, THEN conjunct1]
      advance_delivers_due_in_order [OF r s, unfolded c(4-6), THEN conjunct2, THEN conjunct2, THEN conjunct1]
    by (simp add: ZERO_def)
  with r s show ?thesis by (intro exI [of _ c] exI [of _ c'] conjI) simp_all
qed

text \<open>C23. The channel forges nothing: a delivered datagram comes from one that was sent, intact, with
  one bit flipped, with its tail lost, or both. When corruption and truncation cannot compound and
  the payloads are encoded frames, what arrives is a frame that was sent or bytes the frame layer
  rejects.\<close>

theorem channel_forges_nothing:
  assumes "chan_reachable seed profile script (L, c)" and "channel_advance to c = Some (out, c')"
    and "d \<in> set out"
  shows "(\<exists>p \<in> L. faulty p d) \<and>
    (single_fault c \<longrightarrow> (\<forall>p \<in> L. \<exists>f. p = frame_encode f \<and> length (payload f) < 2 ^ 32) \<longrightarrow>
       d \<in> L \<or> isl (frame_decode d))"
proof -
  have inv: "chan_inv L c" using chan.reachable_inv [OF assms(1)] by (simp add: chan_good_def)
  then obtain p where p: "p \<in> L" "may_emit c p d"
    using channel_advance_ok [OF inv, of to] assms(2,3) by (metis option.inject prod.inject)
  have "d \<in> L \<or> isl (frame_decode d)"
    if sf: "single_fault c" and enc: "\<forall>p \<in> L. \<exists>f. p = frame_encode f \<and> length (payload f) < 2 ^ 32"
  proof -
    obtain f where "p = frame_encode f" "length (payload f) < 2 ^ 32" using enc p(1) by blast
    then have "harmless p d"
      using single_fault_harmless [of d p f] p(2) sf by (simp add: may_emit_def)
    then show ?thesis using p(1) by (auto simp: harmless_def)
  qed
  with p show ?thesis by (auto simp: may_emit_def)
qed

theorem channel_forges_nothing_witness:
  "\<exists>c c' out. chan_reachable 1 CLEAN demo_script (frame_encode ` {demo_frame 1, demo_frame 2}, c)
     \<and> channel_advance (Tick 1) c = Some (out, c') \<and> out \<noteq> []
     \<and> (hd out \<in> frame_encode ` {demo_frame 1, demo_frame 2} \<or> isl (frame_decode (hd out)))"
proof -
  let ?p = "frame_encode (demo_frame 1)" and ?q = "frame_encode (demo_frame 2)"
  obtain c where c: "chan_reachable 1 CLEAN demo_script ({?p, ?q}, c)" "ch_now c = ZERO"
    "ch_payloads c = [?p, ?p]" "ch_in_flight c = [(Tick 1, 0, 0), (Tick 1, 1, 1)]"
    by (rule demo_reachable)
  have good: "chan_good CLEAN demo_script ({?p, ?q}, c)" using chan.reachable_inv [OF c(1)] .
  then obtain c' where s: "channel_advance (Tick 1) c = Some ([?p, ?p], c')"
    using channel_advance_spec [of "{?p, ?q}" c "Tick 1"] c(2-4)
    by (simp add: chan_good_def Let_def due_def max_def ZERO_def)
  have "single_fault c"
    using good by (simp add: chan_good_def single_fault_def CLEAN_def demo_script_def script_at_def script_new_def)
  then have "?p \<in> {?p, ?q} \<or> isl (frame_decode ?p)"
    using channel_forges_nothing [OF c(1) s, of ?p] by (auto simp: demo_frame_def)
  with c(1) s show ?thesis by fastforce
qed

text \<open>A channel whose profile was accepted never panics: every send and every advance returns,
  provided the reordering delay is not the largest \<open>u64\<close>.\<close>

theorem channel_never_panics:
  assumes "chan_reachable seed profile script (L, c)" and "reorder_max_delay profile \<noteq> - 1"
    and "length data < 2 ^ 64"
  shows "channel_send data c \<noteq> None \<and> channel_advance to c \<noteq> None"
proof -
  have inv: "chan_inv L c" and "sane c"
    using chan.reachable_inv [OF assms(1)] assms(2) by (simp_all add: chan_good_def sane_def)
  then show ?thesis
    using channel_send_total [OF _ assms(3)] channel_advance_ok [OF inv, of to] by fastforce
qed

theorem channel_never_panics_witness:
  "\<exists>c. chan_reachable 1 CLEAN demo_script ({[5], [6]}, c)
     \<and> channel_send [1, 2, 3] c \<noteq> None \<and> channel_advance (Tick 7) c \<noteq> None"
proof -
  obtain c where c: "chan_reachable 1 CLEAN demo_script ({[5], [6]}, c)" using demo_reachable [of "[5]" "[6]"] by metis
  then show ?thesis
    using channel_never_panics [OF c, of "[1, 2, 3]"] by (auto simp: CLEAN_def)
qed

text \<open>A channel with the clean profile is a lossless queue: whatever is sent at tick 0 arrives at
  tick 1, not earlier, unmodified, once, and in the order of sending.\<close>

theorem clean_channel_is_fifo:
  assumes "length ps < 2 ^ 64"
  shows "\<exists>c c' c''. channel_new seed CLEAN = Some c \<and> send_all ps c = Some c'
    \<and> channel_advance ZERO c' = Some ([], c') \<and> channel_advance (Tick 1) c' = Some (ps, c'')"
proof -
  obtain c where c: "channel_new seed CLEAN = Some c" "perfect c" "chan_inv {} c" "ch_payloads c = []"
    "ch_in_flight c = []" "ch_now c = ZERO" "base_delay (ch_profile c) = 1" by (rule clean_new)
  have t: "Tick 1 = tick_advance (ch_now c) (base_delay (ch_profile c))"
    using c by (simp add: tick_advance_def ZERO_def sat_add_def)
  obtain c' where s: "send_all ps c = Some c'" "ch_payloads c' = ps"
    "ch_in_flight c' = fifo_keys (Tick 1) (length ps)" "ch_now c' = ZERO"
    using perfect_send_all [OF c(2) _ t, of ps] assms c by auto
  obtain L where inv: "chan_inv L c'" using send_all_inv [OF c(3) s(1)] by blast
  have "channel_advance ZERO c' = Some ([], c')"
    using channel_advance_spec [OF inv, of ZERO] due_fifo(2) [of "c'\<lparr>ch_now := ZERO\<rparr>" "Tick 1"] s
    by (simp add: Let_def) (simp add: ZERO_def)
  moreover have "channel_advance (Tick 1) c' = Some (ps, after_due (c'\<lparr>ch_now := Tick 1\<rparr>))"
    using channel_advance_spec [OF inv, of "Tick 1"] due_fifo(1) [of "c'\<lparr>ch_now := Tick 1\<rparr>" "Tick 1"] s
    by (simp add: Let_def ZERO_def max_def)
  ultimately show ?thesis using c(1) s(1) by blast
qed

theorem clean_channel_is_fifo_witness:
  "\<exists>c c' c''. channel_new 9 CLEAN = Some c \<and> send_all [[1, 2], [3]] c = Some c'
    \<and> channel_advance ZERO c' = Some ([], c') \<and> channel_advance (Tick 1) c' = Some ([[1, 2], [3]], c'')"
  using clean_channel_is_fifo [of "[[1, 2], [3]]" 9] by simp

end
