(* ===== verification/Network.thy ===== *)
theory Network
  imports Channel_Props
begin

text \<open>
  The channel as the layers above it rely on it, in two contracts. \<open>frame_network\<close>: whatever faults a
  channel injects, what it hands over is a frame from the set of those sent or bytes the frame layer
  rejects, and neither sending nor advancing fails. \<open>delay_line\<close>: a channel with the clean profile is
  a queue that delays everything by one tick. Both are interpreted on the channel of
  \<^verbatim>\<open>crates/channel/src/lib.rs\<close>.
\<close>

section \<open>A network that forges no frame\<close>

definition is_frame :: "bytes \<Rightarrow> bool" where
  "is_frame p \<longleftrightarrow> (\<exists>f. p = frame_encode f \<and> length (payload f) < 2 ^ 32)"

locale frame_network =
  fixes net :: "bytes set \<Rightarrow> 'c \<Rightarrow> bool" and put :: "bytes \<Rightarrow> 'c \<Rightarrow> 'c option"
    and take_due :: "tick \<Rightarrow> 'c \<Rightarrow> (bytes list \<times> 'c) option"
  assumes net_mono: "net L c \<Longrightarrow> L \<subseteq> L' \<Longrightarrow> net L' c"
    and net_put: "net L c \<Longrightarrow> p \<in> L \<Longrightarrow> is_frame p \<Longrightarrow> \<exists>c'. put p c = Some c' \<and> net L c'"
    and net_take: "net L c \<Longrightarrow> \<forall>p \<in> L. is_frame p \<Longrightarrow>
      \<exists>out c'. take_due t c = Some (out, c') \<and> net L c' \<and> (\<forall>d \<in> set out. d \<in> L \<or> isl (frame_decode d))"
begin

lemma net_put_new:
  assumes "net L c" and "is_frame p"
  obtains c' where "put p c = Some c'" "net (insert p L) c'"
  using net_put [OF net_mono [OF assms(1)], of "insert p L" p] assms(2) by blast

lemma net_take_frames:
  assumes "net L c" and "\<forall>p \<in> L. is_frame p"
  obtains out c' where "take_due t c = Some (out, c')" "net L c'"
    "\<forall>d \<in> set out. \<forall>f. frame_decode d = Inr f \<longrightarrow> d \<in> L \<and> d = frame_encode f"
proof -
  obtain out c' where o: "take_due t c = Some (out, c')" "net L c'"
    "\<forall>d \<in> set out. d \<in> L \<or> isl (frame_decode d)" using net_take [OF assms] by blast
  have "\<forall>d \<in> set out. \<forall>f. frame_decode d = Inr f \<longrightarrow> d \<in> L \<and> d = frame_encode f"
    using o(3) frame_encode_decode by fastforce
  with o that show ?thesis by blast
qed

end

text \<open>The channels that are such a network: corruption and truncation do not compound on one datagram,
  and the reordering delay is not the largest \<open>u64\<close>.\<close>

definition carries :: "bytes set \<Rightarrow> channel \<Rightarrow> bool" where
  "carries L c \<longleftrightarrow> chan_inv L c \<and> single_fault c \<and> sane c"

definition tame :: "fault_profile \<Rightarrow> bool" where
  "tame p \<longleftrightarrow> (corruption p = Fin 0 \<or> truncation p = Fin 0) \<and> reorder_max_delay p \<noteq> - 1"

lemma tame_CLEAN: "tame CLEAN"
  by (simp add: tame_def CLEAN_def)

lemma is_frame_length: "is_frame p \<Longrightarrow> length p < 2 ^ 64"
  by (auto simp: is_frame_def)

lemma is_frame_encode: "length (payload f) < 2 ^ 32 \<Longrightarrow> is_frame (frame_encode f)"
  by (auto simp: is_frame_def)

interpretation chan_net: frame_network carries channel_send channel_advance
proof unfold_locales
  fix L L' c assume "carries L c" "L \<subseteq> L'"
  then show "carries L' c" by (auto simp: carries_def chan_inv_def intro: chan_wf_mono)
next
  fix L c p assume c: "carries L c" and p: "p \<in> L" "is_frame p"
  then obtain c' where s: "channel_send p c = Some c'"
    using channel_send_total [of c p] is_frame_length by (auto simp: carries_def)
  have "chan_inv (insert p L) c'" "same_env c c'"
    using channel_send_ok [OF _ s] c by (auto simp: carries_def)
  with c s p(1) show "\<exists>c'. channel_send p c = Some c' \<and> carries L c'"
    by (auto simp: carries_def insert_absorb sane_env) (auto simp: single_fault_def same_env_def)
next
  fix L c t assume c: "carries L c" and L: "\<forall>p \<in> L. is_frame p"
  obtain out c' where o: "channel_advance t c = Some (out, c')" "chan_inv L c'" "same_env c c'"
    "\<forall>d \<in> set out. \<exists>p \<in> L. may_emit c p d"
    by (rule channel_advance_ok [of L c t]) (use c in \<open>auto simp: carries_def\<close>)
  have "carries L c'"
    using c o(2,3) by (auto simp: carries_def sane_env) (auto simp: single_fault_def same_env_def)
  moreover have "\<forall>d \<in> set out. d \<in> L \<or> isl (frame_decode d)"
  proof
    fix d assume "d \<in> set out"
    then obtain p where p: "p \<in> L" "may_emit c p d" using o(4) by blast
    then obtain f where "p = frame_encode f" "length (payload f) < 2 ^ 32" using L by (auto simp: is_frame_def)
    then have "harmless p d" using p(2) c single_fault_harmless by (simp add: may_emit_def carries_def)
    with p(1) show "d \<in> L \<or> isl (frame_decode d)" by (auto simp: harmless_def)
  qed
  ultimately show "\<exists>out c'. channel_advance t c = Some (out, c') \<and> carries L c'
      \<and> (\<forall>d \<in> set out. d \<in> L \<or> isl (frame_decode d))"
    using o(1) by blast
qed

lemma carries_new:
  assumes "channel_new seed profile = Some c" and "tame profile"
  shows "carries {} c"
proof -
  have w: "with_script seed profile script_new = Some c" using assms(1) by (simp add: channel_new_def)
  show ?thesis
    using chan_inv_init [OF w] with_script_env [OF w] assms(2)
    by (auto simp: carries_def tame_def single_fault_def sane_def script_new_def)
qed

section \<open>A clean channel as a delay line\<close>

text \<open>\<open>holds m t ps c\<close>: at tick \<open>t\<close> the channel holds the datagrams \<open>ps\<close>, all due at the next tick,
  and has room for \<open>m\<close> more.\<close>

locale delay_line =
  fixes holds :: "nat \<Rightarrow> nat \<Rightarrow> bytes list \<Rightarrow> 'c \<Rightarrow> bool" and put :: "bytes \<Rightarrow> 'c \<Rightarrow> 'c option"
    and take_due :: "tick \<Rightarrow> 'c \<Rightarrow> (bytes list \<times> 'c) option"
  assumes holds_put: "holds (Suc m) t ps c \<Longrightarrow> \<exists>c'. put p c = Some c' \<and> holds m t (ps @ [p]) c'"
    and holds_take: "holds m t ps c \<Longrightarrow> Suc t < 2 ^ 64 \<Longrightarrow>
      \<exists>c'. take_due (Tick (word_of_nat (Suc t))) c = Some (ps, c') \<and> holds m (Suc t) [] c'"
begin

lemma holds_put_all:
  assumes "holds (m + length qs) t ps c"
  shows "\<exists>c'. foldl (\<lambda>r p. Option.bind r (put p)) (Some c) qs = Some c' \<and> holds m t (ps @ qs) c'"
  using assms
proof (induction qs arbitrary: ps c)
  case (Cons q qs)
  obtain c1 where "put q c = Some c1" "holds (m + length qs) t (ps @ [q]) c1"
    using holds_put [of "m + length qs" t ps c q] Cons.prems by auto
  then show ?case using Cons.IH [of "ps @ [q]" c1] by simp
qed simp

end

definition clean_holds :: "nat \<Rightarrow> nat \<Rightarrow> bytes list \<Rightarrow> channel \<Rightarrow> bool" where
  "clean_holds m t ps c \<longleftrightarrow>
    (let n = length (ch_payloads c); k = n - length ps in
     perfect c \<and> base_delay (ch_profile c) = 1 \<and> (\<exists>L. chan_inv L c)
     \<and> n + m < 2 ^ 64 \<and> length ps \<le> n \<and> t < 2 ^ 64 \<and> ch_now c = Tick (word_of_nat t)
     \<and> drop k (ch_payloads c) = ps
     \<and> ch_in_flight c = map (\<lambda>i. (tick_advance (ch_now c) 1, word_of_nat i, i)) [k..<n])"

lemma sorted_keys: "n \<le> 2 ^ 64 \<Longrightarrow> sorted (map (\<lambda>i. (t :: tick, word_of_nat i :: u64, i)) [k..<n])"
  using sorted_wrt_drop [OF sorted_fifo_keys [of n t], of k] by (simp add: drop_map)

lemma map_nth_upt: "map ((!) xs) [k..<length xs] = drop k xs"
  using drop_map [of k "(!) xs" "[0..<length xs]"] by (simp add: map_nth)

lemma clean_holds_send:
  assumes "clean_holds (Suc m) t ps c"
  shows "\<exists>c'. channel_send p c = Some c' \<and> clean_holds m t (ps @ [p]) c'"
proof -
  let ?n = "length (ch_payloads c)"
  let ?t = "tick_advance (ch_now c) 1"
  let ?k = "?n - length ps"
  have h: "perfect c" "base_delay (ch_profile c) = 1" "?n + Suc m < 2 ^ 64" "length ps \<le> ?n" "t < 2 ^ 64"
    "ch_now c = Tick (word_of_nat t)" "drop ?k (ch_payloads c) = ps"
    "ch_in_flight c = map (\<lambda>i. (?t, word_of_nat i, i)) [?k..<?n]"
    using assms by (simp_all add: clean_holds_def Let_def)
  obtain c' where s: "channel_send p c = Some c'" "ch_payloads c' = ch_payloads c @ [p]"
    "ch_now c' = ch_now c" "perfect c'" "base_delay (ch_profile c') = 1"
    "ch_in_flight c' = heap_push (?t, word_of_nat ?n, ?n) (ch_in_flight c)"
    using perfect_send [OF h(1), of p] h(1,2) by (auto simp: perfect_def)
  obtain L where "chan_inv L c" using assms by (auto simp: clean_holds_def Let_def)
  then have inv: "\<exists>L. chan_inv L c'" using channel_send_ok(1) s(1) by blast
  have "heap_push (?t, word_of_nat ?n, ?n) (ch_in_flight c) = map (\<lambda>i. (?t, word_of_nat i, i)) [?k..<Suc ?n]"
    using sorted_keys [of "Suc ?n" ?t ?k] h(3) by (simp add: h(8) heap_push_last)
  then have "ch_in_flight c' = map (\<lambda>i. (?t, word_of_nat i, i)) [?k..<Suc ?n]" using s(6) by simp
  moreover have "drop ?k (ch_payloads c @ [p]) = ps @ [p]" using h(7) by simp
  ultimately have "clean_holds m t (ps @ [p]) c'"
    unfolding clean_holds_def Let_def using h(3-6) s(2-5) inv by simp
  with s(1) show ?thesis by blast
qed

lemma clean_holds_advance:
  assumes "clean_holds m t ps c" and "Suc t < 2 ^ 64"
  shows "\<exists>c'. channel_advance (Tick (word_of_nat (Suc t))) c = Some (ps, c') \<and> clean_holds m (Suc t) [] c'"
proof -
  let ?n = "length (ch_payloads c)"
  let ?k = "?n - length ps"
  let ?t = "Tick (word_of_nat (Suc t))"
  let ?c = "c\<lparr>ch_now := ?t\<rparr>"
  have h: "perfect c" "base_delay (ch_profile c) = 1" "?n + m < 2 ^ 64" "length ps \<le> ?n"
    "ch_now c = Tick (word_of_nat t)" "drop ?k (ch_payloads c) = ps"
    "ch_in_flight c = map (\<lambda>i. (tick_advance (ch_now c) 1, word_of_nat i, i)) [?k..<?n]"
    using assms by (simp_all add: clean_holds_def Let_def)
  have u: "unat (word_of_nat t :: u64) = t" "unat (word_of_nat (Suc t) :: u64) = Suc t"
    using assms(2) by (simp_all only: unat_of_nat) (simp_all del: of_nat_Suc)
  have t: "tick_advance (ch_now c) 1 = ?t" "max (ch_now c) ?t = ?t"
    using u assms(2) by (simp_all add: h(5) tick_advance_def sat_add_def max_def less_eq_tick_def word_le_nat_alt del: of_nat_Suc)
      (simp add: add.commute)
  obtain L where L: "chan_inv L c" using assms by (auto simp: clean_holds_def Let_def)
  have due: "due ?c = ch_in_flight c" by (auto simp: due_def filter_id_conv h(7) t(1))
  have "map (\<lambda>k. ch_payloads c ! snd (snd k)) (ch_in_flight c) = ps"
    using map_nth_upt [of "ch_payloads c" ?k] h(6) by (simp add: h(7) comp_def)
  then have adv: "channel_advance ?t c = Some (ps, after_due ?c)"
    using channel_advance_spec [OF L, of ?t] by (simp add: t(2) due Let_def del: of_nat_Suc)
  have "\<exists>L. chan_inv L (after_due ?c)" using after_due_ok chan_inv_now L by blast
  moreover have "ch_in_flight (after_due ?c) = []"
    by (auto simp: after_due_def filter_empty_conv h(7) t(1))
  moreover have "length (ch_payloads (after_due ?c)) = ?n" by (simp add: after_due_def fold_clear)
  ultimately have "clean_holds m (Suc t) [] (after_due ?c)"
    using h(1-3) assms(2) by (simp add: clean_holds_def) (simp add: after_due_def perfect_def)
  with adv show ?thesis by blast
qed

lemma clean_holds_mono: "clean_holds m t ps c \<Longrightarrow> m' \<le> m \<Longrightarrow> clean_holds m' t ps c"
  by (auto simp: clean_holds_def Let_def)

interpretation clean_line: delay_line clean_holds channel_send channel_advance
  by unfold_locales (simp_all only: clean_holds_send clean_holds_advance)

lemma clean_holds_new:
  assumes "channel_new seed CLEAN = Some c" and "m < 2 ^ 64"
  shows "clean_holds m 0 [] c"
proof -
  obtain c' where "channel_new seed CLEAN = Some c'" "perfect c'" "chan_inv {} c'" "ch_payloads c' = []"
    "ch_in_flight c' = []" "ch_now c' = ZERO" "base_delay (ch_profile c') = 1" by (rule clean_new)
  with assms show ?thesis by (auto simp: clean_holds_def ZERO_def)
qed

end
