(* ===== verification/Baselines.thy ===== *)
theory Baselines
  imports Network "HOL-Library.Monad_Syntax"
begin

text \<open>
  The two textbook protocols of \<^verbatim>\<open>crates/workload/src/baselines.rs\<close>, stop-and-wait and go-back-N,
  built directly on the frame codec and two channels. One pass of each \<open>loop\<close> is a function on a
  record of the locals of the Rust function; the loop itself ends at \<open>max_ticks\<close> at the latest. None
  stands for a panic.
\<close>

section \<open>Frames and configuration\<close>

definition ARQ_FLAG_ACK :: u16 where "ARQ_FLAG_ACK = 1"

record arq_config =
  aq_segment_size :: nat
  aq_rto :: u64
  aq_max_retries :: u32

record run_result =
  rr_delivered :: bytes
  rr_ticks_used :: u64
  rr_completed :: bool

definition data_frame :: "u32 \<Rightarrow> bytes \<Rightarrow> bytes" where
  "data_frame seq p = frame_encode \<lparr>frame_type = 0, sequence = seq, flags = 0, payload = p\<rparr>"

definition ack_frame :: "u32 \<Rightarrow> bytes" where
  "ack_frame next_expected =
     frame_encode \<lparr>frame_type = 0, sequence = next_expected, flags = ARQ_FLAG_ACK, payload = []\<rparr>"

text \<open>\<open>slice::chunks\<close>; both callers pass a size of at least 1.\<close>

function chunks :: "nat \<Rightarrow> bytes \<Rightarrow> bytes list" where
  "chunks n xs = (if xs = [] \<or> n = 0 then [] else take n xs # chunks n (drop n xs))"
  by pat_completeness auto
termination by (relation "measure (\<lambda>(n, xs). length xs)") auto

declare chunks.simps [simp del]

text \<open>The receiver, the same loop in both functions: deliver what comes next, acknowledge everything.\<close>

fun arq_receive :: "bytes list \<Rightarrow> u32 \<Rightarrow> bytes \<Rightarrow> channel \<Rightarrow> (u32 \<times> bytes \<times> channel) option" where
  "arq_receive [] expected delivered back = Some (expected, delivered, back)"
| "arq_receive (datagram # ds) expected delivered back =
    (case frame_decode datagram of
       Inl _ \<Rightarrow> arq_receive ds expected delivered back
     | Inr f \<Rightarrow>
        let (expected, delivered) =
          (if sequence f = expected then (expected + 1, delivered @ payload f) else (expected, delivered))
        in do {
          back \<leftarrow> channel_send (ack_frame expected) back;
          arq_receive ds expected delivered back
        })"

section \<open>Stop-and-wait\<close>

record saw =
  sw_fwd :: channel
  sw_back :: channel
  sw_next_seq :: u32
  sw_unacked :: "(u32 \<times> bytes \<times> tick) option"
  sw_retries :: u32
  sw_expected :: u32
  sw_delivered :: bytes

definition saw_ack :: "bytes \<Rightarrow> saw \<Rightarrow> saw" where
  "saw_ack datagram s =
    (case frame_decode datagram of
       Inl _ \<Rightarrow> s
     | Inr f \<Rightarrow>
        if flags f AND ARQ_FLAG_ACK \<noteq> 0
        then case sw_unacked s of
            None \<Rightarrow> s
          | Some (seq, _, _) \<Rightarrow>
             if sequence f = seq + 1 then s\<lparr>sw_unacked := None, sw_retries := 0\<rparr> else s
        else s)"

text \<open>The sending half of a pass; the flag says that the retries are exhausted.\<close>

definition saw_transmit :: "arq_config \<Rightarrow> bytes list \<Rightarrow> tick \<Rightarrow> saw \<Rightarrow> (bool \<times> saw) option" where
  "saw_transmit cfg cs now s =
    (if sw_unacked s = None \<and> unat (sw_next_seq s) < length cs
     then let chunk = cs ! unat (sw_next_seq s) in do {
       fwd \<leftarrow> channel_send (data_frame (sw_next_seq s) chunk) (sw_fwd s);
       Some (False, s\<lparr>sw_fwd := fwd, sw_unacked := Some (sw_next_seq s, chunk, now),
                      sw_next_seq := sw_next_seq s + 1\<rparr>)
     }
     else case sw_unacked s of
       None \<Rightarrow> Some (False, s)
     | Some (seq, chunk, sent_at) \<Rightarrow>
        if aq_rto cfg \<le> tick_sub now sent_at
        then let s = s\<lparr>sw_retries := sw_retries s + 1\<rparr> in
          if aq_max_retries cfg < sw_retries s then Some (True, s)
          else do {
            fwd \<leftarrow> channel_send (data_frame seq chunk) (sw_fwd s);
            Some (False, s\<lparr>sw_fwd := fwd, sw_unacked := Some (seq, chunk, now)\<rparr>)
          }
        else Some (False, s))"

definition saw_pass :: "arq_config \<Rightarrow> bytes list \<Rightarrow> tick \<Rightarrow> saw \<Rightarrow> (bool \<times> saw) option" where
  "saw_pass cfg cs now s = do {
     (arrived, fwd) \<leftarrow> channel_advance now (sw_fwd s);
     (expected, delivered, back) \<leftarrow> arq_receive arrived (sw_expected s) (sw_delivered s) (sw_back s);
     (acks, back) \<leftarrow> channel_advance now back;
     let s = fold saw_ack acks
       (s\<lparr>sw_fwd := fwd, sw_back := back, sw_expected := expected, sw_delivered := delivered\<rparr>);
     saw_transmit cfg cs now s
   }"

definition saw_done :: "bytes list \<Rightarrow> saw \<Rightarrow> bool" where
  "saw_done cs s \<longleftrightarrow> sw_unacked s = None \<and> unat (sw_next_seq s) = length cs"

definition saw_result :: "saw \<Rightarrow> u64 \<Rightarrow> bool \<Rightarrow> run_result" where
  "saw_result s tick completed =
     \<lparr>rr_delivered = sw_delivered s, rr_ticks_used = tick, rr_completed = completed\<rparr>"

function saw_loop :: "arq_config \<Rightarrow> bytes list \<Rightarrow> u64 \<Rightarrow> u64 \<Rightarrow> saw \<Rightarrow> (run_result \<times> saw) option" where
  "saw_loop cfg cs max_ticks tick s =
    (case saw_pass cfg cs (Tick (tick + 1)) s of
       None \<Rightarrow> None
     | Some (gave_up, s) \<Rightarrow>
        if gave_up then Some (saw_result s (tick + 1) False, s)
        else if saw_done cs s \<or> max_ticks \<le> tick + 1
        then Some (saw_result s (tick + 1) (saw_done cs s), s)
        else saw_loop cfg cs max_ticks (tick + 1) s)"
  by pat_completeness auto
termination
  by (relation "measure (\<lambda>(cfg, cs, m, t, s). unat (m - (t + 1)))") (auto simp: loop_measure)

declare saw_loop.simps [simp del]

definition run_stop_and_wait ::
  "bytes \<Rightarrow> channel \<Rightarrow> channel \<Rightarrow> arq_config \<Rightarrow> u64 \<Rightarrow> (run_result \<times> channel \<times> channel) option" where
  "run_stop_and_wait data fwd back cfg max_ticks =
     map_option (\<lambda>(r, s). (r, sw_fwd s, sw_back s))
       (saw_loop cfg (chunks (max (aq_segment_size cfg) 1) data) max_ticks 0
          \<lparr>sw_fwd = fwd, sw_back = back, sw_next_seq = 0, sw_unacked = None, sw_retries = 0,
           sw_expected = 0, sw_delivered = []\<rparr>)"

section \<open>Go-back-N\<close>

record gbn =
  gb_fwd :: channel
  gb_back :: channel
  gb_base :: u32
  gb_next_seq :: u32
  gb_oldest_sent_at :: "tick option"
  gb_retries :: u32
  gb_expected :: u32
  gb_delivered :: bytes

definition gbn_ack :: "tick \<Rightarrow> bytes \<Rightarrow> gbn \<Rightarrow> gbn" where
  "gbn_ack now datagram s =
    (case frame_decode datagram of
       Inl _ \<Rightarrow> s
     | Inr f \<Rightarrow>
        if flags f AND ARQ_FLAG_ACK \<noteq> 0 \<and> gb_base s < sequence f
        then s\<lparr>gb_base := sequence f, gb_retries := 0,
               gb_oldest_sent_at := (if sequence f < gb_next_seq s then Some now else None)\<rparr>
        else s)"

text \<open>Filling the window.\<close>

lemma fill_measure: "n < m \<Longrightarrow> unat n < k \<Longrightarrow> k - unat (n + 1) < k - unat n"
  for n m :: "'a::len word"
  by (simp add: unat_incr)

function gbn_fill :: "bytes list \<Rightarrow> nat \<Rightarrow> tick \<Rightarrow> gbn \<Rightarrow> gbn option" where
  "gbn_fill cs window now s =
    (if gb_next_seq s < gb_base s + word_of_nat window \<and> unat (gb_next_seq s) < length cs
     then case channel_send (data_frame (gb_next_seq s) (cs ! unat (gb_next_seq s))) (gb_fwd s) of
         None \<Rightarrow> None
       | Some fwd \<Rightarrow> gbn_fill cs window now (s\<lparr>gb_fwd := fwd,
           gb_oldest_sent_at := (case gb_oldest_sent_at s of None \<Rightarrow> Some now | Some t \<Rightarrow> Some t),
           gb_next_seq := gb_next_seq s + 1\<rparr>)
     else Some s)"
  by pat_completeness auto
termination
  by (relation "measure (\<lambda>(cs, w, now, s). length cs - unat (gb_next_seq s))") (auto simp: fill_measure)

declare gbn_fill.simps [simp del]

text \<open>Retransmission of the whole window.\<close>

fun gbn_resend :: "bytes list \<Rightarrow> nat list \<Rightarrow> channel \<Rightarrow> channel option" where
  "gbn_resend cs [] fwd = Some fwd"
| "gbn_resend cs (i # is) fwd =
    (if i < length cs
     then case channel_send (data_frame (word_of_nat i) (cs ! i)) fwd of
         None \<Rightarrow> None
       | Some fwd \<Rightarrow> gbn_resend cs is fwd
     else None)"

definition gbn_timeout :: "arq_config \<Rightarrow> bytes list \<Rightarrow> tick \<Rightarrow> gbn \<Rightarrow> (bool \<times> gbn) option" where
  "gbn_timeout cfg cs now s =
    (case gb_oldest_sent_at s of
       None \<Rightarrow> Some (False, s)
     | Some sent_at \<Rightarrow>
        if aq_rto cfg \<le> tick_sub now sent_at
        then let s = s\<lparr>gb_retries := gb_retries s + 1\<rparr> in
          if aq_max_retries cfg < gb_retries s then Some (True, s)
          else do {
            fwd \<leftarrow> gbn_resend cs [unat (gb_base s)..<unat (gb_next_seq s)] (gb_fwd s);
            Some (False, s\<lparr>gb_fwd := fwd, gb_oldest_sent_at := Some now\<rparr>)
          }
        else Some (False, s))"

definition gbn_pass :: "arq_config \<Rightarrow> bytes list \<Rightarrow> nat \<Rightarrow> tick \<Rightarrow> gbn \<Rightarrow> (bool \<times> gbn) option" where
  "gbn_pass cfg cs window now s = do {
     (arrived, fwd) \<leftarrow> channel_advance now (gb_fwd s);
     (expected, delivered, back) \<leftarrow> arq_receive arrived (gb_expected s) (gb_delivered s) (gb_back s);
     (acks, back) \<leftarrow> channel_advance now back;
     let s = fold (gbn_ack now) acks
       (s\<lparr>gb_fwd := fwd, gb_back := back, gb_expected := expected, gb_delivered := delivered\<rparr>);
     s \<leftarrow> gbn_fill cs window now s;
     gbn_timeout cfg cs now s
   }"

definition gbn_done :: "bytes list \<Rightarrow> gbn \<Rightarrow> bool" where
  "gbn_done cs s \<longleftrightarrow> unat (gb_base s) = length cs"

definition gbn_result :: "gbn \<Rightarrow> u64 \<Rightarrow> bool \<Rightarrow> run_result" where
  "gbn_result s tick completed =
     \<lparr>rr_delivered = gb_delivered s, rr_ticks_used = tick, rr_completed = completed\<rparr>"

function gbn_loop :: "arq_config \<Rightarrow> bytes list \<Rightarrow> nat \<Rightarrow> u64 \<Rightarrow> u64 \<Rightarrow> gbn \<Rightarrow> (run_result \<times> gbn) option" where
  "gbn_loop cfg cs window max_ticks tick s =
    (case gbn_pass cfg cs window (Tick (tick + 1)) s of
       None \<Rightarrow> None
     | Some (gave_up, s) \<Rightarrow>
        if gave_up then Some (gbn_result s (tick + 1) False, s)
        else if gbn_done cs s \<or> max_ticks \<le> tick + 1
        then Some (gbn_result s (tick + 1) (gbn_done cs s), s)
        else gbn_loop cfg cs window max_ticks (tick + 1) s)"
  by pat_completeness auto
termination
  by (relation "measure (\<lambda>(cfg, cs, w, m, t, s). unat (m - (t + 1)))") (auto simp: loop_measure)

declare gbn_loop.simps [simp del]

definition run_go_back_n ::
  "bytes \<Rightarrow> channel \<Rightarrow> channel \<Rightarrow> arq_config \<Rightarrow> nat \<Rightarrow> u64 \<Rightarrow> (run_result \<times> channel \<times> channel) option" where
  "run_go_back_n data fwd back cfg window max_ticks =
     map_option (\<lambda>(r, s). (r, gb_fwd s, gb_back s))
       (gbn_loop cfg (chunks (max (aq_segment_size cfg) 1) data) window max_ticks 0
          \<lparr>gb_fwd = fwd, gb_back = back, gb_base = 0, gb_next_seq = 0, gb_oldest_sent_at = None,
           gb_retries = 0, gb_expected = 0, gb_delivered = []\<rparr>)"

end
