(* ===== verification/Baselines_Props.thy ===== *)
theory Baselines_Props
  imports Baselines
begin

text \<open>
  Correctness of the baseline protocols: over channels that forge no frame they deliver a prefix of
  the data, all of it when they report completion, and never panic; over clean channels they complete
  in exactly the number of ticks their scheme promises.
\<close>

section \<open>Chunks\<close>

lemma chunks_Nil [simp]: "chunks n [] = []"
  by (simp add: chunks.simps)

lemma concat_chunks: "0 < n \<Longrightarrow> concat (chunks n xs) = xs"
proof (induction n xs rule: chunks.induct)
  case (1 n xs)
  then show ?case by (cases "xs = []") (simp_all add: chunks.simps [of n xs])
qed

lemma chunk_bounds: "0 < n \<Longrightarrow> c \<in> set (chunks n xs) \<Longrightarrow> 0 < length c \<and> length c \<le> length xs"
proof (induction n xs rule: chunks.induct)
  case (1 n xs)
  then show ?case by (cases "xs = []") (auto simp: chunks.simps [of n xs])
qed

lemma length_chunks: "0 < n \<Longrightarrow> length (chunks n xs) = (length xs + n - 1) div n"
proof (induction n xs rule: chunks.induct)
  case (1 n xs)
  show ?case
  proof (cases "xs = []")
    case False
    then have "length (chunks n xs) = Suc ((length xs - n + n - 1) div n)"
      using 1 by (simp add: chunks.simps [of n xs])
    also have "\<dots> = (length xs + n - 1) div n"
    proof (cases "n \<le> length xs")
      case True
      then obtain k where k: "length xs = n + k" by (metis le_Suc_ex)
      obtain m where m: "n = Suc m" using "1.prems" gr0_implies_Suc by blast
      have "(k + m + n) div n = Suc ((k + m) div n)" using m div_add_self2 [of n "k + m"] by simp
      then show ?thesis using k m by (simp add: ac_simps)
    next
      case less: False
      then have "(length xs + n - 1) div n = 1"
        using False "1.prems" by (intro div_nat_eqI) (cases xs; auto)+
      then show ?thesis using less "1.prems" by simp
    qed
    finally show ?thesis .
  qed (use 1 in simp)
qed

lemma length_chunks_le: "0 < n \<Longrightarrow> length (chunks n xs) \<le> length xs"
proof (induction n xs rule: chunks.induct)
  case (1 n xs)
  show ?case
  proof (cases "xs = []")
    case False
    then have "length xs - n < length xs" using "1.prems" by simp
    moreover have "length (chunks n (drop n xs)) \<le> length xs - n" using 1 False by simp
    ultimately show ?thesis using False "1.prems" by (simp add: chunks.simps [of n xs] del: diff_less)
  qed simp
qed

text \<open>The chunks of data that is short enough for 32-bit numbering.\<close>

definition fits :: "bytes list \<Rightarrow> bool" where
  "fits cs \<longleftrightarrow> length cs < 2 ^ 32 \<and> (\<forall>c \<in> set cs. length c < 2 ^ 32)"

lemma fits_chunks:
  assumes "length xs < 2 ^ 32" and "0 < n"
  shows "fits (chunks n xs)"
proof -
  have "length (chunks n xs) \<le> length xs" using assms(2) by (rule length_chunks_le)
  then show ?thesis using assms chunk_bounds [OF assms(2), of _ xs] by (fastforce simp: fits_def)
qed

section \<open>The receiver\<close>

definition data_frames :: "bytes list \<Rightarrow> nat \<Rightarrow> bytes set" where
  "data_frames cs n = {data_frame (word_of_nat k) (cs ! k) | k. k < n}"

definition ack_frames :: "nat \<Rightarrow> bytes set" where
  "ack_frames n = {ack_frame (word_of_nat k) | k. k \<le> n}"

lemma decode_data_frame: "length p < 2 ^ 32 \<Longrightarrow>
    frame_decode (data_frame q p) = Inr \<lparr>frame_type = 0, sequence = q, flags = 0, payload = p\<rparr>"
  by (simp add: data_frame_def frame_decode_encode)

lemma decode_ack_frame:
  "frame_decode (ack_frame q) = Inr \<lparr>frame_type = 0, sequence = q, flags = ARQ_FLAG_ACK, payload = []\<rparr>"
  by (simp add: ack_frame_def frame_decode_encode)

lemma frames_are_frames:
  "fits cs \<Longrightarrow> n \<le> length cs \<Longrightarrow> \<forall>p \<in> data_frames cs n. is_frame p"
  "\<forall>p \<in> ack_frames m. is_frame p"
  by (auto simp: data_frames_def ack_frames_def data_frame_def ack_frame_def fits_def intro!: is_frame_encode)

lemma frames_mono: "n \<le> n' \<Longrightarrow> data_frames cs n \<subseteq> data_frames cs n'" "n \<le> n' \<Longrightarrow> ack_frames n \<subseteq> ack_frames n'"
  by (fastforce simp: data_frames_def ack_frames_def)+

lemma u32_unat [simp]: "n < 2 ^ 32 \<Longrightarrow> unat (word_of_nat n :: u32) = n"
  by (simp only: unat_of_nat) simp

lemma u32_eq: "m < 2 ^ 32 \<Longrightarrow> n < 2 ^ 32 \<Longrightarrow> (word_of_nat m :: u32) = word_of_nat n \<longleftrightarrow> m = n"
  using u32_unat by metis

lemma send_ack:
  assumes "carries (ack_frames n) bk"
  obtains bk' where "channel_send (ack_frame (word_of_nat n)) bk = Some bk'" "carries (ack_frames n) bk'"
  using chan_net.net_put [OF assms, of "ack_frame (word_of_nat n)"] frames_are_frames(2) [of n]
  by (force simp: ack_frames_def)

lemma send_data:
  assumes "carries (data_frames cs n) fwd" and "k < n" and "n \<le> length cs" and "fits cs"
  obtains fwd' where "channel_send (data_frame (word_of_nat k) (cs ! k)) fwd = Some fwd'"
    "carries (data_frames cs n) fwd'"
  using chan_net.net_put [OF assms(1), of "data_frame (word_of_nat k) (cs ! k)"]
    frames_are_frames(1) [OF assms(4,3)] assms(2) by (force simp: data_frames_def)

text \<open>Whatever data frames arrive, the receiver's data stays the concatenation of the first chunks.\<close>

lemma arq_receive_ok:
  assumes "fits cs" and "n \<le> length cs" and "e \<le> n" and "carries (ack_frames e) bk"
    and "\<forall>d \<in> set ds. \<forall>f. frame_decode d = Inr f \<longrightarrow> d \<in> data_frames cs n"
  shows "\<exists>e' bk'. arq_receive ds (word_of_nat e) (concat (take e cs)) bk
      = Some (word_of_nat e', concat (take e' cs), bk') \<and> e \<le> e' \<and> e' \<le> n \<and> carries (ack_frames e') bk'"
  using assms(3,4,5)
proof (induction ds arbitrary: e bk)
  case (Cons d ds)
  show ?case
  proof (cases "frame_decode d")
    case (Inl err)
    then show ?thesis using Cons by simp
  next
    case (Inr f)
    then obtain k where k: "k < n" "d = data_frame (word_of_nat k) (cs ! k)"
      using Cons.prems(3) by (auto simp: data_frames_def)
    then have f: "sequence f = word_of_nat k" "payload f = cs ! k"
      using Inr assms(1,2) by (auto simp: decode_data_frame fits_def)
    define e1 where "e1 = (if k = e then Suc e else e)"
    have step: "(if sequence f = word_of_nat e then (word_of_nat e + 1, concat (take e cs) @ payload f)
        else (word_of_nat e, concat (take e cs))) = (word_of_nat e1, concat (take e1 cs))"
      using k f Cons.prems(1) assms(1,2) u32_eq [of k e]
      by (auto simp: e1_def fits_def take_Suc_conv_app_nth add.commute)
    have e1: "e \<le> e1" "e1 \<le> n" using k Cons.prems(1) by (auto simp: e1_def)
    then have "carries (ack_frames e1) bk"
      using chan_net.net_mono [OF Cons.prems(2) frames_mono(2)] by blast
    then obtain back1 where b: "channel_send (ack_frame (word_of_nat e1)) bk = Some back1"
      "carries (ack_frames e1) back1" by (rule send_ack)
    have "arq_receive (d # ds) (word_of_nat e) (concat (take e cs)) bk
        = arq_receive ds (word_of_nat e1) (concat (take e1 cs)) back1"
      using Inr b(1) by (simp add: step)
    moreover obtain e' bk' where "arq_receive ds (word_of_nat e1) (concat (take e1 cs)) back1
        = Some (word_of_nat e', concat (take e' cs), bk')" "e1 \<le> e'" "e' \<le> n" "carries (ack_frames e') bk'"
      using Cons.IH [OF e1(2) b(2)] Cons.prems(3) by auto
    ultimately show ?thesis using e1(1) by auto
  qed
qed auto

text \<open>The first half of a pass of either protocol: data arrives, acknowledgements go out and arrive.\<close>

lemma arq_exchange:
  assumes "fits cs" and "n \<le> length cs" and "e \<le> n"
    and "carries (data_frames cs n) fwd" and "carries (ack_frames e) bk"
  obtains ds fwd' e' bk1 as bk' where "channel_advance now fwd = Some (ds, fwd')" "carries (data_frames cs n) fwd'"
    "arq_receive ds (word_of_nat e) (concat (take e cs)) bk = Some (word_of_nat e', concat (take e' cs), bk1)"
    "e \<le> e'" "e' \<le> n" "channel_advance now bk1 = Some (as, bk')" "carries (ack_frames e') bk'"
    "\<forall>d \<in> set as. \<forall>f. frame_decode d = Inr f \<longrightarrow> d \<in> ack_frames e'"
proof -
  obtain ds fwd' where f: "channel_advance now fwd = Some (ds, fwd')" "carries (data_frames cs n) fwd'"
    "\<forall>d \<in> set ds. \<forall>f. frame_decode d = Inr f \<longrightarrow> d \<in> data_frames cs n"
    by (rule chan_net.net_take_frames [OF assms(4) frames_are_frames(1) [OF assms(1,2)]]) blast
  obtain e' bk1 where r: "arq_receive ds (word_of_nat e) (concat (take e cs)) bk
      = Some (word_of_nat e', concat (take e' cs), bk1)" "e \<le> e'" "e' \<le> n" "carries (ack_frames e') bk1"
    using arq_receive_ok [OF assms(1-3,5) f(3)] by blast
  obtain as bk' where b: "channel_advance now bk1 = Some (as, bk')" "carries (ack_frames e') bk'"
    "\<forall>d \<in> set as. \<forall>f. frame_decode d = Inr f \<longrightarrow> d \<in> ack_frames e'"
    by (rule chan_net.net_take_frames [OF r(4) frames_are_frames(2)]) blast
  show ?thesis by (rule that [OF f(1,2) r(1-3) b])
qed

section \<open>Stop-and-wait\<close>

text \<open>A state after \<open>n\<close> segments sent and \<open>e\<close> of them received.\<close>

definition saw_at :: "bytes list \<Rightarrow> nat \<Rightarrow> nat \<Rightarrow> saw \<Rightarrow> bool" where
  "saw_at cs e n s \<longleftrightarrow>
     sw_expected s = word_of_nat e \<and> sw_next_seq s = word_of_nat n \<and> e \<le> n \<and> n \<le> length cs
     \<and> sw_delivered s = concat (take e cs)
     \<and> carries (data_frames cs n) (sw_fwd s) \<and> carries (ack_frames e) (sw_back s)
     \<and> (case sw_unacked s of
          None \<Rightarrow> e = n
        | Some (q, p, _) \<Rightarrow> \<exists>m. n = Suc m \<and> q = word_of_nat m \<and> p = cs ! m \<and> m \<le> e)"

lemma saw_ack_ok:
  assumes "fits cs" and "saw_at cs e n s" and "\<forall>f. frame_decode d = Inr f \<longrightarrow> d \<in> ack_frames e"
  shows "saw_at cs e n (saw_ack d s)"
proof (cases "saw_ack d s = s")
  case False
  then obtain f q p t where f: "frame_decode d = Inr f" "sw_unacked s = Some (q, p, t)" "sequence f = q + 1"
    "saw_ack d s = s\<lparr>sw_unacked := None, sw_retries := 0\<rparr>"
    by (auto simp: saw_ack_def split: sum.splits option.splits if_splits)
  then have i: "e \<le> n" "n \<le> length cs" "q + 1 = word_of_nat n" using assms(2) by (auto simp: saw_at_def)
  obtain k where "k \<le> e" "sequence f = word_of_nat k"
    using assms(3) f(1) by (auto simp: ack_frames_def decode_ack_frame)
  then have "e = n" using f(3) i assms(1) u32_eq [of k n] by (simp add: fits_def)
  then show ?thesis using assms(2) f(4) by (auto simp: saw_at_def)
qed (use assms in simp)

lemma fold_saw_ack_ok:
  assumes "fits cs" and "saw_at cs e n s" and "\<forall>d \<in> set ds. \<forall>f. frame_decode d = Inr f \<longrightarrow> d \<in> ack_frames e"
  shows "saw_at cs e n (fold saw_ack ds s)"
  using assms(2,3) by (induction ds arbitrary: s) (simp_all add: saw_ack_ok [OF assms(1)])

lemma saw_transmit_ok:
  assumes "fits cs" and "saw_at cs e n s"
  shows "\<exists>b n' s'. saw_transmit cfg cs now s = Some (b, s') \<and> saw_at cs e n' s'"
proof -
  have i: "e \<le> n" "n \<le> length cs" "length cs < 2 ^ 32" "unat (sw_next_seq s) = n"
    using assms by (auto simp: saw_at_def fits_def)
  show ?thesis
  proof (cases "sw_unacked s")
    case None
    show ?thesis
    proof (cases "n < length cs")
      case True
      have "carries (data_frames cs (Suc n)) (sw_fwd s)"
        using assms(2) chan_net.net_mono [OF _ frames_mono(1)] by (auto simp: saw_at_def)
      then obtain fwd where fwd: "channel_send (data_frame (word_of_nat n) (cs ! n)) (sw_fwd s) = Some fwd"
        "carries (data_frames cs (Suc n)) fwd"
        using send_data [of cs "Suc n" "sw_fwd s" n] True assms(1) by auto
      let ?s = "s\<lparr>sw_fwd := fwd, sw_unacked := Some (word_of_nat n, cs ! n, now),
        sw_next_seq := word_of_nat (Suc n)\<rparr>"
      have "saw_transmit cfg cs now s = Some (False, ?s)"
        using assms(2) None True i(4) fwd(1)
        by (simp add: saw_transmit_def saw_at_def Let_def add.commute)
      moreover have "saw_at cs e (Suc n) ?s"
        using assms(2) None True fwd(2) by (auto simp: saw_at_def)
      ultimately show ?thesis by blast
    qed (use None assms(2) i(4) in \<open>auto simp: saw_transmit_def\<close>)
  next
    case (Some u)
    then obtain m t where u: "u = (word_of_nat m, cs ! m, t)" "n = Suc m" using assms(2) by (auto simp: saw_at_def)
    obtain fwd where fwd: "channel_send (data_frame (word_of_nat m) (cs ! m)) (sw_fwd s) = Some fwd"
      "carries (data_frames cs n) fwd"
      using send_data [of cs n "sw_fwd s" m] u(2) i(2) assms by (auto simp: saw_at_def)
    have "saw_at cs e n (s\<lparr>sw_retries := k\<rparr>)"
      "saw_at cs e n (s\<lparr>sw_retries := k, sw_fwd := fwd, sw_unacked := Some (word_of_nat m, cs ! m, now)\<rparr>)" for k
      using assms(2) Some u fwd(2) by (auto simp: saw_at_def)
    with fwd(1) Some u assms(2) show ?thesis by (auto simp: saw_transmit_def Let_def)
  qed
qed

lemma saw_pass_ok:
  assumes "fits cs" and "saw_at cs e n s"
  shows "\<exists>b e' n' s'. saw_pass cfg cs now s = Some (b, s') \<and> saw_at cs e' n' s'"
proof -
  have i: "carries (data_frames cs n) (sw_fwd s)" "carries (ack_frames e) (sw_back s)" "e \<le> n" "n \<le> length cs"
    "sw_expected s = word_of_nat e" "sw_delivered s = concat (take e cs)"
    using assms(2) by (auto simp: saw_at_def)
  obtain ds fwd e' bk as bk' where x: "channel_advance now (sw_fwd s) = Some (ds, fwd)"
    "carries (data_frames cs n) fwd" "arq_receive ds (word_of_nat e) (concat (take e cs)) (sw_back s)
      = Some (word_of_nat e', concat (take e' cs), bk)" "e \<le> e'" "e' \<le> n"
    "channel_advance now bk = Some (as, bk')" "carries (ack_frames e') bk'"
    "\<forall>d \<in> set as. \<forall>f. frame_decode d = Inr f \<longrightarrow> d \<in> ack_frames e'"
    by (rule arq_exchange [OF assms(1) i(4,3,1,2)])
  let ?s = "s\<lparr>sw_fwd := fwd, sw_back := bk', sw_expected := word_of_nat e', sw_delivered := concat (take e' cs)\<rparr>"
  have "saw_at cs e' n ?s"
    using assms(2) x(2,4,5,7) by (auto simp: saw_at_def split: option.splits)
  then have "saw_at cs e' n (fold saw_ack as ?s)" by (rule fold_saw_ack_ok [OF assms(1) _ x(8)])
  then obtain c n' s' where "saw_transmit cfg cs now (fold saw_ack as ?s) = Some (c, s')" "saw_at cs e' n' s'"
    using saw_transmit_ok [OF assms(1)] by blast
  then show ?thesis using x(1,3,6) i(5,6) by (auto simp: saw_pass_def)
qed

lemma saw_loop_ok:
  assumes "fits cs" and "saw_at cs e n s" and "tick = 0 \<or> tick < max_ticks"
  shows "\<exists>r s' e' n'. saw_loop cfg cs max_ticks tick s = Some (r, s') \<and> saw_at cs e' n' s'
    \<and> rr_delivered r = sw_delivered s' \<and> (rr_completed r \<longrightarrow> saw_done cs s')
    \<and> rr_ticks_used r \<le> max 1 max_ticks"
  using assms
proof (induction cfg cs max_ticks tick s arbitrary: e n rule: saw_loop.induct)
  case (1 cfg cs max_ticks tick s)
  obtain b e' n' s' where p: "saw_pass cfg cs (Tick (tick + 1)) s = Some (b, s')" "saw_at cs e' n' s'"
    using saw_pass_ok [OF "1.prems"(1,2)] by blast
  have le: "tick + 1 \<le> max 1 max_ticks"
    using "1.prems"(3) inc_le [of tick max_ticks] by (auto simp: le_max_iff_disj)
  show ?case
  proof (cases "b \<or> saw_done cs s' \<or> max_ticks \<le> tick + 1")
    case True
    then show ?thesis using p le by (auto simp: saw_loop.simps [of cfg cs max_ticks tick s] saw_result_def)
  next
    case False
    then have "saw_loop cfg cs max_ticks tick s = saw_loop cfg cs max_ticks (tick + 1) s'"
      using p(1) by (simp add: saw_loop.simps [of cfg cs max_ticks tick s])
    then show ?thesis using False p(2) "1.IH" [OF p(1) refl] "1.prems"(1) by (auto simp: not_le)
  qed
qed

section \<open>Go-back-N\<close>

text \<open>A state in which \<open>n\<close> segments were sent, \<open>e\<close> of them received and \<open>b\<close> acknowledged.\<close>

definition gbn_at :: "bytes list \<Rightarrow> nat \<Rightarrow> nat \<Rightarrow> nat \<Rightarrow> gbn \<Rightarrow> bool" where
  "gbn_at cs b e n s \<longleftrightarrow>
     gb_base s = word_of_nat b \<and> gb_expected s = word_of_nat e \<and> gb_next_seq s = word_of_nat n
     \<and> b \<le> e \<and> e \<le> n \<and> n \<le> length cs \<and> gb_delivered s = concat (take e cs)
     \<and> carries (data_frames cs n) (gb_fwd s) \<and> carries (ack_frames e) (gb_back s)"

lemma gbn_at_frame [simp]:
  "gbn_at cs b e n (s\<lparr>gb_retries := k\<rparr>) = gbn_at cs b e n s"
  "gbn_at cs b e n (s\<lparr>gb_oldest_sent_at := t\<rparr>) = gbn_at cs b e n s"
  by (simp_all add: gbn_at_def)

lemma gbn_ack_ok:
  assumes "fits cs" and "gbn_at cs b e n s" and "\<forall>f. frame_decode d = Inr f \<longrightarrow> d \<in> ack_frames e"
  shows "\<exists>b'. gbn_at cs b' e n (gbn_ack now d s)"
proof (cases "gbn_ack now d s = s")
  case False
  then obtain f where f: "frame_decode d = Inr f" "gb_base s < sequence f"
    and eq: "gbn_ack now d s = s\<lparr>gb_base := sequence f, gb_retries := 0,
        gb_oldest_sent_at := (if sequence f < gb_next_seq s then Some now else None)\<rparr>"
    by (auto simp: gbn_ack_def split: sum.splits if_splits)
  obtain k where "k \<le> e" "sequence f = word_of_nat k"
    using assms(3) f(1) by (auto simp: ack_frames_def decode_ack_frame)
  then show ?thesis
    unfolding eq using assms(2) by (intro exI [of _ k]) (auto simp: gbn_at_def)
qed (use assms in auto)

lemma fold_gbn_ack_ok:
  assumes "fits cs" and "gbn_at cs b e n s" and "\<forall>d \<in> set ds. \<forall>f. frame_decode d = Inr f \<longrightarrow> d \<in> ack_frames e"
  shows "\<exists>b'. gbn_at cs b' e n (fold (gbn_ack now) ds s)"
  using assms(2,3)
proof (induction ds arbitrary: s b)
  case (Cons d ds)
  then obtain b1 where "gbn_at cs b1 e n (gbn_ack now d s)" using gbn_ack_ok [OF assms(1)] by fastforce
  with Cons show ?case by simp
qed auto

lemma gbn_fill_ok:
  assumes "fits cs" and "gbn_at cs b e n s"
  shows "\<exists>n' s'. gbn_fill cs window now s = Some s' \<and> gbn_at cs b e n' s'"
  using assms
proof (induction cs window now s arbitrary: n rule: gbn_fill.induct)
  case (1 cs window now s)
  have i: "n \<le> length cs" "length cs < 2 ^ 32" "gb_next_seq s = word_of_nat n" "unat (gb_next_seq s) = n"
    using "1.prems" by (auto simp: gbn_at_def fits_def)
  show ?case
  proof (cases "gb_next_seq s < gb_base s + word_of_nat window \<and> n < length cs")
    case True
    have "carries (data_frames cs (Suc n)) (gb_fwd s)"
      using "1.prems"(2) chan_net.net_mono [OF _ frames_mono(1)] by (auto simp: gbn_at_def)
    then obtain fwd where fwd: "channel_send (data_frame (word_of_nat n) (cs ! n)) (gb_fwd s) = Some fwd"
      "carries (data_frames cs (Suc n)) fwd"
      using send_data [of cs "Suc n" "gb_fwd s" n] True "1.prems"(1) by auto
    let ?s = "s\<lparr>gb_fwd := fwd, gb_oldest_sent_at := (case gb_oldest_sent_at s of None \<Rightarrow> Some now | Some t \<Rightarrow> Some t),
      gb_next_seq := gb_next_seq s + 1\<rparr>"
    have "gbn_at cs b e (Suc n) ?s"
      using "1.prems"(2) True fwd(2) by (auto simp: gbn_at_def add.commute)
    moreover have "gbn_fill cs window now s = gbn_fill cs window now ?s"
      using True i fwd(1) by (simp add: gbn_fill.simps [of cs window now s])
    ultimately show ?thesis using "1.IH" [of fwd "Suc n"] True i fwd(1) "1.prems"(1) by simp
  next
    case False
    then have "gbn_fill cs window now s = Some s" using i(4) by (auto simp: gbn_fill.simps [of cs window now s])
    then show ?thesis using "1.prems"(2) by auto
  qed
qed

lemma gbn_resend_ok:
  assumes "fits cs" and "n \<le> length cs" and "carries (data_frames cs n) fwd" and "\<forall>i \<in> set is. i < n"
  shows "\<exists>fwd'. gbn_resend cs is fwd = Some fwd' \<and> carries (data_frames cs n) fwd'"
  using assms(3,4)
proof (induction "is" arbitrary: fwd)
  case (Cons i "is")
  obtain fwd1 where "channel_send (data_frame (word_of_nat i) (cs ! i)) fwd = Some fwd1"
    "carries (data_frames cs n) fwd1"
    using send_data [of cs n fwd i] Cons.prems assms(1,2) by auto
  then show ?case using Cons assms(2) by auto
qed simp

lemma gbn_timeout_ok:
  assumes "fits cs" and "gbn_at cs b e n s"
  shows "\<exists>g s'. gbn_timeout cfg cs now s = Some (g, s') \<and> gbn_at cs b e n s'"
proof -
  have i: "n \<le> length cs" "unat (gb_next_seq s) = n" "carries (data_frames cs n) (gb_fwd s)"
    using assms by (auto simp: gbn_at_def fits_def)
  obtain fwd where fwd: "gbn_resend cs [unat (gb_base s)..<n] (gb_fwd s) = Some fwd"
    "carries (data_frames cs n) fwd"
    using gbn_resend_ok [OF assms(1) i(1,3)] by force
  have "gbn_at cs b e n (s\<lparr>gb_fwd := fwd\<rparr>)" using assms(2) fwd(2) by (simp add: gbn_at_def)
  then have "gbn_at cs b e n (s\<lparr>gb_retries := k, gb_fwd := fwd, gb_oldest_sent_at := t\<rparr>)" for k t
    by (simp add: gbn_at_def)
  with fwd(1) assms(2) i(2) show ?thesis by (auto simp: gbn_timeout_def Let_def split: option.split)
qed

lemma gbn_pass_ok:
  assumes "fits cs" and "gbn_at cs b e n s"
  shows "\<exists>g b' e' n' s'. gbn_pass cfg cs window now s = Some (g, s') \<and> gbn_at cs b' e' n' s'"
proof -
  have i: "carries (data_frames cs n) (gb_fwd s)" "carries (ack_frames e) (gb_back s)" "e \<le> n" "n \<le> length cs"
    "gb_expected s = word_of_nat e" "gb_delivered s = concat (take e cs)"
    using assms(2) by (auto simp: gbn_at_def)
  obtain ds fwd e' bk as bk' where x: "channel_advance now (gb_fwd s) = Some (ds, fwd)"
    "carries (data_frames cs n) fwd" "arq_receive ds (word_of_nat e) (concat (take e cs)) (gb_back s)
      = Some (word_of_nat e', concat (take e' cs), bk)" "e \<le> e'" "e' \<le> n"
    "channel_advance now bk = Some (as, bk')" "carries (ack_frames e') bk'"
    "\<forall>d \<in> set as. \<forall>f. frame_decode d = Inr f \<longrightarrow> d \<in> ack_frames e'"
    by (rule arq_exchange [OF assms(1) i(4,3,1,2)])
  let ?s = "s\<lparr>gb_fwd := fwd, gb_back := bk', gb_expected := word_of_nat e', gb_delivered := concat (take e' cs)\<rparr>"
  have "gbn_at cs b e' n ?s" using assms(2) x(2,4,5,7) by (auto simp: gbn_at_def)
  then obtain b' where "gbn_at cs b' e' n (fold (gbn_ack now) as ?s)"
    using fold_gbn_ack_ok [OF assms(1) _ x(8)] by blast
  then obtain n' s1 where s1: "gbn_fill cs window now (fold (gbn_ack now) as ?s) = Some s1" "gbn_at cs b' e' n' s1"
    using gbn_fill_ok [OF assms(1)] by blast
  then obtain g s' where "gbn_timeout cfg cs now s1 = Some (g, s')" "gbn_at cs b' e' n' s'"
    using gbn_timeout_ok [OF assms(1)] by blast
  then show ?thesis using x(1,3,6) i(5,6) s1(1) by (auto simp: gbn_pass_def)
qed

lemma gbn_loop_ok:
  assumes "fits cs" and "gbn_at cs b e n s" and "tick = 0 \<or> tick < max_ticks"
  shows "\<exists>r s' b' e' n'. gbn_loop cfg cs window max_ticks tick s = Some (r, s') \<and> gbn_at cs b' e' n' s'
    \<and> rr_delivered r = gb_delivered s' \<and> (rr_completed r \<longrightarrow> gbn_done cs s')
    \<and> rr_ticks_used r \<le> max 1 max_ticks"
  using assms
proof (induction cfg cs window max_ticks tick s arbitrary: b e n rule: gbn_loop.induct)
  case (1 cfg cs window max_ticks tick s)
  obtain g b' e' n' s' where p: "gbn_pass cfg cs window (Tick (tick + 1)) s = Some (g, s')" "gbn_at cs b' e' n' s'"
    using gbn_pass_ok [OF "1.prems"(1,2)] by blast
  have le: "tick + 1 \<le> max 1 max_ticks"
    using "1.prems"(3) inc_le [of tick max_ticks] by (auto simp: le_max_iff_disj)
  show ?case
  proof (cases "g \<or> gbn_done cs s' \<or> max_ticks \<le> tick + 1")
    case True
    then show ?thesis using p le by (auto simp: gbn_loop.simps [of cfg cs window max_ticks tick s] gbn_result_def)
  next
    case False
    then have "gbn_loop cfg cs window max_ticks tick s = gbn_loop cfg cs window max_ticks (tick + 1) s'"
      using p(1) by (simp add: gbn_loop.simps [of cfg cs window max_ticks tick s])
    then show ?thesis using False p(2) "1.IH" [OF p(1) refl] "1.prems"(1) by (auto simp: not_le)
  qed
qed

section \<open>Stop-and-wait over clean channels\<close>

text \<open>The state after tick \<open>k\<close>: the last segment sent is under way, everything before it delivered.\<close>

definition saw_clean :: "bytes list \<Rightarrow> nat \<Rightarrow> saw \<Rightarrow> bool" where
  "saw_clean cs k s \<longleftrightarrow>
     clean_holds (length cs - k) k (if k = 0 then [] else [data_frame (word_of_nat (k - 1)) (cs ! (k - 1))]) (sw_fwd s)
     \<and> clean_holds (Suc (length cs) - k) k [] (sw_back s)
     \<and> sw_next_seq s = word_of_nat k \<and> sw_expected s = word_of_nat (k - 1)
     \<and> sw_delivered s = concat (take (k - 1) cs)
     \<and> (case sw_unacked s of None \<Rightarrow> k = 0 | Some (q, _, _) \<Rightarrow> 0 < k \<and> q = word_of_nat (k - 1))"

lemma receive_next:
  assumes "fits cs" and "j < length cs" and "clean_holds (Suc m) t ps bk"
  shows "\<exists>bk'. arq_receive (data_frame (word_of_nat j) (cs ! j) # ds) (word_of_nat j) (concat (take j cs)) bk
      = arq_receive ds (word_of_nat (Suc j)) (concat (take (Suc j) cs)) bk'
    \<and> clean_holds m t (ps @ [ack_frame (word_of_nat (Suc j))]) bk'"
proof -
  obtain bk' where "channel_send (ack_frame (word_of_nat (Suc j))) bk = Some bk'"
    "clean_holds m t (ps @ [ack_frame (word_of_nat (Suc j))]) bk'"
    using clean_line.holds_put [OF assms(3)] by blast
  then show ?thesis
    using assms(1,2)
    by (intro exI [of _ bk']) (simp add: decode_data_frame fits_def take_Suc_conv_app_nth add.commute)
qed

lemma saw_clean_exchange:
  assumes "fits cs" and "k \<le> length cs" and "saw_clean cs k s"
  shows "\<exists>s1. saw_pass cfg cs (Tick (word_of_nat (Suc k))) s = saw_transmit cfg cs (Tick (word_of_nat (Suc k))) s1
    \<and> clean_holds (length cs - k) (Suc k) [] (sw_fwd s1) \<and> clean_holds (length cs - k) (Suc k) [] (sw_back s1)
    \<and> sw_unacked s1 = None \<and> sw_next_seq s1 = word_of_nat k
    \<and> sw_expected s1 = word_of_nat k \<and> sw_delivered s1 = concat (take k cs)"
proof -
  let ?now = "Tick (word_of_nat (Suc k))"
  have k: "Suc k < 2 ^ 64" using assms(1,2) by (simp add: fits_def)
  note h = assms(3) [unfolded saw_clean_def]
  show ?thesis
  proof (cases k)
    case 0
    have "clean_holds (length cs - k) k [] (sw_fwd s)" "clean_holds (length cs - k) k [] (sw_back s)"
      using h 0 by (auto elim: clean_holds_mono)
    then obtain fwd bk where
      "channel_advance ?now (sw_fwd s) = Some ([], fwd)" "clean_holds (length cs - k) (Suc k) [] fwd"
      "channel_advance ?now (sw_back s) = Some ([], bk)" "clean_holds (length cs - k) (Suc k) [] bk"
      using clean_line.holds_take [OF _ k] by metis
    then show ?thesis
      using h 0 by (intro exI [of _ "s\<lparr>sw_fwd := fwd, sw_back := bk, sw_expected := 0, sw_delivered := []\<rparr>"]) (auto simp: saw_pass_def split: option.splits)
  next
    case (Suc j)
    then have s: "sw_expected s = word_of_nat j" "sw_delivered s = concat (take j cs)"
      "Suc (length cs - k) = Suc (length cs) - k" using h assms(2) by auto
    obtain fwd where f: "channel_advance ?now (sw_fwd s) = Some ([data_frame (word_of_nat j) (cs ! j)], fwd)"
      "clean_holds (length cs - k) (Suc k) [] fwd" using clean_line.holds_take [OF _ k] h Suc by fastforce
    obtain bk1 where r: "arq_receive [data_frame (word_of_nat j) (cs ! j)] (sw_expected s) (sw_delivered s) (sw_back s)
        = Some (word_of_nat k, concat (take k cs), bk1)" "clean_holds (length cs - k) k [ack_frame (word_of_nat k)] bk1"
      using receive_next [OF assms(1), of j "length cs - k" k "[]" "sw_back s" "[]"] h Suc assms(2) s
      by (simp del: of_nat_Suc concat.simps take_Suc) blast
    obtain bk where b: "channel_advance ?now bk1 = Some ([ack_frame (word_of_nat k)], bk)"
      "clean_holds (length cs - k) (Suc k) [] bk" using clean_line.holds_take [OF r(2) k] by blast
    obtain p t where "sw_unacked s = Some (word_of_nat j, p, t)" using h Suc by (auto split: option.splits)
    then have "saw_ack (ack_frame (word_of_nat k)) (s\<lparr>sw_fwd := fwd, sw_back := bk, sw_expected := word_of_nat k,
        sw_delivered := concat (take k cs)\<rparr>) = s\<lparr>sw_fwd := fwd, sw_back := bk, sw_expected := word_of_nat k,
        sw_delivered := concat (take k cs), sw_unacked := None, sw_retries := 0\<rparr>"
      using Suc by (simp add: saw_ack_def decode_ack_frame ARQ_FLAG_ACK_def add.commute)
    then show ?thesis
      using f r(1) b h by (intro exI [of _ "s\<lparr>sw_fwd := fwd, sw_back := bk, sw_expected := word_of_nat k,
        sw_delivered := concat (take k cs), sw_unacked := None, sw_retries := 0\<rparr>"]) (simp add: saw_pass_def)
  qed
qed

lemma saw_clean_step:
  assumes "fits cs" and "k < length cs" and "saw_clean cs k s"
  shows "\<exists>s'. saw_pass cfg cs (Tick (word_of_nat (Suc k))) s = Some (False, s') \<and> saw_clean cs (Suc k) s'
    \<and> sw_unacked s' \<noteq> None"
proof -
  let ?now = "Tick (word_of_nat (Suc k))"
  obtain s1 where s1: "saw_pass cfg cs ?now s = saw_transmit cfg cs ?now s1"
    "clean_holds (length cs - k) (Suc k) [] (sw_fwd s1)" "clean_holds (length cs - k) (Suc k) [] (sw_back s1)"
    "sw_unacked s1 = None" "sw_next_seq s1 = word_of_nat k" "sw_expected s1 = word_of_nat k"
    "sw_delivered s1 = concat (take k cs)"
    using saw_clean_exchange [OF assms(1) _ assms(3)] assms(2) by (metis less_imp_le)
  have "length cs - k = Suc (length cs - Suc k)" using assms(2) by simp
  then obtain fwd where f: "channel_send (data_frame (word_of_nat k) (cs ! k)) (sw_fwd s1) = Some fwd"
    "clean_holds (length cs - Suc k) (Suc k) [data_frame (word_of_nat k) (cs ! k)] fwd"
    using clean_line.holds_put s1(2) by (metis append_Nil)
  let ?s = "s1\<lparr>sw_fwd := fwd, sw_unacked := Some (word_of_nat k, cs ! k, ?now), sw_next_seq := word_of_nat (Suc k)\<rparr>"
  have "saw_transmit cfg cs ?now s1 = Some (False, ?s)"
    using assms(1,2) s1(4,5) f(1) by (simp add: saw_transmit_def fits_def Let_def add.commute)
  moreover have "saw_clean cs (Suc k) ?s" using f(2) s1(3,6,7) by (simp add: saw_clean_def)
  ultimately show ?thesis using s1(1) by (intro exI [of _ ?s]) simp
qed

lemma saw_clean_loop:
  assumes "fits cs" and "k \<le> length cs" and "saw_clean cs k s" and "length cs < unat max_ticks"
  shows "\<exists>s'. saw_loop cfg cs max_ticks (word_of_nat k) s =
    Some (\<lparr>rr_delivered = concat cs, rr_ticks_used = word_of_nat (Suc (length cs)), rr_completed = True\<rparr>, s')"
  using assms(2,3)
proof (induction "length cs - k" arbitrary: k s)
  case 0
  then have "k = length cs" by simp
  then obtain s1 where s1: "saw_pass cfg cs (Tick (word_of_nat (Suc k))) s = saw_transmit cfg cs (Tick (word_of_nat (Suc k))) s1"
    "sw_unacked s1 = None" "sw_next_seq s1 = word_of_nat k" "sw_delivered s1 = concat cs"
    using saw_clean_exchange [OF assms(1) "0.prems"] by fastforce
  have "unat (sw_next_seq s1) = length cs" using s1(3) \<open>k = length cs\<close> assms(1) by (simp add: fits_def)
  then have "saw_transmit cfg cs (Tick (word_of_nat (Suc k))) s1 = Some (False, s1)" "saw_done cs s1"
    using s1(2) by (simp_all add: saw_transmit_def saw_done_def)
  then show ?case
    using s1 by (simp add: \<open>k = length cs\<close> saw_loop.simps [of cfg cs max_ticks "word_of_nat (length cs)" s]
        saw_result_def add.commute)
next
  case (Suc d)
  then have k: "k < length cs" by simp
  obtain s' where s': "saw_pass cfg cs (Tick (word_of_nat (Suc k))) s = Some (False, s')" "saw_clean cs (Suc k) s'"
    "sw_unacked s' \<noteq> None" using saw_clean_step [OF assms(1) k Suc.prems(2)] by blast
  have "unat (word_of_nat (Suc k) :: u64) = Suc k"
    using k assms(1) by (simp only: unat_of_nat) (simp add: fits_def del: of_nat_Suc)
  then have "\<not> max_ticks \<le> word_of_nat (Suc k)"
    using k assms(4) by (simp add: word_le_nat_alt del: of_nat_Suc)
  then have "saw_loop cfg cs max_ticks (word_of_nat k) s = saw_loop cfg cs max_ticks (word_of_nat (Suc k)) s'"
    using s'(1,3) by (auto simp: saw_loop.simps [of cfg cs max_ticks "word_of_nat k" s] saw_done_def add.commute)
  then show ?case using Suc.hyps(1) [of "Suc k" s'] Suc.hyps(2) k s'(2) by simp
qed

section \<open>Go-back-N over clean channels\<close>

abbreviation data_run :: "bytes list \<Rightarrow> nat \<Rightarrow> nat \<Rightarrow> bytes list" where
  "data_run cs a b \<equiv> map (\<lambda>i. data_frame (word_of_nat i) (cs ! i)) [a..<b]"

abbreviation ack_run :: "nat \<Rightarrow> nat \<Rightarrow> bytes list" where
  "ack_run a b \<equiv> map (\<lambda>i. ack_frame (word_of_nat i)) [Suc a..<Suc b]"

text \<open>The state after tick \<open>k\<close>: segments before \<open>b\<close> are delivered and acknowledged, those from \<open>b\<close> to
  \<open>n\<close> are under way.\<close>

definition gbn_clean :: "bytes list \<Rightarrow> nat \<Rightarrow> nat \<Rightarrow> nat \<Rightarrow> gbn \<Rightarrow> bool" where
  "gbn_clean cs b n k s \<longleftrightarrow> b \<le> n \<and> n \<le> length cs \<and> k \<le> n
     \<and> clean_holds (length cs - n) k (data_run cs b n) (gb_fwd s) \<and> clean_holds (length cs - b) k [] (gb_back s)
     \<and> gb_base s = word_of_nat b \<and> gb_next_seq s = word_of_nat n \<and> gb_expected s = word_of_nat b
     \<and> gb_delivered s = concat (take b cs)
     \<and> gb_oldest_sent_at s = (if b < n then Some (Tick (word_of_nat k)) else None)"

lemma receive_all:
  assumes "fits cs" and "n \<le> length cs" and "b \<le> n" and "clean_holds (m + (n - b)) t ps bk"
  shows "\<exists>bk'. arq_receive (data_run cs b n) (word_of_nat b) (concat (take b cs)) bk
      = Some (word_of_nat n, concat (take n cs), bk') \<and> clean_holds m t (ps @ ack_run b n) bk'"
  using assms(3,4)
proof (induction "n - b" arbitrary: b ps bk)
  case (Suc d)
  then have b: "b < n" "m + (n - b) = Suc (m + (n - Suc b))" by simp_all
  obtain bk1 where "arq_receive (data_run cs b n) (word_of_nat b) (concat (take b cs)) bk
      = arq_receive (data_run cs (Suc b) n) (word_of_nat (Suc b)) (concat (take (Suc b) cs)) bk1"
    "clean_holds (m + (n - Suc b)) t (ps @ [ack_frame (word_of_nat (Suc b))]) bk1"
    using receive_next [OF assms(1), of b "m + (n - Suc b)" t ps bk "data_run cs (Suc b) n"] Suc.prems(2) b assms(2)
    by (auto simp: upt_conv_Cons)
  moreover have "ack_run b n = ack_frame (word_of_nat (Suc b)) # ack_run (Suc b) n"
    using b(1) by (simp add: upt_conv_Cons del: upt_Suc)
  ultimately show ?case
    using Suc.hyps(1) [of "Suc b" "ps @ [ack_frame (word_of_nat (Suc b))]" bk1] Suc.hyps(2) b(1) by simp
qed simp

lemma acks_all:
  assumes "n < 2 ^ 32" and "m \<le> n" and "gb_base s = word_of_nat m" and "gb_next_seq s = word_of_nat n"
  shows "\<exists>r. fold (gbn_ack now) (ack_run m n) s = s\<lparr>gb_base := word_of_nat n, gb_retries := r,
      gb_oldest_sent_at := (if m < n then None else gb_oldest_sent_at s)\<rparr>"
  using assms(2-4)
proof (induction "n - m" arbitrary: m s)
  case 0
  then show ?case by (intro exI [of _ "gb_retries s"]) simp
next
  case (Suc d)
  then have m: "m < n" by simp
  have less: "(word_of_nat m :: u32) < word_of_nat (Suc m)" "(word_of_nat (Suc m) :: u32) < word_of_nat n \<longleftrightarrow> Suc m < n"
    using assms(1) m by (simp_all add: word_less_nat_alt del: of_nat_Suc)
  let ?s = "s\<lparr>gb_base := word_of_nat (Suc m), gb_retries := 0,
    gb_oldest_sent_at := (if Suc m < n then Some now else None)\<rparr>"
  have "gbn_ack now (ack_frame (word_of_nat (Suc m))) s = ?s"
    using Suc.prems less by (simp add: gbn_ack_def decode_ack_frame ARQ_FLAG_ACK_def del: of_nat_Suc)
  moreover have "ack_run m n = ack_frame (word_of_nat (Suc m)) # ack_run (Suc m) n"
    using m by (simp add: upt_conv_Cons del: upt_Suc)
  ultimately have "fold (gbn_ack now) (ack_run m n) s = fold (gbn_ack now) (ack_run (Suc m) n) ?s" by simp
  then show ?case using Suc.hyps(1) [of "Suc m" ?s] Suc.hyps(2) m Suc.prems(3) by auto
qed

lemma fill_all:
  assumes "length cs + window < 2 ^ 32" and "b \<le> length cs" and "n' = min (length cs) (b + window)"
    and "b \<le> i" and "i \<le> n'" and "gb_base s = word_of_nat b" and "gb_next_seq s = word_of_nat i"
    and "clean_holds (length cs - i) t ps (gb_fwd s)"
  shows "\<exists>fwd old. gbn_fill cs window now s = Some (s\<lparr>gb_fwd := fwd, gb_next_seq := word_of_nat n',
      gb_oldest_sent_at := old\<rparr>)
    \<and> old = (if i < n' \<and> gb_oldest_sent_at s = None then Some now else gb_oldest_sent_at s)
    \<and> clean_holds (length cs - n') t (ps @ data_run cs i n') fwd"
  using assms(4-)
proof (induction "n' - i" arbitrary: i s ps)
  case 0
  then have i: "i = n'" by simp
  have "\<not> (gb_next_seq s < gb_base s + word_of_nat window \<and> unat (gb_next_seq s) < length cs)"
    using assms(1-3) i "0.prems"(3,4) by (auto simp: word_less_nat_alt simp flip: of_nat_add)
  then have "gbn_fill cs window now s = Some s" by (auto simp: gbn_fill.simps [of cs window now s])
  then show ?case
    using "0.prems" i by (intro exI [of _ "gb_fwd s"] exI [of _ "gb_oldest_sent_at s"]) simp
next
  case (Suc d)
  then have i: "i < n'" "i < length cs" "length cs - i = Suc (length cs - Suc i)" using assms(3) by auto
  obtain fwd where f: "channel_send (data_frame (word_of_nat i) (cs ! i)) (gb_fwd s) = Some fwd"
    "clean_holds (length cs - Suc i) t (ps @ [data_frame (word_of_nat i) (cs ! i)]) fwd"
    using clean_line.holds_put Suc.prems(5) i(3) by metis
  let ?s = "s\<lparr>gb_fwd := fwd, gb_oldest_sent_at := (case gb_oldest_sent_at s of None \<Rightarrow> Some now | Some t \<Rightarrow> Some t),
    gb_next_seq := word_of_nat (Suc i)\<rparr>"
  have "gb_next_seq s < gb_base s + word_of_nat window" "unat (gb_next_seq s) = i"
    using assms(1-3) i Suc.prems(3,4) by (auto simp: word_less_nat_alt simp flip: of_nat_add)
  then have "gbn_fill cs window now s = gbn_fill cs window now ?s"
    using f(1) i(2) Suc.prems(4) by (simp add: gbn_fill.simps [of cs window now s] add.commute)
  moreover have "data_run cs i n' = data_frame (word_of_nat i) (cs ! i) # data_run cs (Suc i) n'"
    using i(1) by (simp add: upt_conv_Cons)
  moreover have "\<exists>fwd' old. gbn_fill cs window now ?s = Some (?s\<lparr>gb_fwd := fwd', gb_next_seq := word_of_nat n',
      gb_oldest_sent_at := old\<rparr>)
    \<and> old = (if Suc i < n' \<and> gb_oldest_sent_at ?s = None then Some now else gb_oldest_sent_at ?s)
    \<and> clean_holds (length cs - n') t ((ps @ [data_frame (word_of_nat i) (cs ! i)]) @ data_run cs (Suc i) n') fwd'"
    by (rule Suc.hyps(1)) (use Suc.hyps(2) Suc.prems(1,3) i(1) f(2) in auto)
  then obtain fwd' old where "gbn_fill cs window now ?s = Some (?s\<lparr>gb_fwd := fwd', gb_next_seq := word_of_nat n',
      gb_oldest_sent_at := old\<rparr>)"
    "old = (if gb_oldest_sent_at s = None then Some now else gb_oldest_sent_at s)"
    "clean_holds (length cs - n') t (ps @ data_frame (word_of_nat i) (cs ! i) # data_run cs (Suc i) n') fwd'"
    by (auto split: option.splits)
  ultimately show ?case
    using i(1) by (intro exI [of _ fwd'] exI [of _ old]) (simp split: option.split)
qed

lemma fill_window:
  assumes "length cs + window < 2 ^ 32" and "n \<le> length cs" and "n' = min (length cs) (n + window)"
    and "gb_base s = word_of_nat n" and "gb_next_seq s = word_of_nat n" and "gb_oldest_sent_at s = None"
    and "clean_holds (length cs - n) t [] (gb_fwd s)"
  obtains fwd old where "gbn_fill cs window now s = Some (s\<lparr>gb_fwd := fwd, gb_next_seq := word_of_nat n',
      gb_oldest_sent_at := old\<rparr>)"
    "old = (if n < n' then Some now else None)" "clean_holds (length cs - n') t (data_run cs n n') fwd"
proof -
  have "n \<le> n'" using assms(2,3) by simp
  then obtain fwd old where "gbn_fill cs window now s = Some (s\<lparr>gb_fwd := fwd, gb_next_seq := word_of_nat n',
      gb_oldest_sent_at := old\<rparr>)"
    "old = (if n < n' \<and> gb_oldest_sent_at s = None then Some now else gb_oldest_sent_at s)"
    "clean_holds (length cs - n') t ([] @ data_run cs n n') fwd"
    using fill_all [OF assms(1-3) order_refl _ assms(4,5,7), of now] by blast
  then show ?thesis by (intro that) (simp_all add: assms(6))
qed

lemma gbn_clean_step:
  assumes "fits cs" and "length cs + window < 2 ^ 32" and "0 < aq_rto cfg" and "gbn_clean cs b n k s"
    and "n' = min (length cs) (n + window)" and "0 < window"
  shows "\<exists>s'. gbn_pass cfg cs window (Tick (word_of_nat (Suc k))) s = Some (False, s')
    \<and> gb_base s' = word_of_nat n \<and> gb_delivered s' = concat (take n cs)
    \<and> (n < length cs \<longrightarrow> gbn_clean cs n n' (Suc k) s')"
proof -
  let ?now = "Tick (word_of_nat (Suc k))"
  note h = assms(4) [unfolded gbn_clean_def]
  have k: "Suc k < 2 ^ 64" "n < 2 ^ 32" using h assms(1) by (auto simp: fits_def)
  obtain fwd where f: "channel_advance ?now (gb_fwd s) = Some (data_run cs b n, fwd)"
    "clean_holds (length cs - n) (Suc k) [] fwd" using clean_line.holds_take [OF _ k(1)] h by blast
  have "clean_holds (length cs - n + (n - b)) k [] (gb_back s)" using h by auto
  then obtain bk1 where r: "arq_receive (data_run cs b n) (word_of_nat b) (concat (take b cs)) (gb_back s)
      = Some (word_of_nat n, concat (take n cs), bk1)" "clean_holds (length cs - n) k (ack_run b n) bk1"
    using receive_all [OF assms(1), of n b "length cs - n" k "[]" "gb_back s"] h by auto
  obtain bk where bk: "channel_advance ?now bk1 = Some (ack_run b n, bk)"
    "clean_holds (length cs - n) (Suc k) [] bk" using clean_line.holds_take [OF r(2) k(1)] by blast
  let ?s = "s\<lparr>gb_fwd := fwd, gb_back := bk, gb_expected := word_of_nat n, gb_delivered := concat (take n cs)\<rparr>"
  obtain q where q: "fold (gbn_ack ?now) (ack_run b n) ?s = ?s\<lparr>gb_base := word_of_nat n, gb_retries := q,
      gb_oldest_sent_at := None\<rparr>"
    using acks_all [of n b ?s ?now] h k(2) by (auto split: if_splits)
  let ?s1 = "?s\<lparr>gb_base := word_of_nat n, gb_retries := q, gb_oldest_sent_at := None\<rparr>"
  obtain fwd' old where f': "gbn_fill cs window ?now ?s1 = Some (?s1\<lparr>gb_fwd := fwd', gb_next_seq := word_of_nat n',
      gb_oldest_sent_at := old\<rparr>)" "old = (if n < n' then Some ?now else None)" "clean_holds (length cs - n') (Suc k) (data_run cs n n') fwd'"
    by (rule fill_window [OF assms(2) _ assms(5), of ?s1 "Suc k" ?now]) (use h f(2) in auto)
  let ?s2 = "?s1\<lparr>gb_fwd := fwd', gb_next_seq := word_of_nat n', gb_oldest_sent_at := old\<rparr>"
  have "gbn_timeout cfg cs ?now ?s2 = Some (False, ?s2)"
    using assms(3) f'(2) by (auto simp: gbn_timeout_def simp flip: word_gt_0)
  then have "gbn_pass cfg cs window ?now s = Some (False, ?s2)"
    using h f(1) r(1) bk(1) q f'(1) by (simp add: gbn_pass_def del: upt_Suc of_nat_Suc)
  moreover have "gbn_clean cs n n' (Suc k) ?s2" if "n < length cs"
    using that h f'(2,3) bk(2) assms(5,6) by (simp add: gbn_clean_def)
  ultimately show ?thesis by (intro exI [of _ ?s2]) simp
qed

lemma gbn_clean_loop:
  assumes "fits cs" and "length cs + window < 2 ^ 32" and "0 < aq_rto cfg" and "0 < window"
    and "gbn_clean cs b n k s" and "Suc k + (length cs - n + window - 1) div window \<le> unat max_ticks"
  shows "\<exists>s'. gbn_loop cfg cs window max_ticks (word_of_nat k) s =
    Some (\<lparr>rr_delivered = concat cs, rr_ticks_used = word_of_nat (Suc k + (length cs - n + window - 1) div window),
      rr_completed = True\<rparr>, s')"
  using assms(5,6)
proof (induction "length cs - n" arbitrary: b n k s rule: less_induct)
  case less
  let ?n' = "min (length cs) (n + window)"
  obtain s' where s': "gbn_pass cfg cs window (Tick (word_of_nat (Suc k))) s = Some (False, s')"
    "gb_base s' = word_of_nat n" "gb_delivered s' = concat (take n cs)"
    "n < length cs \<longrightarrow> gbn_clean cs n ?n' (Suc k) s'"
    using gbn_clean_step [OF assms(1-3) less.prems(1) refl assms(4)] by blast
  have n: "n \<le> length cs" "length cs < 2 ^ 32" using less.prems(1) assms(1) by (auto simp: gbn_clean_def fits_def)
  then have dn: "gbn_done cs s' \<longleftrightarrow> n = length cs" using s'(2) by (simp add: gbn_done_def)
  show ?case
  proof (cases "n = length cs")
    case True
    then have "(length cs - n + window - 1) div window = 0" using assms(4) by simp
    then show ?thesis
      using s' True dn by (simp add: gbn_loop.simps [of cfg cs window max_ticks "word_of_nat k" s] gbn_result_def add.commute)
  next
    case False
    define c where "c = (length cs - ?n' + window - 1) div window"
    have c: "(length cs - n + window - 1) div window = Suc c"
    proof (cases "n + window \<le> length cs")
      case True
      then have "length cs - n + window - 1 = (length cs - ?n' + window - 1) + window" using assms(4) by simp
      then show ?thesis using assms(4) div_add_self2 [of window "length cs - ?n' + window - 1"] unfolding c_def by simp
    next
      case le: False
      then have "(length cs - n + window - 1) div window = 1"
        using False n(1) assms(4) by (intro div_nat_eqI) auto
      then show ?thesis using le assms(4) by (simp add: c_def min_def)
    qed
    have "Suc k < unat max_ticks" using less.prems(2) c by simp
    moreover have "unat (word_of_nat (Suc k) :: u64) = Suc k"
      using calculation unat_less_exp [of max_ticks] by (simp only: unat_of_nat) (simp del: of_nat_Suc)
    ultimately have "\<not> max_ticks \<le> word_of_nat (Suc k)" by (simp add: word_le_nat_alt del: of_nat_Suc)
    then have "gbn_loop cfg cs window max_ticks (word_of_nat k) s = gbn_loop cfg cs window max_ticks (word_of_nat (Suc k)) s'"
      using s'(1) dn False by (simp add: gbn_loop.simps [of cfg cs window max_ticks "word_of_nat k" s] add.commute)
    moreover have "length cs - ?n' < length cs - n" using False n(1) assms(4) by simp
    ultimately show ?thesis
      using less.hyps [of ?n' n "Suc k" s'] s'(4) False n(1) less.prems(2) c
      by (simp add: c_def)
  qed
qed

section \<open>Properties\<close>

definition arq_demo :: arq_config where
  "arq_demo = \<lparr>aq_segment_size = 2, aq_rto = 10, aq_max_retries = 30\<rparr>"

lemma clean_channel_exists: "\<exists>c. channel_new seed CLEAN = Some c"
  by (rule clean_new [of seed]) blast

lemma prefix_concat_take: "prefix (concat (take n xs)) (concat xs)"
  by (metis append_take_drop_id concat_append prefixI)

text \<open>C17. Stop-and-wait is correct over hostile channels whose profiles are \<open>tame\<close> (they may lose,
  duplicate, delay, reorder, and either corrupt or truncate, but not both, which leaves out the named
  profiles lossy and bursty_corruption), for data shorter than \<open>2 ^ 32\<close> bytes: it returns by
  \<open>max_ticks\<close>, what it delivered is a prefix of the data, and when it reports completion it delivered
  all of it. The channels start empty.\<close>

theorem stop_and_wait_correct:
  assumes "channel_new seed1 profile1 = Some fwd" and "channel_new seed2 profile2 = Some bk"
    and "tame profile1" and "tame profile2" and "length data < 2 ^ 32"
  shows "\<exists>r fwd' bk'. run_stop_and_wait data fwd bk cfg max_ticks = Some (r, fwd', bk')
    \<and> prefix (rr_delivered r) data \<and> (rr_completed r \<longrightarrow> rr_delivered r = data)
    \<and> rr_ticks_used r \<le> max 1 max_ticks"
proof -
  let ?cs = "chunks (max (aq_segment_size cfg) 1) data"
  let ?s = "\<lparr>sw_fwd = fwd, sw_back = bk, sw_next_seq = 0, sw_unacked = None, sw_retries = 0,
    sw_expected = 0, sw_delivered = []\<rparr>"
  have fits: "fits ?cs" and cs: "concat ?cs = data" using fits_chunks concat_chunks assms(5) by simp_all
  have "saw_at ?cs 0 0 ?s"
    using carries_new assms(1-4) chan_net.net_mono [OF _ empty_subsetI] by (auto simp: saw_at_def)
  from saw_loop_ok [OF fits this, of 0 max_ticks cfg] obtain r s' e n where
    r: "saw_loop cfg ?cs max_ticks 0 ?s = Some (r, s')" "saw_at ?cs e n s'" "rr_delivered r = sw_delivered s'"
    "rr_completed r \<longrightarrow> saw_done ?cs s'" "rr_ticks_used r \<le> max 1 max_ticks" by auto
  have "prefix (rr_delivered r) data"
    using r(2,3) cs prefix_concat_take [of e ?cs] by (simp add: saw_at_def)
  moreover have "rr_delivered r = data" if "rr_completed r"
  proof -
    have "e = n" "unat (word_of_nat n :: u32) = length ?cs" "n \<le> length ?cs"
      using r(2,4) that by (auto simp: saw_at_def saw_done_def)
    then have "e = length ?cs" using fits by (simp add: fits_def)
    then show ?thesis using r(2,3) cs by (simp add: saw_at_def)
  qed
  ultimately show ?thesis using r(1,5) by (simp add: run_stop_and_wait_def)
qed

theorem stop_and_wait_correct_witness:
  "\<exists>fwd bk r fwd' bk'. channel_new 7 CLEAN = Some fwd \<and> channel_new 8 CLEAN = Some bk
    \<and> run_stop_and_wait [1, 2, 3] fwd bk arq_demo 100 = Some (r, fwd', bk')
    \<and> prefix (rr_delivered r) [1, 2, 3] \<and> rr_ticks_used r \<le> 100"
proof -
  obtain fwd bk where c: "channel_new 7 CLEAN = Some fwd" "channel_new 8 CLEAN = Some bk"
    using clean_channel_exists by metis
  then show ?thesis
    using stop_and_wait_correct [OF c tame_CLEAN tame_CLEAN, of "[1, 2, 3]" arq_demo 100] by fastforce
qed

text \<open>C18. Go-back-N is correct in the same sense and under the same conditions (both profiles \<open>tame\<close>,
  so none that both corrupts and truncates, and data shorter than \<open>2 ^ 32\<close> bytes), for every window
  size.\<close>

theorem go_back_n_correct:
  assumes "channel_new seed1 profile1 = Some fwd" and "channel_new seed2 profile2 = Some bk"
    and "tame profile1" and "tame profile2" and "length data < 2 ^ 32"
  shows "\<exists>r fwd' bk'. run_go_back_n data fwd bk cfg window max_ticks = Some (r, fwd', bk')
    \<and> prefix (rr_delivered r) data \<and> (rr_completed r \<longrightarrow> rr_delivered r = data)
    \<and> rr_ticks_used r \<le> max 1 max_ticks"
proof -
  let ?cs = "chunks (max (aq_segment_size cfg) 1) data"
  let ?s = "\<lparr>gb_fwd = fwd, gb_back = bk, gb_base = 0, gb_next_seq = 0, gb_oldest_sent_at = None,
    gb_retries = 0, gb_expected = 0, gb_delivered = []\<rparr>"
  have fits: "fits ?cs" and cs: "concat ?cs = data" using fits_chunks concat_chunks assms(5) by simp_all
  have "gbn_at ?cs 0 0 0 ?s"
    using carries_new assms(1-4) chan_net.net_mono [OF _ empty_subsetI] by (auto simp: gbn_at_def)
  from gbn_loop_ok [OF fits this, of 0 max_ticks cfg window] obtain r s' b e n where
    r: "gbn_loop cfg ?cs window max_ticks 0 ?s = Some (r, s')" "gbn_at ?cs b e n s'" "rr_delivered r = gb_delivered s'"
    "rr_completed r \<longrightarrow> gbn_done ?cs s'" "rr_ticks_used r \<le> max 1 max_ticks" by auto
  have "prefix (rr_delivered r) data"
    using r(2,3) cs prefix_concat_take [of e ?cs] by (simp add: gbn_at_def)
  moreover have "rr_delivered r = data" if "rr_completed r"
  proof -
    have "unat (word_of_nat b :: u32) = length ?cs" "b \<le> e" "e \<le> length ?cs"
      using r(2,4) that by (auto simp: gbn_at_def gbn_done_def)
    then have "e = length ?cs" using fits by (simp add: fits_def)
    then show ?thesis using r(2,3) cs by (simp add: gbn_at_def)
  qed
  ultimately show ?thesis using r(1,5) by (simp add: run_go_back_n_def)
qed

theorem go_back_n_correct_witness:
  "\<exists>fwd bk r fwd' bk'. channel_new 7 CLEAN = Some fwd \<and> channel_new 8 CLEAN = Some bk
    \<and> run_go_back_n [1, 2, 3] fwd bk arq_demo 8 100 = Some (r, fwd', bk')
    \<and> prefix (rr_delivered r) [1, 2, 3] \<and> rr_ticks_used r \<le> 100"
proof -
  obtain fwd bk where c: "channel_new 7 CLEAN = Some fwd" "channel_new 8 CLEAN = Some bk"
    using clean_channel_exists by metis
  then show ?thesis
    using go_back_n_correct [OF c tame_CLEAN tame_CLEAN, of "[1, 2, 3]" arq_demo 8 100] by fastforce
qed

text \<open>C19. Over clean channels both protocols complete and deliver all the data, in exactly the time their
  scheme promises: stop-and-wait one tick per segment, go-back-N one tick per window of segments, and
  one more tick for the last acknowledgement. Go-back-N is therefore never slower.\<close>

theorem clean_run_times:
  assumes "channel_new seed1 CLEAN = Some fwd" and "channel_new seed2 CLEAN = Some bk"
    and "n = (length data + max (aq_segment_size cfg) 1 - 1) div max (aq_segment_size cfg) 1"
    and "length data + window < 2 ^ 32" and "0 < window" and "0 < aq_rto cfg" and "n < unat max_ticks"
  shows "(\<exists>fwd' bk'. run_stop_and_wait data fwd bk cfg max_ticks = Some
      (\<lparr>rr_delivered = data, rr_ticks_used = word_of_nat (Suc n), rr_completed = True\<rparr>, fwd', bk'))
    \<and> (\<exists>fwd' bk'. run_go_back_n data fwd bk cfg window max_ticks = Some
      (\<lparr>rr_delivered = data, rr_ticks_used = word_of_nat (Suc ((n + window - 1) div window)), rr_completed = True\<rparr>, fwd', bk'))
    \<and> Suc ((n + window - 1) div window) \<le> Suc n"
proof -
  define cs where "cs = chunks (max (aq_segment_size cfg) 1) data"
  have n: "length cs = n" "n \<le> length data"
    using assms(3) length_chunks [of "max (aq_segment_size cfg) 1" data]
      length_chunks_le [of "max (aq_segment_size cfg) 1" data] by (simp_all add: cs_def)
  have fits: "fits cs" and data: "concat cs = data" using fits_chunks concat_chunks assms(4) by (simp_all add: cs_def)
  have room: "n < 2 ^ 64" "Suc n < 2 ^ 64" "n + window < 2 ^ 32" using n(2) assms(4) by simp_all
  have le: "(n + window - 1) div window \<le> n"
  proof (cases n)
    case (Suc m)
    then have "(n + window - 1) div window = Suc (m div window)" using assms(5) by simp
    then show ?thesis using Suc div_le_dividend [of m window] by simp
  qed (use assms(5) in simp)
  have h: "clean_holds m 0 [] fwd" "clean_holds m 0 [] bk" if "m < 2 ^ 64" for m
    using clean_holds_new assms(1,2) that by blast+
  have "saw_clean cs 0 \<lparr>sw_fwd = fwd, sw_back = bk, sw_next_seq = 0, sw_unacked = None, sw_retries = 0,
      sw_expected = 0, sw_delivered = []\<rparr>"
    using h room n(1) by (simp add: saw_clean_def)
  from saw_clean_loop [OF fits _ this, of max_ticks cfg]
  have 1: "\<exists>fwd' bk'. run_stop_and_wait data fwd bk cfg max_ticks = Some
      (\<lparr>rr_delivered = data, rr_ticks_used = word_of_nat (Suc n), rr_completed = True\<rparr>, fwd', bk')"
    using assms(7) unfolding run_stop_and_wait_def cs_def [symmetric] by (auto simp: n(1) data)
  have "gbn_clean cs 0 0 0 \<lparr>gb_fwd = fwd, gb_back = bk, gb_base = 0, gb_next_seq = 0, gb_oldest_sent_at = None,
      gb_retries = 0, gb_expected = 0, gb_delivered = []\<rparr>"
    using h room n(1) by (simp add: gbn_clean_def)
  from gbn_clean_loop [OF fits _ assms(6,5) this, of max_ticks]
  have 2: "\<exists>fwd' bk'. run_go_back_n data fwd bk cfg window max_ticks = Some
      (\<lparr>rr_delivered = data, rr_ticks_used = word_of_nat (Suc ((n + window - 1) div window)), rr_completed = True\<rparr>, fwd', bk')"
    using assms(7) room(3) le unfolding run_go_back_n_def cs_def [symmetric] by (auto simp: n(1) data)
  from 1 2 le show ?thesis by blast
qed

theorem clean_run_times_witness:
  "\<exists>fwd bk fwd' bk'. channel_new 7 CLEAN = Some fwd \<and> channel_new 8 CLEAN = Some bk
    \<and> run_stop_and_wait [1, 2, 3, 4, 5] fwd bk arq_demo 100 = Some
      (\<lparr>rr_delivered = [1, 2, 3, 4, 5], rr_ticks_used = 4, rr_completed = True\<rparr>, fwd', bk')"
proof -
  obtain fwd bk where c: "channel_new 7 CLEAN = Some fwd" "channel_new 8 CLEAN = Some bk"
    using clean_channel_exists by metis
  have "3 = (length [1, 2, 3, 4, 5 :: u8] + max (aq_segment_size arq_demo) 1 - 1) div max (aq_segment_size arq_demo) 1"
    unfolding arq_demo_def by code_simp
  from clean_run_times [OF c this, of 8 100] c show ?thesis by (simp add: arq_demo_def)
qed

end
