(* ===== verification/Rto.thy ===== *)
theory Rto
  imports Prelude
begin

text \<open>
  The adaptive retransmission timeout of \<^verbatim>\<open>crates/transport/src/rto.rs\<close>. Arithmetic is that of
  \<open>u64\<close>/\<open>u32\<close> words. \<open>Ord::clamp\<close> panics when its bounds are inverted; the model returns
  \<open>None\<close> there, so a configuration with \<open>min_rto > max_rto\<close> is visible as a panic.
\<close>

definition SCALE :: u64 where "SCALE = 8"

record rto_estimator =
  srtt :: "u64 option"
  rttvar :: u64
  e_min_rto :: u64
  e_max_rto :: u64
  backoff :: u32

definition rto_new :: "u64 \<Rightarrow> u64 \<Rightarrow> rto_estimator" where
  "rto_new mn mx = \<lparr>srtt = None, rttvar = 0, e_min_rto = mn, e_max_rto = mx, backoff = 1\<rparr>"

definition clamp :: "u64 \<Rightarrow> u64 \<Rightarrow> u64 \<Rightarrow> u64 option" where
  "clamp x lo hi = (if lo \<le> hi then Some (if x < lo then lo else if hi < x then hi else x)
                    else None)"

definition base_rto :: "rto_estimator \<Rightarrow> u64 option" where
  "base_rto e =
    (let estimate = (case srtt e of
         Some s \<Rightarrow> (s div SCALE) + 4 * max (rttvar e div (SCALE div 2)) 1
       | None \<Rightarrow> e_min_rto e)
     in clamp estimate (e_min_rto e) (e_max_rto e))"

definition rto_current :: "rto_estimator \<Rightarrow> u64 option" where
  "rto_current e = map_option (\<lambda>b. min (b * ucast (backoff e)) (e_max_rto e)) (base_rto e)"

definition abs_diff :: "u64 \<Rightarrow> u64 \<Rightarrow> u64" where
  "abs_diff a b = (if a < b then b - a else a - b)"

definition on_sample :: "rto_estimator \<Rightarrow> u64 \<Rightarrow> rto_estimator" where
  "on_sample e measured_rtt =
    (case srtt e of
       None \<Rightarrow> e\<lparr>backoff := 1, srtt := Some (measured_rtt * SCALE),
                 rttvar := measured_rtt * SCALE div 2\<rparr>
     | Some s \<Rightarrow>
        let srtt_unscaled = s div SCALE;
            diff = abs_diff measured_rtt srtt_unscaled
        in e\<lparr>backoff := 1,
             rttvar := rttvar e - rttvar e div 4 + diff * (SCALE div 2) div 4,
             srtt := Some (s - s div 8 + measured_rtt * SCALE div 8)\<rparr>)"

definition on_timeout :: "rto_estimator \<Rightarrow> rto_estimator" where
  "on_timeout e = e\<lparr>backoff := min (backoff e * 2) 64\<rparr>"

section \<open>The backoff\<close>

definition rto_ok :: "rto_estimator \<Rightarrow> bool" where
  "rto_ok e \<longleftrightarrow> e_min_rto e \<le> e_max_rto e \<and> 1 \<le> backoff e \<and> backoff e \<le> 64"

lemma on_sample_fields [simp]:
  "e_min_rto (on_sample e r) = e_min_rto e" "e_max_rto (on_sample e r) = e_max_rto e"
  "backoff (on_sample e r) = 1"
  by (simp_all add: on_sample_def Let_def split: option.split)

lemma on_timeout_fields [simp]:
  "e_min_rto (on_timeout e) = e_min_rto e" "e_max_rto (on_timeout e) = e_max_rto e"
  "srtt (on_timeout e) = srtt e" "rttvar (on_timeout e) = rttvar e"
  by (simp_all add: on_timeout_def)

lemma unat_backoff_timeout:
  assumes "backoff e \<le> 64"
  shows "unat (backoff (on_timeout e)) = min (2 * unat (backoff e)) 64"
proof -
  have "unat (backoff e) \<le> 64" using assms by (simp add: word_le_nat_alt)
  then have "unat (backoff e * 2) = 2 * unat (backoff e)" by (simp add: unat_word_ariths)
  then show ?thesis by (simp add: on_timeout_def min_def word_le_nat_alt)
qed

lemma rto_ok_new: "mn \<le> mx \<Longrightarrow> rto_ok (rto_new mn mx)"
  by (simp add: rto_ok_def rto_new_def)

lemma rto_ok_sample [simp]: "rto_ok e \<Longrightarrow> rto_ok (on_sample e r)"
  by (simp add: rto_ok_def)

lemma rto_ok_timeout [simp]: "rto_ok e \<Longrightarrow> rto_ok (on_timeout e)"
  using unat_backoff_timeout [of e] by (auto simp: rto_ok_def word_le_nat_alt)

lemma rto_current_Some: "e_min_rto e \<le> e_max_rto e \<Longrightarrow> \<exists>t. rto_current e = Some t"
  by (simp add: rto_current_def base_rto_def clamp_def Let_def)

lemma rto_current_None_iff: "rto_current e = None \<longleftrightarrow> e_max_rto e < e_min_rto e"
  by (auto simp: rto_current_def base_rto_def clamp_def Let_def)

section \<open>Bounds of the timeout\<close>

lemma base_rto_bounds:
  "base_rto e = Some b \<Longrightarrow> e_min_rto e \<le> b \<and> b \<le> e_max_rto e"
  by (auto simp: base_rto_def clamp_def Let_def split: if_splits)

text \<open>
  With \<open>max_rto\<close> below \<open>2 ^ 58\<close> the multiplication by the backoff does not wrap, and the
  timeout stays within its configured bounds, whatever samples were taken.
\<close>

lemma unat_rto_current:
  assumes "rto_ok e" and "e_max_rto e < 2 ^ 58" and "rto_current e = Some t"
    and "base_rto e = Some b"
  shows "unat t = min (unat b * unat (backoff e)) (unat (e_max_rto e))"
proof -
  have b: "unat b < 2 ^ 58" and k: "unat (backoff e) \<le> 64"
    using base_rto_bounds [OF assms(4)] assms(1,2)
    by (simp_all add: rto_ok_def word_le_nat_alt word_less_nat_alt)
  have "unat b * unat (backoff e) \<le> unat b * 64" using k by simp
  also have "\<dots> < 2 ^ 64" using b by simp
  finally have "unat (b * ucast (backoff e)) = unat b * unat (backoff e)"
    by (simp add: unat_word_ariths unat_ucast_up)
  then show ?thesis
    using assms(3,4) by (auto simp: rto_current_def min_def word_le_nat_alt)
qed

lemma rto_current_in_bounds:
  assumes "rto_ok e" and "e_max_rto e < 2 ^ 58" and "rto_current e = Some t"
  shows "e_min_rto e \<le> t \<and> t \<le> e_max_rto e"
proof -
  obtain b where b: "base_rto e = Some b"
    using assms(3) by (auto simp: rto_current_def)
  have "unat (e_min_rto e) \<le> unat b" "1 \<le> unat (backoff e)"
    using base_rto_bounds [OF b] assms(1) by (simp_all add: rto_ok_def word_le_nat_alt)
  then have "unat (e_min_rto e) \<le> unat b * unat (backoff e)"
    by (metis mult.right_neutral mult_le_mono)
  then show ?thesis
    using unat_rto_current [OF assms b] assms(1) by (simp add: rto_ok_def word_le_nat_alt)
qed

section \<open>The smoothed estimate\<close>

text \<open>
  With every sample at most \<open>M < 2 ^ 60\<close> no word of the estimator wraps: the smoothed round trip
  stays at most \<open>M\<close> and the variation at most \<open>M\<close>, both in their fixed-point scales.
\<close>

definition rto_bounded :: "nat \<Rightarrow> rto_estimator \<Rightarrow> bool" where
  "rto_bounded M e \<longleftrightarrow>
     (case srtt e of None \<Rightarrow> rttvar e = 0
      | Some s \<Rightarrow> unat s \<le> 8 * M \<and> unat (rttvar e) \<le> 4 * M)"

lemma rto_bounded_new: "rto_bounded M (rto_new mn mx)"
  by (simp add: rto_bounded_def rto_new_def)

lemma rto_bounded_timeout [simp]: "rto_bounded M (on_timeout e) = rto_bounded M e"
  by (simp add: rto_bounded_def cong: option.case_cong)

lemma smooth_nat:
  fixes s m M k :: nat
  assumes "s \<le> Suc k * M" and "m \<le> M"
  shows "s - s div Suc k + m \<le> Suc k * M"
proof -
  let ?q = "s div Suc k"
  have q: "?q \<le> M" using div_le_mono [OF assms(1), of "Suc k"] by (simp del: mult_Suc)
  have split: "s = Suc k * ?q + s mod Suc k" by (simp del: mult_Suc)
  have "k * ?q + s mod Suc k \<le> k * M"
  proof (cases "?q = M")
    case True
    then show ?thesis using assms(1) split by simp
  next
    case False
    with q have "k * ?q + k \<le> k * M"
      by (metis Suc_leI add.commute le_neq_implies_less mult_Suc_right mult_le_mono2)
    moreover have "s mod Suc k \<le> k" by (simp add: less_Suc_eq_le [symmetric])
    ultimately show ?thesis by linarith
  qed
  moreover have "s - ?q = k * ?q + s mod Suc k"
    by (metis add_diff_cancel_left' mult_Suc split add.assoc)
  ultimately show ?thesis using assms(2) by simp
qed

lemma unat_smooth:
  fixes s m :: u64
  assumes "unat s - unat s div n + unat m < 2 ^ 64" and "n < 2 ^ 64"
  shows "unat (s - s div word_of_nat n + m) = unat s - unat s div n + unat m"
proof -
  have "unat (s div word_of_nat n) = unat s div n"
    using assms(2) by (simp add: unat_div unat_of_nat)
  moreover have "unat s div n \<le> unat s" by simp
  ultimately have "unat (s - s div word_of_nat n) = unat s - unat s div n"
    by (simp add: unat_sub_if')
  then show ?thesis using assms(1) by (simp add: unat_word_ariths)
qed

lemma scaled_sample:
  assumes "unat r < 2 ^ 60"
  shows "r * SCALE div 8 = r" and "unat (r * SCALE) = 8 * unat r"
    and "r * (SCALE div 2) div 4 = r"
proof -
  have "unat (r * 8) = 8 * unat r" "unat (r * 4) = 4 * unat r"
    using assms by (simp_all add: unat_word_ariths)
  then have "unat (r * 8 div 8) = unat r" "unat (r * 4 div 4) = unat r"
    by (simp_all add: unat_div)
  then show "r * SCALE div 8 = r" "unat (r * SCALE) = 8 * unat r" "r * (SCALE div 2) div 4 = r"
    using \<open>unat (r * 8) = 8 * unat r\<close> by (simp_all add: SCALE_def word_unat_eq_iff)
qed

lemma unat_abs_diff: "unat (abs_diff a b) = max (unat a) (unat b) - min (unat a) (unat b)"
  by (auto simp: abs_diff_def unat_sub_if' word_less_nat_alt)

lemma rto_bounded_sample:
  assumes "rto_bounded M e" and "unat r \<le> M" and "M < 2 ^ 60"
  shows "rto_bounded M (on_sample e r)"
proof (cases "srtt e")
  case None
  have "unat (r * SCALE div 2) = 4 * unat r"
    using assms scaled_sample(2) [of r] by (simp add: unat_div)
  with None show ?thesis
    using assms scaled_sample(2) [of r] by (simp add: on_sample_def rto_bounded_def)
next
  case (Some s)
  let ?d = "abs_diff r (s div SCALE)"
  have s: "unat s \<le> 8 * M" and v: "unat (rttvar e) \<le> 4 * M"
    using assms(1) Some by (simp_all add: rto_bounded_def)
  have "unat (s div SCALE) \<le> M" using s by (simp add: SCALE_def unat_div)
  then have d: "unat ?d \<le> M" using assms(2) by (simp add: unat_abs_diff)
  have "unat (s - s div word_of_nat 8 + r) \<le> 8 * M"
    using smooth_nat [of _ 7, simplified, OF s assms(2)] assms(3) by (subst unat_smooth) simp_all
  moreover have "unat (rttvar e - rttvar e div word_of_nat 4 + ?d) \<le> 4 * M"
    using smooth_nat [of _ 3, simplified, OF v d] assms(3) by (subst unat_smooth) simp_all
  ultimately show ?thesis
    using Some assms d scaled_sample(1) [of r] scaled_sample(3) [of ?d]
    by (simp add: on_sample_def Let_def rto_bounded_def)
qed

section \<open>Properties\<close>

text \<open>The life of an estimator: round-trip samples and timeouts in any order.\<close>

datatype rto_event = Sample u64 | Timeout

fun rto_event_step :: "rto_event \<Rightarrow> rto_estimator \<Rightarrow> rto_estimator" where
  "rto_event_step (Sample r) e = on_sample e r"
| "rto_event_step Timeout e = on_timeout e"

lemma rto_life_ok:
  "rto_ok e \<Longrightarrow> rto_ok (fold rto_event_step evs e) \<and> e_min_rto (fold rto_event_step evs e) = e_min_rto e
     \<and> e_max_rto (fold rto_event_step evs e) = e_max_rto e"
proof (induction evs arbitrary: e)
  case (Cons ev evs)
  then show ?case by (cases ev) (simp_all)
qed simp

text \<open>How many timeouts have fired since the last sample.\<close>

definition timeouts_since :: "rto_event list \<Rightarrow> nat" where
  "timeouts_since evs = length (takeWhile (\<lambda>ev. ev = Timeout) (rev evs))"

lemma timeouts_since_simps [simp]:
  "timeouts_since [] = 0" "timeouts_since (evs @ [Timeout]) = Suc (timeouts_since evs)"
  "timeouts_since (evs @ [Sample r]) = 0"
  by (simp_all add: timeouts_since_def)

lemma backoff_life:
  assumes "mn \<le> mx"
  shows "unat (backoff (fold rto_event_step evs (rto_new mn mx))) = min (2 ^ timeouts_since evs) 64"
proof (induction evs rule: rev_induct)
  case (snoc ev evs)
  let ?e = "fold rto_event_step evs (rto_new mn mx)"
  have "rto_ok ?e" using rto_life_ok [OF rto_ok_new [OF assms]] by blast
  then show ?case
    using snoc unat_backoff_timeout [of ?e] by (cases ev) (auto simp: rto_ok_def on_sample_def Let_def split: option.split)
qed (simp add: rto_new_def)

text \<open>C28. The timeout in closed form: whatever samples and timeouts the estimator has seen, it exists and
  is the base estimate, which lies within the configured bounds (the maximum below \<open>2 ^ 58\<close> ticks), times
  two for every timeout since the last sample but 64 at most, cut off at the maximum. So a timeout doubles
  it up to the maximum six times in a row, and from then on leaves it as it is.\<close>

theorem rto_always_in_bounds:
  assumes "mn \<le> mx" and "mx < 2 ^ 58" and "e = fold rto_event_step evs (rto_new mn mx)"
  shows "\<exists>b t t'. base_rto e = Some b \<and> mn \<le> b \<and> b \<le> mx
    \<and> rto_current e = Some t \<and> unat t = min (unat b * min (2 ^ timeouts_since evs) 64) (unat mx)
    \<and> mn \<le> t \<and> t \<le> mx \<and> rto_current (on_timeout e) = Some t'
    \<and> unat t' = (if timeouts_since evs < 6 then min (2 * unat t) (unat mx) else unat t)"
proof -
  have e: "rto_ok e" "e_min_rto e = mn" "e_max_rto e = mx"
    using rto_life_ok [OF rto_ok_new [OF assms(1)], of evs] assms(3) by (simp_all add: rto_new_def)
  obtain t t' where t: "rto_current e = Some t" "rto_current (on_timeout e) = Some t'"
    using rto_current_Some [of e] rto_current_Some [of "on_timeout e"] e assms(1) by auto
  obtain b where b: "base_rto e = Some b" using t(1) by (auto simp: rto_current_def)
  have b': "base_rto (on_timeout e) = Some b" using b by (simp add: base_rto_def cong: option.case_cong)
  let ?k = "timeouts_since evs"
  have now: "unat t = min (unat b * min (2 ^ ?k) 64) (unat mx)"
    using unat_rto_current [OF e(1) _ t(1) b] backoff_life [OF assms(1), of evs] e assms(2,3) by simp
  have "unat (backoff (on_timeout e)) = min (2 ^ Suc ?k) 64"
    using backoff_life [OF assms(1), of "evs @ [Timeout]"] by (simp add: assms(3))
  then have "unat t' = min (unat b * min (2 ^ Suc ?k) 64) (unat mx)"
    using unat_rto_current [OF rto_ok_timeout [OF e(1)] _ t(2) b'] e assms(2) by simp
  moreover have "min (2 ^ Suc ?k) 64 = (if ?k < 6 then 2 * min (2 ^ ?k) 64 else min (2 ^ ?k) (64 :: nat))"
  proof (cases "?k < 6")
    case True
    then have "2 ^ ?k \<le> (2 :: nat) ^ 5" by (intro power_increasing) simp_all
    with True show ?thesis by simp
  next
    case False
    then have "(2 :: nat) ^ 6 \<le> 2 ^ ?k" by (intro power_increasing) simp_all
    with False show ?thesis by simp
  qed
  ultimately have later: "unat t' = (if ?k < 6 then min (2 * unat t) (unat mx) else unat t)"
    using now by (auto simp: min_def)
  have "mn \<le> b \<and> b \<le> mx"
    using base_rto_bounds [OF b] e by simp
  then show ?thesis
    using t b now later rto_current_in_bounds [OF e(1) _ t(1)] e assms(2) by auto
qed

theorem rto_always_in_bounds_witness:
  "rto_current (fold rto_event_step (replicate 9 Timeout) (rto_new 2 500)) = Some 128
    \<and> rto_current (on_timeout (fold rto_event_step (replicate 9 Timeout) (rto_new 2 500))) = Some 128"
proof -
  let ?e = "fold rto_event_step (replicate 9 Timeout) (rto_new 2 500)"
  have e: "base_rto ?e = Some 2" "timeouts_since (replicate 9 Timeout) = 9"
    by (simp_all add: numeral_eq_Suc) (simp_all add: base_rto_def rto_new_def on_timeout_def clamp_def timeouts_since_def)
  from rto_always_in_bounds [of 2 500 ?e "replicate 9 Timeout"] show ?thesis
    unfolding e by (auto simp: word_unat_eq_iff)
qed

end
