(* ===== verification/Segment.thy ===== *)
theory Segment
  imports Prelude
begin

text \<open>
  The transport sub-header of \<^verbatim>\<open>crates/transport/src/segment.rs\<close>: cumulative ack, \<open>fin_ack\<close>,
  advertised window and up to four selective-ack ranges, and its codec.
\<close>

definition MAX_SACK_RANGES :: nat where "MAX_SACK_RANGES = 4"
definition FIXED_LEN :: nat where "FIXED_LEN = 10"
definition RANGE_LEN :: nat where "RANGE_LEN = 8"

lemmas segment_consts = MAX_SACK_RANGES_def FIXED_LEN_def RANGE_LEN_def

record sack_range =
  sr_start :: u32
  sr_end :: u32

record segment_header =
  h_ack :: u32
  h_fin_ack :: bool
  h_window :: u32
  h_sack :: "sack_range list"

definition range_bytes :: "sack_range \<Rightarrow> bytes" where
  "range_bytes r = le32 (sr_start r) @ le32 (sr_end r)"

definition segment_encode :: "segment_header \<Rightarrow> bytes \<Rightarrow> bytes" where
  "segment_encode h out =
     out @ le32 (h_ack h) @ [of_bool (h_fin_ack h)]
     @ [word_of_nat (min (length (h_sack h)) MAX_SACK_RANGES)]
     @ le32 (h_window h)
     @ concat (map range_bytes (take MAX_SACK_RANGES (h_sack h)))"

primrec read_ranges :: "nat \<Rightarrow> nat \<Rightarrow> bytes \<Rightarrow> sack_range list \<times> nat" where
  "read_ranges 0 offset data = ([], offset)"
| "read_ranges (Suc n) offset data =
     (let r = \<lparr>sr_start = from_le (slice_of offset (offset + 4) data),
               sr_end = from_le (slice_of (offset + 4) (offset + 8) data)\<rparr>;
          (rs, offset') = read_ranges n (offset + RANGE_LEN) data
      in (r # rs, offset'))"

definition segment_decode :: "bytes \<Rightarrow> (segment_header \<times> bytes) option" where
  "segment_decode data =
    (if length data < FIXED_LEN then None
     else let ack = from_le (slice_of 0 4 data);
              fin_ack = (data ! 4 \<noteq> 0);
              count = unat (data ! 5);
              window = from_le (slice_of 6 10 data);
              ranges_len = count * RANGE_LEN
          in if length data < FIXED_LEN + ranges_len then None
             else let (sack, offset) = read_ranges count FIXED_LEN data
                  in Some (\<lparr>h_ack = ack, h_fin_ack = fin_ack, h_window = window, h_sack = sack\<rparr>,
                           drop offset data))"

lemma length_range_bytes [simp]: "length (range_bytes r) = 8"
  by (simp add: range_bytes_def)

lemma length_concat_ranges [simp]: "length (concat (map range_bytes rs)) = 8 * length rs"
  by (induction rs) simp_all

lemma length_segment_encode:
  "length (segment_encode h out) = length out + 10 + 8 * min (length (h_sack h)) 4"
  by (simp add: segment_encode_def segment_consts min.commute)

lemma read_ranges_offset [simp]: "snd (read_ranges n offset data) = offset + 8 * n"
  by (induction n arbitrary: offset) (simp_all add: Let_def segment_consts case_prod_beta)

lemma read_ranges_concat:
  "length pre = offset \<Longrightarrow>
     fst (read_ranges (length rs) offset (pre @ concat (map range_bytes rs) @ rest)) = rs"
proof (induction rs arbitrary: pre offset)
  case (Cons r rs)
  have "fst (read_ranges (length rs) (offset + 8)
      ((pre @ range_bytes r) @ concat (map range_bytes rs) @ rest)) = rs"
    by (rule Cons.IH) (simp add: Cons.prems)
  moreover have "slice_of offset (offset + 4) (pre @ range_bytes r @ xs) = le32 (sr_start r)"
    and "slice_of (offset + 4) (offset + 8) (pre @ range_bytes r @ xs) = le32 (sr_end r)" for xs
    using Cons.prems by (simp_all add: slice_of_def range_bytes_def)
  ultimately show ?case
    by (simp add: Let_def segment_consts case_prod_beta)
qed simp

lemma segment_decode_encode:
  "segment_decode (segment_encode h [] @ rest) = Some (h\<lparr>h_sack := take 4 (h_sack h)\<rparr>, rest)"
proof -
  define rs where "rs = take 4 (h_sack h)"
  define pre where "pre = le32 (h_ack h) @ [of_bool (h_fin_ack h), word_of_nat (length rs)]
    @ le32 (h_window h)"
  define d where "d = pre @ concat (map range_bytes rs) @ rest"
  have len: "length pre = 10" by (simp add: pre_def)
  have "d = segment_encode h [] @ rest"
    by (simp add: d_def pre_def rs_def segment_encode_def segment_consts min.commute)
  moreover have "unat (word_of_nat (length rs) :: u8) = length rs"
    by (simp add: rs_def unat_of_nat)
  moreover have "read_ranges (length rs) 10 d = (rs, 10 + 8 * length rs)"
    using read_ranges_concat [OF len, of rs rest] by (simp add: prod_eq_iff d_def)
  moreover have "slice_of 0 4 d = le32 (h_ack h)" "d ! 4 = of_bool (h_fin_ack h)"
    "d ! 5 = word_of_nat (length rs)" "slice_of 6 10 d = le32 (h_window h)"
    by (simp_all add: slice_of_def nth_append d_def pre_def)
  moreover have "length d = 10 + 8 * length rs + length rest" "drop (10 + 8 * length rs) d = rest"
    by (simp_all add: d_def len)
  ultimately show ?thesis
    by (simp add: segment_decode_def segment_consts Let_def rs_def [symmetric])
qed

lemma segment_decode_None_iff:
  "segment_decode d = None \<longleftrightarrow> length d < 10 \<or> length d < 10 + 8 * unat (d ! 5)"
  by (auto simp: segment_decode_def segment_consts Let_def case_prod_beta)

section \<open>Properties\<close>

text \<open>C29. A segment header is recovered from the front of its payload, with at most four of its ranges
  kept, and the bytes behind it are the application data; \<open>decode\<close> fails exactly on inputs shorter than
  the fixed part or than the ranges they announce.\<close>

theorem segment_codec:
  "segment_decode (segment_encode h [] @ rest) = Some (h\<lparr>h_sack := take MAX_SACK_RANGES (h_sack h)\<rparr>, rest)
   \<and> (segment_decode d = None \<longleftrightarrow> length d < 10 \<or> length d < 10 + 8 * unat (d ! 5))"
  using segment_decode_encode [of h rest] segment_decode_None_iff [of d] by (simp add: segment_consts)

end
