(* ===== verification/Ordered_Map.thy ===== *)
theory Ordered_Map
  imports Prelude
begin

text \<open>
  The part of \<open>std::collections::BTreeMap\<close> the transport uses, as an association list kept in
  strictly ascending key order, so that iteration order is list order. The locale
  \<open>ordered_map\<close> is the contract the transport relies on; the association list provides it.
\<close>

type_synonym ('k, 'v) btree = "('k \<times> 'v) list"

definition bt_ok :: "('k::linorder, 'v) btree \<Rightarrow> bool" where
  "bt_ok m \<longleftrightarrow> sorted_wrt (<) (map fst m)"

fun bt_insert :: "'k::linorder \<Rightarrow> 'v \<Rightarrow> ('k, 'v) btree \<Rightarrow> ('k, 'v) btree" where
  "bt_insert k v [] = [(k, v)]"
| "bt_insert k v ((k', v') # m) =
     (if k < k' then (k, v) # (k', v') # m
      else if k = k' then (k, v) # m
      else (k', v') # bt_insert k v m)"

definition bt_remove :: "'k \<Rightarrow> ('k, 'v) btree \<Rightarrow> ('k, 'v) btree" where
  "bt_remove k m = filter (\<lambda>p. fst p \<noteq> k) m"

definition bt_get :: "('k, 'v) btree \<Rightarrow> 'k \<Rightarrow> 'v option" where
  "bt_get m k = map_of m k"

text \<open>\<open>range(..hi)\<close>, \<open>range(lo..).next()\<close> and the keys \<open>range_mut(lo..=hi)\<close> touches.\<close>

definition bt_range_below :: "'k::linorder \<Rightarrow> ('k, 'v) btree \<Rightarrow> ('k, 'v) btree" where
  "bt_range_below hi m = filter (\<lambda>p. fst p < hi) m"

definition bt_first_from :: "'k::linorder \<Rightarrow> ('k, 'v) btree \<Rightarrow> ('k \<times> 'v) option" where
  "bt_first_from lo m = List.find (\<lambda>p. lo \<le> fst p) m"

definition bt_update_range ::
  "'k::linorder \<Rightarrow> 'k \<Rightarrow> ('v \<Rightarrow> 'v) \<Rightarrow> ('k, 'v) btree \<Rightarrow> ('k, 'v) btree" where
  "bt_update_range lo hi f m = map (\<lambda>(k, v). (k, if lo \<le> k \<and> k \<le> hi then f v else v)) m"

section \<open>Invariant and contents\<close>

lemma bt_ok_Nil [simp]: "bt_ok []"
  by (simp add: bt_ok_def)

lemma bt_ok_Cons: "bt_ok (p # m) \<longleftrightarrow> (\<forall>q \<in> set m. fst p < fst q) \<and> bt_ok m"
  by (auto simp: bt_ok_def)

lemma bt_ok_distinct: "bt_ok m \<Longrightarrow> distinct (map fst m)"
  by (simp add: bt_ok_def strict_sorted_iff)

lemma bt_ok_unique: "bt_ok m \<Longrightarrow> (k, v) \<in> set m \<Longrightarrow> (k, v') \<in> set m \<Longrightarrow> v = v'"
  using bt_ok_distinct by (metis eq_key_imp_eq_value)

lemma set_bt_insert: "bt_ok m \<Longrightarrow> set (bt_insert k v m) = insert (k, v) {p \<in> set m. fst p \<noteq> k}"
  by (induction k v m rule: bt_insert.induct) (force simp: bt_ok_Cons)+

lemma set_bt_insert_subset: "set (bt_insert k v m) \<subseteq> insert (k, v) (set m)"
  by (induction k v m rule: bt_insert.induct) auto

lemma bt_ok_insert [simp]: "bt_ok m \<Longrightarrow> bt_ok (bt_insert k v m)"
  by (induction k v m rule: bt_insert.induct) (auto simp: bt_ok_Cons set_bt_insert)

lemma bt_insert_neq_Nil [simp]: "bt_insert k v m \<noteq> []"
  by (cases m) (auto split: if_splits)

lemma set_bt_remove [simp]: "set (bt_remove k m) = {p \<in> set m. fst p \<noteq> k}"
  by (auto simp: bt_remove_def)

lemma bt_ok_filter [simp]: "bt_ok m \<Longrightarrow> bt_ok (filter P m)"
  by (induction m) (auto simp: bt_ok_Cons)

lemma bt_ok_remove [simp]: "bt_ok m \<Longrightarrow> bt_ok (bt_remove k m)"
  by (simp add: bt_remove_def)

lemma bt_ok_map_values: "map fst m' = map fst m \<Longrightarrow> bt_ok m' = bt_ok m"
  by (simp add: bt_ok_def)

lemma map_fst_bt_update_range [simp]: "map fst (bt_update_range lo hi f m) = map fst m"
  by (induction m) (auto simp: bt_update_range_def)

lemma bt_ok_update_range [simp]: "bt_ok (bt_update_range lo hi f m) = bt_ok m"
  by (rule bt_ok_map_values) simp

lemma length_bt_update_range [simp]: "length (bt_update_range lo hi f m) = length m"
  by (simp add: bt_update_range_def)

lemma bt_update_range_eq_Nil [simp]: "bt_update_range lo hi f m = [] \<longleftrightarrow> m = []"
  by (simp add: bt_update_range_def)

lemma set_bt_update_rangeD:
  "(k, v') \<in> set (bt_update_range lo hi f m) \<Longrightarrow> \<exists>v. (k, v) \<in> set m \<and> (v' = v \<or> v' = f v)"
  by (auto simp: bt_update_range_def split: if_splits)

lemma bt_first_from_SomeD: "bt_first_from lo m = Some (k, v) \<Longrightarrow> (k, v) \<in> set m \<and> lo \<le> k"
  by (induction m) (auto simp: bt_first_from_def split: if_splits)

lemma bt_first_from_le:
  assumes "bt_first_from lo m = Some (k, v)" and "bt_ok m" and "q \<in> set m" and "lo \<le> fst q"
  shows "k \<le> fst q"
  using assms
  by (induction m) (auto simp: bt_first_from_def bt_ok_Cons split: if_splits)

lemma bt_first_from_NoneD: "bt_first_from lo m = None \<Longrightarrow> q \<in> set m \<Longrightarrow> fst q < lo"
  by (cases q) (auto simp: bt_first_from_def find_None_iff not_le)

lemma length_bt_remove_less: "(k, v) \<in> set m \<Longrightarrow> length (bt_remove k m) < length m"
  unfolding bt_remove_def by (rule length_filter_less [of "(k, v)"]) simp_all

lemma bt_get_iff: "bt_ok m \<Longrightarrow> bt_get m k = Some v \<longleftrightarrow> (k, v) \<in> set m"
  using bt_ok_distinct [of m] by (simp add: bt_get_def map_of_eq_Some_iff)

lemma bt_get_insert: "bt_get (bt_insert k v m) k' = (if k' = k then Some v else bt_get m k')"
  by (induction k v m rule: bt_insert.induct) (auto simp: bt_get_def)

lemma bt_get_remove: "bt_get (bt_remove k m) k' = (if k' = k then None else bt_get m k')"
  by (induction m) (auto simp: bt_get_def bt_remove_def)

section \<open>The contract\<close>

locale ordered_map =
  fixes empty :: "'m" and ins :: "'k::linorder \<Rightarrow> 'v \<Rightarrow> 'm \<Rightarrow> 'm"
    and rem :: "'k \<Rightarrow> 'm \<Rightarrow> 'm" and get :: "'m \<Rightarrow> 'k \<Rightarrow> 'v option"
    and iter :: "'m \<Rightarrow> ('k \<times> 'v) list" and invar :: "'m \<Rightarrow> bool"
  assumes invar_empty: "invar empty"
    and invar_ins: "invar m \<Longrightarrow> invar (ins k v m)"
    and invar_rem: "invar m \<Longrightarrow> invar (rem k m)"
    and get_empty: "get empty k = None"
    and get_ins: "invar m \<Longrightarrow> get (ins k v m) k' = (if k' = k then Some v else get m k')"
    and get_rem: "invar m \<Longrightarrow> get (rem k m) k' = (if k' = k then None else get m k')"
    and iter_sorted: "invar m \<Longrightarrow> sorted_wrt (<) (map fst (iter m))"
    and iter_get: "invar m \<Longrightarrow> (k, v) \<in> set (iter m) \<longleftrightarrow> get m k = Some v"
begin

lemma iter_ins: "invar m \<Longrightarrow> set (iter (ins k v m)) = insert (k, v) {p \<in> set (iter m). fst p \<noteq> k}"
  by (auto simp: iter_get invar_ins get_ins split: if_splits)

lemma first_is_least:
  assumes "invar m" and "iter m = (k, v) # rest" and "get m k' = Some v'"
  shows "k \<le> k'"
proof -
  from assms(1,3) have "(k', v') \<in> set (iter m)" by (simp add: iter_get)
  with assms(2) iter_sorted [OF assms(1)] show ?thesis by force
qed

lemma iter_empty: "iter empty = []"
  by (metis get_empty invar_empty iter_get last_in_set option.distinct(1) surj_pair)

end

interpretation btree: ordered_map "[]" bt_insert bt_remove bt_get "\<lambda>m. m" bt_ok
  by unfold_locales
    (simp_all add: bt_get_iff bt_get_insert bt_get_remove, simp_all add: bt_get_def bt_ok_def)

end
