(* ===== verification/Connection.thy ===== *)
theory Connection
  imports Tick Rto Segment Frame Ordered_Map
begin

text \<open>
  The connection state machine of \<^verbatim>\<open>crates/transport/src/connection.rs\<close>, operation by operation.
  Every public method takes the connection and returns the new one with the datagrams to send.

  Arithmetic on \<open>u32\<close>/\<open>u64\<close> wraps as in a release build. A method that does not return is
  \<open>None\<close>: the admission loop of \<open>try_send_more\<close> may run forever (segment size 0),
  \<open>BTreeMap::range_mut\<close> panics on an inverted range and \<open>Ord::clamp\<close> on inverted bounds.
\<close>

section \<open>State\<close>

definition FLAG_SYN :: u16 where "FLAG_SYN = 1"
definition FLAG_ACK :: u16 where "FLAG_ACK = 2"
definition FLAG_FIN :: u16 where "FLAG_FIN = 4"

lemmas flag_defs = FLAG_SYN_def FLAG_ACK_def FLAG_FIN_def

datatype failure_reason = TooManyRetries

datatype state =
    Listening
  | SynSent
  | SynReceived
  | Established
  | Closing
  | Closed
  | Failed failure_reason

record config =
  segment_size :: nat
  recv_window_capacity :: u32
  min_rto :: u64
  max_rto :: u64
  max_retries :: u32
  fast_retransmit_dup_acks :: u32

definition default_config :: config where
  "default_config = \<lparr>segment_size = 512, recv_window_capacity = 8192, min_rto = 2, max_rto = 500,
     max_retries = 12, fast_retransmit_dup_acks = 3\<rparr>"

record stats =
  data_segments_sent :: u64
  data_segments_retransmitted :: u64
  ack_segments_sent :: u64
  control_retransmissions :: u64
  bytes_sent_app :: u64
  bytes_delivered_app :: u64
  duplicate_bytes_received :: u64
  fast_retransmits :: u64
  congestion_events :: u64

definition stats_default :: stats where
  "stats_default = \<lparr>data_segments_sent = 0, data_segments_retransmitted = 0, ack_segments_sent = 0,
     control_retransmissions = 0, bytes_sent_app = 0, bytes_delivered_app = 0,
     duplicate_bytes_received = 0, fast_retransmits = 0, congestion_events = 0\<rparr>"

record pending_control =
  pc_sent_at :: tick
  pc_attempts :: u32

record unacked_segment =
  us_data :: bytes
  us_sent_at :: tick
  us_retransmit_count :: u32
  us_sacked :: bool

record conn =
  c_config :: config
  c_state :: state
  c_now :: tick
  c_rto :: rto_estimator
  c_stats :: stats
  c_handshake :: "pending_control option"
  c_send_queue :: bytes
  c_next_seq :: u32
  c_send_base :: u32
  c_unacked :: "(u32, unacked_segment) btree"
  c_close_requested :: bool
  c_fin_pending :: "pending_control option"
  c_fin_acked :: bool
  c_peer_window :: u32
  c_cwnd :: u32
  c_ssthresh :: u32
  c_dup_ack_count :: u32
  c_expected_seq :: u32
  c_recv_buffer :: "(u32, bytes) btree"
  c_delivered :: bytes
  c_peer_fin_seen :: bool

definition encode_frame :: "u32 \<Rightarrow> u16 \<Rightarrow> bytes \<Rightarrow> bytes" where
  "encode_frame seq flgs pl =
     frame_encode \<lparr>frame_type = 0, sequence = seq, flags = flgs, payload = pl\<rparr>"

definition blank :: "config \<Rightarrow> tick \<Rightarrow> state \<Rightarrow> conn" where
  "blank cfg now st =
    \<lparr>c_config = cfg, c_state = st, c_now = now, c_rto = rto_new (min_rto cfg) (max_rto cfg),
     c_stats = stats_default, c_handshake = None, c_send_queue = [], c_next_seq = 0,
     c_send_base = 0, c_unacked = [], c_close_requested = False, c_fin_pending = None,
     c_fin_acked = False, c_peer_window = word_of_nat (segment_size cfg),
     c_cwnd = max (2 * word_of_nat (segment_size cfg)) 1, c_ssthresh = - 1,
     c_dup_ack_count = 0, c_expected_seq = 0, c_recv_buffer = [], c_delivered = [],
     c_peer_fin_seen = False\<rparr>"

section \<open>Observers\<close>

definition is_closed :: "conn \<Rightarrow> bool" where
  "is_closed c \<longleftrightarrow> c_state c = Closed"

definition failure :: "conn \<Rightarrow> failure_reason option" where
  "failure c = (case c_state c of Failed r \<Rightarrow> Some r | _ \<Rightarrow> None)"

definition peer_closed :: "conn \<Rightarrow> bool" where
  "peer_closed c = c_peer_fin_seen c"

definition in_flight_bytes :: "conn \<Rightarrow> u32" where
  "in_flight_bytes c = sum_list (map (\<lambda>(_, s). word_of_nat (length (us_data s))) (c_unacked c))"

definition effective_window :: "conn \<Rightarrow> u32" where
  "effective_window c = min (c_peer_window c) (c_cwnd c)"

definition advertised_window :: "conn \<Rightarrow> u32" where
  "advertised_window c =
    (let held = sum_list (map (\<lambda>(_, v). word_of_nat (length v)) (c_recv_buffer c))
                + word_of_nat (length (c_delivered c))
     in sat_sub (recv_window_capacity (c_config c)) held)"

section \<open>Frame builders\<close>

text \<open>
  The inner \<open>while\<close> of \<open>current_sack_ranges\<close>: extend the run ending at \<open>e\<close> over the
  buffered chunks that continue it, returning the end of the run and the chunks left.
\<close>

fun sack_run :: "u32 \<Rightarrow> (u32, bytes) btree \<Rightarrow> u32 \<times> (u32, bytes) btree" where
  "sack_run e [] = (e, [])"
| "sack_run e ((next_start, next_data) # rest) =
     (if next_start = e + 1
      then sack_run (next_start + word_of_nat (length next_data) - 1) rest
      else (e, (next_start, next_data) # rest))"

lemma length_sack_run: "length (snd (sack_run e m)) \<le> length m"
  by (induction e m rule: sack_run.induct) auto

text \<open>The outer loop: \<open>n\<close> ranges may still be pushed.\<close>

function sack_ranges_from :: "nat \<Rightarrow> (u32, bytes) btree \<Rightarrow> sack_range list" where
  "sack_ranges_from n [] = []"
| "sack_ranges_from n ((start, data) # rest) =
     (let (e, rest') = sack_run (start + word_of_nat (length data) - 1) rest;
          r = \<lparr>sr_start = start, sr_end = e\<rparr>
      in if n = 1 then [r] else r # sack_ranges_from (n - 1) rest')"
  by pat_completeness auto
termination
proof (relation "measure (\<lambda>(n, m). length m)")
  fix n start and data :: bytes and rest x e rest' r
  assume "x = sack_run (start + word_of_nat (length data) - 1) rest" "(e, rest') = x"
  then show "((n - 1, rest'), n, (start, data) # rest) \<in> measure (\<lambda>(n, m). length m)"
    using length_sack_run [of "start + word_of_nat (length data) - 1" rest]
    by (metis case_prod_conv in_measure length_Cons less_Suc_eq_le snd_conv)
qed simp

definition current_sack_ranges :: "conn \<Rightarrow> sack_range list" where
  "current_sack_ranges c = sack_ranges_from MAX_SACK_RANGES (c_recv_buffer c)"

definition conn_header :: "conn \<Rightarrow> bool \<Rightarrow> segment_header" where
  "conn_header c fin_ack =
    \<lparr>h_ack = c_expected_seq c, h_fin_ack = fin_ack, h_window = advertised_window c,
     h_sack = current_sack_ranges c\<rparr>"

definition header_bytes :: "conn \<Rightarrow> bytes" where
  "header_bytes c = segment_encode (conn_header c False) []"

definition build_syn :: "conn \<Rightarrow> bytes" where
  "build_syn c = encode_frame 0 FLAG_SYN (header_bytes c)"

definition build_synack :: "conn \<Rightarrow> bytes" where
  "build_synack c = encode_frame 0 (FLAG_SYN OR FLAG_ACK) (header_bytes c)"

definition build_handshake_ack :: "conn \<Rightarrow> bytes" where
  "build_handshake_ack c = encode_frame 0 FLAG_ACK (header_bytes c)"

definition build_fin :: "conn \<Rightarrow> bytes" where
  "build_fin c = encode_frame (c_send_base c) (FLAG_FIN OR FLAG_ACK) (header_bytes c)"

definition build_pure_ack :: "conn \<Rightarrow> bool \<Rightarrow> bytes" where
  "build_pure_ack c fin_ack =
     encode_frame (c_send_base c) FLAG_ACK (segment_encode (conn_header c fin_ack) [])"

definition build_data_frame :: "u32 \<Rightarrow> bytes \<Rightarrow> bytes \<Rightarrow> bytes" where
  "build_data_frame seq data hdr = encode_frame seq FLAG_ACK (hdr @ data)"

definition conn_connect :: "config \<Rightarrow> tick \<Rightarrow> conn \<times> bytes" where
  "conn_connect cfg now =
    (let c = (blank cfg now SynSent)\<lparr>c_handshake := Some \<lparr>pc_sent_at = now, pc_attempts = 1\<rparr>\<rparr>
     in (c, build_syn c))"

definition conn_listen :: "config \<Rightarrow> tick \<Rightarrow> conn" where
  "conn_listen cfg now = blank cfg now Listening"

section \<open>Sending\<close>

definition admission_cap :: "conn \<Rightarrow> u32" where
  "admission_cap c =
    (let in_flight = in_flight_bytes c;
         available = sat_sub (effective_window c) in_flight
     in if in_flight = 0 then max available 1 else available)"

definition admit_chunk :: "conn \<Rightarrow> conn \<times> bytes" where
  "admit_chunk c =
    (let chunk_len = min (min (segment_size (c_config c)) (length (c_send_queue c)))
                         (unat (admission_cap c));
         data = take chunk_len (c_send_queue c);
         seq = c_next_seq c;
         c1 = c\<lparr>c_send_queue := drop chunk_len (c_send_queue c),
                c_next_seq := seq + word_of_nat chunk_len\<rparr>;
         d = build_data_frame seq data (header_bytes c1)
     in (c1\<lparr>c_unacked := bt_insert seq
              \<lparr>us_data = data, us_sent_at = c_now c, us_retransmit_count = 0, us_sacked = False\<rparr>
              (c_unacked c),
            c_stats := (c_stats c)\<lparr>data_segments_sent := data_segments_sent (c_stats c) + 1\<rparr>\<rparr>,
         d))"

partial_function (option) admit_loop :: "conn \<Rightarrow> bytes list \<Rightarrow> (conn \<times> bytes list) option" where
  "admit_loop c out =
    (if c_send_queue c = [] then Some (c, out)
     else if admission_cap c = 0 then Some (c, out)
     else case admit_chunk c of (c', d) \<Rightarrow> admit_loop c' (out @ [d]))"

declare admit_loop.simps [code]

definition try_send_more :: "conn \<Rightarrow> (conn \<times> bytes list) option" where
  "try_send_more c =
    (if c_state c \<noteq> Established \<and> c_state c \<noteq> Closing then Some (c, [])
     else admit_loop c [])"

definition maybe_send_fin :: "conn \<Rightarrow> conn \<times> bytes list" where
  "maybe_send_fin c =
    (if c_close_requested c \<and> c_fin_pending c = None \<and> \<not> c_fin_acked c
        \<and> c_state c = Established \<and> c_send_queue c = [] \<and> c_unacked c = []
     then let c' = c\<lparr>c_state := Closing,
                     c_fin_pending := Some \<lparr>pc_sent_at = c_now c, pc_attempts = 1\<rparr>\<rparr>
          in (c', [build_fin c'])
     else (c, []))"

definition check_fully_closed :: "conn \<Rightarrow> conn" where
  "check_fully_closed c =
    (if c_state c = Closing \<and> c_fin_acked c \<and> c_peer_fin_seen c then c\<lparr>c_state := Closed\<rparr> else c)"

definition drain_and_maybe_fin :: "conn \<Rightarrow> (conn \<times> bytes list) option" where
  "drain_and_maybe_fin c =
    (case try_send_more c of
       None \<Rightarrow> None
     | Some (c1, out) \<Rightarrow>
        (case maybe_send_fin c1 of (c2, fin) \<Rightarrow> Some (check_fully_closed c2, out @ fin)))"

definition conn_send :: "conn \<Rightarrow> tick \<Rightarrow> bytes \<Rightarrow> (conn \<times> bytes list) option" where
  "conn_send c now data =
     drain_and_maybe_fin (c\<lparr>c_now := max (c_now c) now, c_send_queue := c_send_queue c @ data,
       c_stats := (c_stats c)\<lparr>bytes_sent_app :=
         bytes_sent_app (c_stats c) + word_of_nat (length data)\<rparr>\<rparr>)"

definition conn_close :: "conn \<Rightarrow> tick \<Rightarrow> (conn \<times> bytes list) option" where
  "conn_close c now =
     drain_and_maybe_fin (c\<lparr>c_now := max (c_now c) now, c_close_requested := True\<rparr>)"

definition conn_recv :: "conn \<Rightarrow> conn \<times> bytes" where
  "conn_recv c = (c\<lparr>c_delivered := []\<rparr>, c_delivered c)"

section \<open>Receiving\<close>

text \<open>Lines 583 to 607: a cumulative ack that makes progress.\<close>

definition sample_acked :: "tick \<Rightarrow> u32 \<times> unacked_segment \<Rightarrow> rto_estimator \<Rightarrow> rto_estimator" where
  "sample_acked now p e =
    (if us_retransmit_count (snd p) = 0 then on_sample e (tick_sub now (us_sent_at (snd p))) else e)"

definition grow_cwnd :: "conn \<Rightarrow> u32 \<Rightarrow> u32" where
  "grow_cwnd c acked_bytes =
    (if c_cwnd c < c_ssthresh c then sat_add (c_cwnd c) acked_bytes
     else let seg = word_of_nat (segment_size (c_config c)) :: u64;
              increment = ucast (max ((seg * seg) div ucast (max (c_cwnd c) 1)) 1) :: u32
          in sat_add (c_cwnd c) increment)"

definition ack_progress :: "conn \<Rightarrow> u32 \<Rightarrow> conn" where
  "ack_progress c ack =
    (let acked_bytes = ack - c_send_base c;
         newly_acked = bt_range_below ack (c_unacked c);
         c1 = c\<lparr>c_unacked := fold (\<lambda>p m. bt_remove (fst p) m) newly_acked (c_unacked c),
                c_rto := fold (sample_acked (c_now c)) newly_acked (c_rto c),
                c_send_base := ack, c_dup_ack_count := 0\<rparr>
     in c1\<lparr>c_cwnd := grow_cwnd c acked_bytes\<rparr>)"

definition half_window :: "conn \<Rightarrow> u32" where
  "half_window c = max (c_cwnd c div 2) (2 * word_of_nat (segment_size (c_config c)))"

text \<open>Lines 608 to 627: a duplicate ack, with its fast retransmit when the count is reached.\<close>

definition dup_ack :: "conn \<Rightarrow> conn \<times> bytes option" where
  "dup_ack c =
    (let n = c_dup_ack_count c + 1 in
     if n = fast_retransmit_dup_acks (c_config c)
     then let c1 = c\<lparr>c_dup_ack_count := 0, c_ssthresh := half_window c, c_cwnd := half_window c,
                     c_stats := (c_stats c)\<lparr>fast_retransmits := fast_retransmits (c_stats c) + 1,
                        congestion_events := congestion_events (c_stats c) + 1\<rparr>\<rparr>
          in (case c_unacked c1 of
                [] \<Rightarrow> (c1, None)
              | (seq, seg) # rest \<Rightarrow>
                 let seg' = seg\<lparr>us_retransmit_count := us_retransmit_count seg + 1,
                                us_sent_at := c_now c\<rparr>;
                     c2 = c1\<lparr>c_unacked := (seq, seg') # rest,
                             c_stats := (c_stats c1)\<lparr>data_segments_retransmitted :=
                               data_segments_retransmitted (c_stats c1) + 1\<rparr>\<rparr>
                 in (c2, Some (build_data_frame seq (us_data seg) (header_bytes c2))))
     else (c\<lparr>c_dup_ack_count := n\<rparr>, None))"

text \<open>
  \<open>range_mut(start..=end)\<close> of the standard library panics when \<open>start > end\<close>, but only in a map that
  has a root node; without one it is the empty range. A \<open>BTreeMap\<close> gets its root with the first
  insertion and keeps it when entries are removed, so \<open>unacked\<close> has one as soon as a data segment was
  sent: each insertion counts one in \<open>data_segments_sent\<close>. (\<open>clear\<close> drops the root, but is only called
  on the way to \<open>Failed\<close>, where no ack is looked at any more.)
\<close>

definition unacked_rooted :: "conn \<Rightarrow> bool" where
  "unacked_rooted c \<longleftrightarrow> data_segments_sent (c_stats c) \<noteq> 0"

fun mark_sacked :: "bool \<Rightarrow> sack_range list \<Rightarrow> (u32, unacked_segment) btree
    \<Rightarrow> (u32, unacked_segment) btree option" where
  "mark_sacked rooted [] m = Some m"
| "mark_sacked rooted (r # rs) m =
     (if rooted \<and> sr_end r < sr_start r then None
      else mark_sacked rooted rs
        (bt_update_range (sr_start r) (sr_end r) (\<lambda>seg. seg\<lparr>us_sacked := True\<rparr>) m))"

definition apply_sack_fin :: "conn \<Rightarrow> segment_header \<Rightarrow> conn option" where
  "apply_sack_fin c header =
    (case mark_sacked (unacked_rooted c) (h_sack header) (c_unacked c) of
       None \<Rightarrow> None
     | Some m \<Rightarrow>
        let c1 = c\<lparr>c_unacked := m\<rparr>
        in Some (if h_fin_ack header
                 then check_fully_closed (c1\<lparr>c_fin_acked := True, c_fin_pending := None\<rparr>)
                 else c1))"

definition apply_ack :: "conn \<Rightarrow> segment_header \<Rightarrow> (conn \<times> bytes list) option" where
  "apply_ack c header =
    (let (c1, retransmit) =
        (if c_send_base c < h_ack header then (ack_progress c (h_ack header), None)
         else if h_ack header = c_send_base c \<and> c_unacked c \<noteq> [] then dup_ack c
         else (c, None))
     in case retransmit of
          Some d \<Rightarrow> Some (c1, [d])
        | None \<Rightarrow> map_option (\<lambda>c2. (c2, [])) (apply_sack_fin c1 header))"

text \<open>The \<open>while\<close> of \<open>deliver_data\<close>: hand over buffered chunks that continue the stream.\<close>

function drain_buffer :: "conn \<Rightarrow> conn" where
  "drain_buffer c =
    (case bt_first_from (c_expected_seq c) (c_recv_buffer c) of
       None \<Rightarrow> c
     | Some (k, v) \<Rightarrow>
        if k \<noteq> c_expected_seq c then c
        else drain_buffer (c\<lparr>c_recv_buffer := bt_remove k (c_recv_buffer c),
               c_expected_seq := c_expected_seq c + word_of_nat (length v),
               c_stats := (c_stats c)\<lparr>bytes_delivered_app :=
                 bytes_delivered_app (c_stats c) + word_of_nat (length v)\<rparr>,
               c_delivered := c_delivered c @ v\<rparr>))"
  by pat_completeness auto
termination
  by (relation "measure (\<lambda>c. length (c_recv_buffer c))")
    (auto dest!: bt_first_from_SomeD intro: length_bt_remove_less)

declare drain_buffer.simps [simp del]

definition deliver_data :: "conn \<Rightarrow> u32 \<Rightarrow> bytes \<Rightarrow> conn" where
  "deliver_data c seq data =
    (if data = [] then c
     else let stop = seq + word_of_nat (length data) in
       if stop \<le> c_expected_seq c
       then c\<lparr>c_stats := (c_stats c)\<lparr>duplicate_bytes_received :=
                duplicate_bytes_received (c_stats c) + word_of_nat (length data)\<rparr>\<rparr>
       else if seq \<le> c_expected_seq c
       then let skip = unat (c_expected_seq c - seq) in
         drain_buffer (c\<lparr>
           c_stats := (c_stats c)\<lparr>
             duplicate_bytes_received := duplicate_bytes_received (c_stats c) + word_of_nat skip,
             bytes_delivered_app :=
               bytes_delivered_app (c_stats c) + word_of_nat (length data - skip)\<rparr>,
           c_delivered := c_delivered c @ drop skip data,
           c_expected_seq := stop\<rparr>)
       else c\<lparr>c_recv_buffer := bt_insert seq data (c_recv_buffer c)\<rparr>)"

text \<open>
  The \<open>match self.state\<close> of \<open>on_datagram\<close> (lines 485 to 551): \<open>Inl\<close> returns, \<open>Inr\<close> falls
  through to the shared processing.
\<close>

definition complete_handshake :: "conn \<Rightarrow> conn" where
  "complete_handshake c =
    (let c1 = (case c_handshake c of
         None \<Rightarrow> c
       | Some h \<Rightarrow> c\<lparr>c_handshake := None,
           c_rto := (if pc_attempts h = 1
             then on_sample (c_rto c) (tick_sub (c_now c) (pc_sent_at h)) else c_rto c)\<rparr>)
     in c1\<lparr>c_state := Established\<rparr>)"

definition handshake_dispatch ::
  "conn \<Rightarrow> bool \<Rightarrow> bool \<Rightarrow> (conn \<times> bytes list) + (conn \<times> bytes list)" where
  "handshake_dispatch c is_syn is_ack =
    (if c_state c = Listening \<and> is_syn \<and> \<not> is_ack
     then let c1 = c\<lparr>c_state := SynReceived,
                c_handshake := Some \<lparr>pc_sent_at = c_now c, pc_attempts = 1\<rparr>\<rparr>
          in Inl (c1, [build_synack c1])
     else if c_state c = SynReceived \<and> is_syn \<and> \<not> is_ack then Inl (c, [build_synack c])
     else if c_state c = SynSent \<and> is_syn \<and> is_ack
     then let c1 = complete_handshake c in Inr (c1, [build_handshake_ack c1])
     else if c_state c = SynReceived \<and> is_ack \<and> \<not> is_syn then Inr (complete_handshake c, [])
     else if (c_state c = Established \<or> c_state c = Closing) \<and> is_syn \<and> is_ack
     then Inr (c, [build_handshake_ack c])
     else Inr (c, []))"

text \<open>Lines 553 to 571: the processing shared by \<open>Established\<close> and \<open>Closing\<close>.\<close>

definition process_segment ::
  "conn \<Rightarrow> u32 \<Rightarrow> segment_header \<Rightarrow> bytes \<Rightarrow> bool \<Rightarrow> bool \<Rightarrow> (conn \<times> bytes list) option" where
  "process_segment c seq header app_payload is_ack is_fin =
    (case (if is_ack then apply_ack c header else Some (c, [])) of
       None \<Rightarrow> None
     | Some (c1, out1) \<Rightarrow>
        let c2 = (if app_payload \<noteq> [] then deliver_data c1 seq app_payload else c1);
            c3 = (if is_fin then c2\<lparr>c_peer_fin_seen := True\<rparr> else c2);
            should_ack = (app_payload \<noteq> [] \<or> is_fin);
            c4 = (if should_ack
              then c3\<lparr>c_stats := (c_stats c3)\<lparr>ack_segments_sent := ack_segments_sent (c_stats c3) + 1\<rparr>\<rparr>
              else c3);
            out2 = (if should_ack then [build_pure_ack c4 is_fin] else [])
        in map_option (\<lambda>(c5, out3). (c5, out1 @ out2 @ out3)) (drain_and_maybe_fin c4))"

text \<open>Lines 461 to 573: a decoded segment.\<close>

definition on_segment ::
  "conn \<Rightarrow> frame \<Rightarrow> segment_header \<Rightarrow> bytes \<Rightarrow> (conn \<times> bytes list) option" where
  "on_segment c f header app_payload =
    (let c1 = c\<lparr>c_peer_window := h_window header\<rparr>;
         is_syn = (flags f AND FLAG_SYN \<noteq> 0);
         is_ack = (flags f AND FLAG_ACK \<noteq> 0);
         is_fin = (flags f AND FLAG_FIN \<noteq> 0)
     in if c_state c1 = Closed \<and> is_fin then Some (c1, [build_pure_ack c1 True])
        else (case handshake_dispatch c1 is_syn is_ack of
           Inl r \<Rightarrow> Some r
         | Inr (c2, out) \<Rightarrow>
            if c_state c2 = Established \<or> c_state c2 = Closing
            then map_option (\<lambda>(c3, out'). (c3, out @ out'))
                   (process_segment c2 (sequence f) header app_payload is_ack is_fin)
            else Some (c2, out)))"

definition on_datagram :: "conn \<Rightarrow> tick \<Rightarrow> bytes \<Rightarrow> (conn \<times> bytes list) option" where
  "on_datagram c now datagram =
    (let c0 = c\<lparr>c_now := max (c_now c) now\<rparr> in
     case frame_decode datagram of
       Inl _ \<Rightarrow> Some (c0, [])
     | Inr f \<Rightarrow>
        (case segment_decode (payload f) of
           None \<Rightarrow> Some (c0, [])
         | Some (header, app_payload) \<Rightarrow> on_segment c0 f header app_payload))"

section \<open>Timers\<close>

text \<open>Lines 677 to 696.\<close>

definition handshake_tick :: "conn \<Rightarrow> (conn \<times> bytes list) option" where
  "handshake_tick c =
    (case c_handshake c of
       None \<Rightarrow> Some (c, [])
     | Some h \<Rightarrow>
        (case rto_current (c_rto c) of
           None \<Rightarrow> None
         | Some rto \<Rightarrow>
            if rto \<le> tick_sub (c_now c) (pc_sent_at h)
            then let attempts = pc_attempts h + 1 in
              if max_retries (c_config c) < attempts
              then Some (c\<lparr>c_state := Failed TooManyRetries, c_handshake := None\<rparr>, [])
              else let c1 = c\<lparr>c_rto := on_timeout (c_rto c),
                      c_handshake := Some \<lparr>pc_sent_at = c_now c, pc_attempts = attempts\<rparr>,
                      c_stats := (c_stats c)\<lparr>control_retransmissions :=
                        control_retransmissions (c_stats c) + 1\<rparr>\<rparr>
                   in Some (c1, [if c_state c1 = SynSent then build_syn c1 else build_synack c1])
            else Some (c, [])))"

text \<open>Lines 712 to 723: the retransmission sweep over the segments not yet selectively acked.\<close>

definition resend_segment :: "tick \<Rightarrow> unacked_segment \<Rightarrow> unacked_segment" where
  "resend_segment now seg =
    (if us_sacked seg then seg
     else seg\<lparr>us_retransmit_count := us_retransmit_count seg + 1, us_sent_at := now\<rparr>)"

definition data_timeout :: "conn \<Rightarrow> conn \<times> bytes list \<times> bool" where
  "data_timeout c =
    (let c1 = c\<lparr>c_rto := on_timeout (c_rto c), c_ssthresh := half_window c,
                c_cwnd := word_of_nat (segment_size (c_config c)), c_dup_ack_count := 0,
                c_stats := (c_stats c)\<lparr>congestion_events := congestion_events (c_stats c) + 1\<rparr>\<rparr>;
         hdr = header_bytes c1;
         todo = filter (\<lambda>(_, seg). \<not> us_sacked seg) (c_unacked c1);
         m = map (\<lambda>(seq, seg). (seq, resend_segment (c_now c) seg)) (c_unacked c1);
         out = map (\<lambda>(seq, seg). build_data_frame seq (us_data seg) hdr) todo;
         failed = (\<exists>(seq, seg) \<in> set todo.
                     max_retries (c_config c) < us_retransmit_count seg + 1)
     in (c1\<lparr>c_unacked := m, c_stats := (c_stats c1)\<lparr>data_segments_retransmitted :=
            data_segments_retransmitted (c_stats c1) + word_of_nat (length todo)\<rparr>\<rparr>,
         out, failed))"

text \<open>Lines 731 to 745: the FIN timer, then the admission of more data.\<close>

definition fin_tick :: "conn \<Rightarrow> bytes list \<Rightarrow> (conn \<times> bytes list) option" where
  "fin_tick c out =
    (case c_fin_pending c of
       None \<Rightarrow> map_option (\<lambda>(c', out'). (c', out @ out')) (drain_and_maybe_fin c)
     | Some f \<Rightarrow>
        (case rto_current (c_rto c) of
           None \<Rightarrow> None
         | Some rto \<Rightarrow>
            if rto \<le> tick_sub (c_now c) (pc_sent_at f)
            then let attempts = pc_attempts f + 1 in
              if max_retries (c_config c) < attempts
              then Some (c\<lparr>c_state := Failed TooManyRetries, c_fin_pending := None\<rparr>, out)
              else let c1 = c\<lparr>c_rto := on_timeout (c_rto c),
                      c_fin_pending := Some \<lparr>pc_sent_at = c_now c, pc_attempts = attempts\<rparr>,
                      c_stats := (c_stats c)\<lparr>control_retransmissions :=
                        control_retransmissions (c_stats c) + 1\<rparr>\<rparr>
                   in map_option (\<lambda>(c', out'). (c', (out @ [build_fin c1]) @ out'))
                        (drain_and_maybe_fin c1)
            else map_option (\<lambda>(c', out'). (c', out @ out')) (drain_and_maybe_fin c)))"

definition established_tick :: "conn \<Rightarrow> (conn \<times> bytes list) option" where
  "established_tick c =
    (case c_unacked c of
       [] \<Rightarrow> fin_tick c []
     | (_, oldest) # _ \<Rightarrow>
        (case rto_current (c_rto c) of
           None \<Rightarrow> None
         | Some rto \<Rightarrow>
            if rto \<le> tick_sub (c_now c) (us_sent_at oldest)
            then (case data_timeout c of (c1, out, failed) \<Rightarrow>
                    if failed
                    then Some (c1\<lparr>c_state := Failed TooManyRetries, c_unacked := []\<rparr>, out)
                    else fin_tick c1 out)
            else fin_tick c []))"

definition on_tick :: "conn \<Rightarrow> tick \<Rightarrow> (conn \<times> bytes list) option" where
  "on_tick c now =
    (let c0 = c\<lparr>c_now := max (c_now c) now\<rparr> in
     case c_state c0 of
       SynSent \<Rightarrow> handshake_tick c0
     | SynReceived \<Rightarrow> handshake_tick c0
     | Established \<Rightarrow> established_tick c0
     | Closing \<Rightarrow> established_tick c0
     | _ \<Rightarrow> Some (c0, []))"

end
