(* ===== verification/Connection_Inv.thy ===== *)
theory Connection_Inv
  imports Connection
begin

text \<open>
  The safety invariant of one connection and its preservation by every operation. The ghost
  parameters are \<open>S\<close>, the bytes the local application has handed to \<open>send\<close>; \<open>R\<close>, the bytes
  \<open>recv\<close> has returned; and \<open>P\<close>, the bytes the peer has put on the wire so far.
\<close>

section \<open>Streams, messages and the invariant\<close>

definition tx :: "bytes \<Rightarrow> conn \<Rightarrow> bytes" where
  "tx S c = take (unat (c_next_seq c)) S"

definition chunk_ok :: "bytes \<Rightarrow> u32 \<Rightarrow> bytes \<Rightarrow> bool" where
  "chunk_ok T k v \<longleftrightarrow> v \<noteq> [] \<and> slice_at T (unat k) v"

definition header_ok :: "bytes \<Rightarrow> segment_header \<Rightarrow> bool" where
  "header_ok P h \<longleftrightarrow> unat (h_ack h) \<le> length P \<and> (\<forall>r \<in> set (h_sack h). sr_start r \<le> sr_end r)"

text \<open>
  A datagram is harmless for the peer when whatever it decodes to acknowledges only bytes the
  peer has sent and carries only bytes that stand at its sequence number in our own stream.
\<close>

definition msg_ok :: "bytes \<Rightarrow> bytes \<Rightarrow> bytes \<Rightarrow> bool" where
  "msg_ok T P d \<longleftrightarrow>
    (\<forall>f h p. frame_decode d = Inr f \<longrightarrow> segment_decode (payload f) = Some (h, p) \<longrightarrow>
       header_ok P h \<and> (p \<noteq> [] \<longrightarrow> chunk_ok T (sequence f) p))"

text \<open>What an endpoint emits is moreover a frame, at most a header longer than the bytes sent so far.\<close>

definition sent_ok :: "bytes \<Rightarrow> bytes \<Rightarrow> bytes \<Rightarrow> bool" where
  "sent_ok T P d \<longleftrightarrow> msg_ok T P d \<and> (\<exists>f. d = frame_encode f \<and> length (payload f) \<le> length T + 42)"

definition send_ok :: "bytes \<Rightarrow> conn \<Rightarrow> bool" where
  "send_ok S c \<longleftrightarrow>
     length S < 2 ^ 32
     \<and> unat (c_next_seq c) \<le> length S
     \<and> c_send_queue c = drop (unat (c_next_seq c)) S
     \<and> c_send_base c \<le> c_next_seq c
     \<and> bt_ok (c_unacked c)
     \<and> (\<forall>p \<in> set (c_unacked c). chunk_ok (tx S c) (fst p) (us_data (snd p)))"

definition recv_ok :: "bytes \<Rightarrow> bytes \<Rightarrow> conn \<Rightarrow> bool" where
  "recv_ok R P c \<longleftrightarrow>
     length P < 2 ^ 32
     \<and> unat (c_expected_seq c) \<le> length P
     \<and> R @ c_delivered c = take (unat (c_expected_seq c)) P
     \<and> bt_ok (c_recv_buffer c)
     \<and> (\<forall>p \<in> set (c_recv_buffer c). chunk_ok P (fst p) (snd p))"

definition conn_ok :: "conn \<Rightarrow> bool" where
  "conn_ok c \<longleftrightarrow> 0 < segment_size (c_config c) \<and> rto_ok (c_rto c)"

definition conn_inv :: "bytes \<Rightarrow> bytes \<Rightarrow> bytes \<Rightarrow> conn \<Rightarrow> bool" where
  "conn_inv S R P c \<longleftrightarrow> send_ok S c \<and> recv_ok R P c \<and> conn_ok c"

lemmas conn_inv_defs = conn_inv_def send_ok_def recv_ok_def conn_ok_def tx_def

text \<open>What an operation owes: it returns, keeps the invariant and emits harmless datagrams.\<close>

definition op_ok :: "bytes \<Rightarrow> bytes \<Rightarrow> bytes \<Rightarrow> conn \<Rightarrow> (conn \<times> bytes list) option \<Rightarrow> bool" where
  "op_ok S R P c r \<longleftrightarrow>
    (\<exists>c' out. r = Some (c', out) \<and> conn_inv S R P c' \<and> c_next_seq c \<le> c_next_seq c'
       \<and> (\<forall>d \<in> set out. sent_ok (tx S c') P d))"

section \<open>Monotonicity\<close>

lemma slice_at_prefix: "slice_at T k d \<Longrightarrow> prefix T T' \<Longrightarrow> slice_at T' k d"
  by (auto simp: prefix_def intro: slice_at_append)

lemma chunk_ok_prefix: "chunk_ok T k v \<Longrightarrow> prefix T T' \<Longrightarrow> chunk_ok T' k v"
  by (auto simp: chunk_ok_def intro: slice_at_prefix)

lemma msg_ok_prefix: "msg_ok T P d \<Longrightarrow> prefix T T' \<Longrightarrow> prefix P P' \<Longrightarrow> msg_ok T' P' d"
  using prefix_length_le [of P P']
  by (fastforce simp: msg_ok_def header_ok_def intro: chunk_ok_prefix)

lemma sent_ok_prefix: "sent_ok T P d \<Longrightarrow> prefix T T' \<Longrightarrow> prefix P P' \<Longrightarrow> sent_ok T' P' d"
  using prefix_length_le [of T T'] msg_ok_prefix [of T P d T' P']
  by (auto simp: sent_ok_def)

lemma tx_prefix: "c_next_seq c \<le> c_next_seq c' \<Longrightarrow> prefix (tx S c) (tx S c')"
  by (simp add: tx_def word_le_nat_alt take_is_prefix) (metis min.absorb1 take_is_prefix take_take)

lemma sent_ok_tx:
  "sent_ok (tx S c) P d \<Longrightarrow> c_next_seq c \<le> c_next_seq c' \<Longrightarrow> sent_ok (tx S c') P d"
  using sent_ok_prefix [OF _ tx_prefix, of S c P d c' P] by auto

lemma recv_ok_prefix:
  assumes "recv_ok R P c" and "prefix P P'" and "length P' < 2 ^ 32"
  shows "recv_ok R P' c"
proof -
  obtain Z where "P' = P @ Z" using assms(2) by (auto simp: prefix_def)
  with assms show ?thesis by (auto simp: recv_ok_def intro: chunk_ok_prefix)
qed

lemma conn_inv_prefix:
  "conn_inv S R P c \<Longrightarrow> prefix P P' \<Longrightarrow> length P' < 2 ^ 32 \<Longrightarrow> conn_inv S R P' c"
  by (auto simp: conn_inv_def intro: recv_ok_prefix)

lemma tx_append: "send_ok S c \<Longrightarrow> tx (S @ data) c = tx S c"
  by (simp add: send_ok_def tx_def)

lemma length_tx: "send_ok S c \<Longrightarrow> length (tx S c) = unat (c_next_seq c)"
  by (simp add: send_ok_def tx_def)

section \<open>Fields the invariant does not read\<close>

lemma tx_frame [simp]:
  "tx S (c\<lparr>c_state := a1\<rparr>) = tx S c" "tx S (c\<lparr>c_now := a2\<rparr>) = tx S c"
  "tx S (c\<lparr>c_stats := a3\<rparr>) = tx S c" "tx S (c\<lparr>c_handshake := a4\<rparr>) = tx S c"
  "tx S (c\<lparr>c_close_requested := a5\<rparr>) = tx S c" "tx S (c\<lparr>c_fin_pending := a6\<rparr>) = tx S c"
  "tx S (c\<lparr>c_fin_acked := a7\<rparr>) = tx S c" "tx S (c\<lparr>c_peer_window := a8\<rparr>) = tx S c"
  "tx S (c\<lparr>c_cwnd := a9\<rparr>) = tx S c" "tx S (c\<lparr>c_ssthresh := a10\<rparr>) = tx S c"
  "tx S (c\<lparr>c_dup_ack_count := a11\<rparr>) = tx S c" "tx S (c\<lparr>c_peer_fin_seen := a12\<rparr>) = tx S c"
  "tx S (c\<lparr>c_unacked := a13\<rparr>) = tx S c" "tx S (c\<lparr>c_rto := a14\<rparr>) = tx S c"
  "tx S (c\<lparr>c_send_base := a15\<rparr>) = tx S c" "tx S (c\<lparr>c_expected_seq := a16\<rparr>) = tx S c"
  "tx S (c\<lparr>c_recv_buffer := a17\<rparr>) = tx S c" "tx S (c\<lparr>c_delivered := a18\<rparr>) = tx S c"
  "tx S (c\<lparr>c_send_queue := a19\<rparr>) = tx S c"
  by (simp_all add: tx_def)

text \<open>
  The fields the invariant reads. Rewriting with \<open>inv_core\<close> reduces two states that differ in
  other fields only to the same term.
\<close>

definition core :: "conn \<Rightarrow> config \<times> rto_estimator \<times> bytes \<times> u32 \<times> u32
    \<times> (u32, unacked_segment) btree \<times> u32 \<times> (u32, bytes) btree \<times> bytes" where
  "core c = (c_config c, c_rto c, c_send_queue c, c_next_seq c, c_send_base c, c_unacked c,
     c_expected_seq c, c_recv_buffer c, c_delivered c)"

definition core_inv where
  "core_inv S R P t \<longleftrightarrow> (\<exists>c. core c = t \<and> conn_inv S R P c)"

lemma conn_inv_core: "conn_inv S R P c \<longleftrightarrow> core_inv S R P (core c)"
proof
  assume "core_inv S R P (core c)"
  then obtain c' where "core c' = core c" "conn_inv S R P c'" by (auto simp: core_inv_def)
  then show "conn_inv S R P c" by (simp add: core_def conn_inv_defs)
qed (auto simp: core_inv_def)

lemmas inv_core = conn_inv_core core_def

lemma conn_inv_frame [simp]:
  "conn_inv S R P (c\<lparr>c_state := a1\<rparr>) = conn_inv S R P c"
  "conn_inv S R P (c\<lparr>c_now := a2\<rparr>) = conn_inv S R P c"
  "conn_inv S R P (c\<lparr>c_stats := a3\<rparr>) = conn_inv S R P c"
  "conn_inv S R P (c\<lparr>c_handshake := a4\<rparr>) = conn_inv S R P c"
  "conn_inv S R P (c\<lparr>c_close_requested := a5\<rparr>) = conn_inv S R P c"
  "conn_inv S R P (c\<lparr>c_fin_pending := a6\<rparr>) = conn_inv S R P c"
  "conn_inv S R P (c\<lparr>c_fin_acked := a7\<rparr>) = conn_inv S R P c"
  "conn_inv S R P (c\<lparr>c_peer_window := a8\<rparr>) = conn_inv S R P c"
  "conn_inv S R P (c\<lparr>c_cwnd := a9\<rparr>) = conn_inv S R P c"
  "conn_inv S R P (c\<lparr>c_ssthresh := a10\<rparr>) = conn_inv S R P c"
  "conn_inv S R P (c\<lparr>c_dup_ack_count := a11\<rparr>) = conn_inv S R P c"
  "conn_inv S R P (c\<lparr>c_peer_fin_seen := a12\<rparr>) = conn_inv S R P c"
  by (simp_all add: inv_core)

lemma conn_inv_rto:
  "conn_inv S R P c \<Longrightarrow> rto_ok e \<Longrightarrow> conn_inv S R P (c\<lparr>c_rto := e\<rparr>)"
  by (simp add: conn_inv_defs)

lemma conn_inv_unacked:
  assumes "conn_inv S R P c" and "bt_ok m"
    and "\<And>k s. (k, s) \<in> set m \<Longrightarrow> \<exists>s'. (k, s') \<in> set (c_unacked c) \<and> us_data s = us_data s'"
  shows "conn_inv S R P (c\<lparr>c_unacked := m\<rparr>)"
  using assms unfolding conn_inv_def send_ok_def recv_ok_def conn_ok_def
  by (auto 0 3) (metis fst_conv snd_conv)

section \<open>Selective acks and built frames\<close>

lemma chunk_ok_bound: "chunk_ok P k v \<Longrightarrow> unat k + length v \<le> length P"
  by (simp add: chunk_ok_def slice_at_def)

lemma unat_chunk_last:
  assumes "chunk_ok P k v" and "length P < 2 ^ 32"
  shows "unat (k + word_of_nat (length v) - 1) = unat k + length v - 1"
proof -
  obtain n where n: "length v = Suc n"
    using assms(1) by (cases v) (auto simp: chunk_ok_def)
  have "unat k + length v < 2 ^ 32"
    using assms chunk_ok_bound [OF assms(1)] by simp
  then have "unat (k + word_of_nat n) = unat k + n"
    by (simp add: unat_word_ariths unat_of_nat n)
  then show ?thesis
    by (simp add: n)
qed

lemma sack_run_ok:
  assumes "\<forall>p \<in> set m. chunk_ok P (fst p) (snd p)" and "length P < 2 ^ 32"
    and "unat e < length P"
  shows "e \<le> fst (sack_run e m) \<and> unat (fst (sack_run e m)) < length P
    \<and> set (snd (sack_run e m)) \<subseteq> set m"
  using assms
proof (induction e m rule: sack_run.induct)
  case (2 e k v rest)
  show ?case
  proof (cases "k = e + 1")
    case True
    have c: "chunk_ok P k v" using "2.prems" by auto
    have "unat (e + 1) = unat e + 1" using "2.prems" by (simp add: unat_word_ariths)
    moreover have "0 < length v" using c by (simp add: chunk_ok_def)
    ultimately have "unat e \<le> unat (k + word_of_nat (length v) - 1)"
      and "unat (k + word_of_nat (length v) - 1) < length P"
      using unat_chunk_last [OF c] chunk_ok_bound [OF c] "2.prems" True by simp_all
    then show ?thesis
      using "2.IH" [OF True] "2.prems" True by (fastforce simp: word_le_nat_alt)
  qed (use "2.prems" in auto)
qed simp

lemma sack_ranges_ok:
  assumes "\<forall>p \<in> set m. chunk_ok P (fst p) (snd p)" and "length P < 2 ^ 32"
    and "r \<in> set (sack_ranges_from n m)"
  shows "sr_start r \<le> sr_end r"
  using assms
proof (induction n m rule: sack_ranges_from.induct)
  case (2 n k v rest)
  let ?e = "k + word_of_nat (length v) - 1"
  obtain e rest' where run: "sack_run ?e rest = (e, rest')" by fastforce
  have c: "chunk_ok P k v" using "2.prems" by auto
  then obtain m where "length v = Suc m" by (cases v) (auto simp: chunk_ok_def)
  then have "unat k \<le> unat ?e" "unat ?e < length P"
    using unat_chunk_last [OF c "2.prems"(2)] chunk_ok_bound [OF c] by simp_all
  moreover from this have "?e \<le> e" "set rest' \<subseteq> set rest"
    using sack_run_ok [of rest P ?e] "2.prems" by (simp_all add: run)
  ultimately have "k \<le> e" and rest': "\<forall>p \<in> set rest'. chunk_ok P (fst p) (snd p)"
    using "2.prems" by (auto simp: word_le_nat_alt)
  then show ?case
    using "2.IH" [OF run [symmetric] refl refl _ rest'] "2.prems"
    by (auto simp: run Let_def split: if_splits)
qed simp

lemma header_ok_conn:
  assumes "recv_ok R P c"
  shows "header_ok P (conn_header c b)"
  using assms sack_ranges_ok [of "c_recv_buffer c" P]
  by (auto simp: header_ok_def conn_header_def current_sack_ranges_def recv_ok_def)

lemma sent_ok_frame:
  assumes "header_ok P h" and "p \<noteq> [] \<Longrightarrow> chunk_ok T seq p"
  shows "sent_ok T P (encode_frame seq flgs (segment_encode h [] @ p))"
proof -
  have "length p \<le> length T"
    using assms(2) chunk_ok_bound [of T seq p] by (cases "p = []") simp_all
  then have "length (segment_encode h [] @ p) \<le> length T + 42"
    by (simp add: length_segment_encode)
  then have "\<exists>f. encode_frame seq flgs (segment_encode h [] @ p) = frame_encode f
      \<and> length (payload f) \<le> length T + 42"
    unfolding encode_frame_def
    by (intro exI [of _ "\<lparr>frame_type = 0, sequence = seq, flags = flgs, payload = segment_encode h [] @ p\<rparr>"])
      simp
  moreover have "msg_ok T P (encode_frame seq flgs (segment_encode h [] @ p))"
    using assms
    by (auto simp: msg_ok_def encode_frame_def frame_decode_encode segment_decode_encode header_ok_def
        dest: in_set_takeD split: if_splits)
  ultimately show ?thesis by (simp add: sent_ok_def)
qed

lemma sent_ok_bare:
  assumes "header_ok P h"
  shows "sent_ok T P (encode_frame seq flgs (segment_encode h []))"
  using sent_ok_frame [OF assms, of "[]"] by simp

lemma sent_ok_builders:
  assumes "conn_inv S R P c"
  shows "sent_ok T P (build_syn c)" "sent_ok T P (build_synack c)" "sent_ok T P (build_handshake_ack c)"
    "sent_ok T P (build_fin c)" "sent_ok T P (build_pure_ack c b)"
    "chunk_ok T seq data \<Longrightarrow> sent_ok T P (build_data_frame seq data (header_bytes c))"
proof -
  have h: "header_ok P (conn_header c b)" for b
    using assms by (auto simp: conn_inv_def intro: header_ok_conn)
  show "sent_ok T P (build_syn c)" "sent_ok T P (build_synack c)" "sent_ok T P (build_handshake_ack c)"
    "sent_ok T P (build_fin c)" "sent_ok T P (build_pure_ack c b)"
    by (simp_all add: build_syn_def build_synack_def build_handshake_ack_def build_fin_def
        build_pure_ack_def header_bytes_def sent_ok_bare h)
  show "chunk_ok T seq data \<Longrightarrow> sent_ok T P (build_data_frame seq data (header_bytes c))"
    by (simp add: build_data_frame_def header_bytes_def sent_ok_frame h)
qed

section \<open>Sending\<close>

lemma unacked_below_next:
  assumes "conn_inv S R P c" and "p \<in> set (c_unacked c)"
  shows "fst p < c_next_seq c"
proof -
  have "chunk_ok (tx S c) (fst p) (us_data (snd p))" and s: "send_ok S c"
    using assms by (auto simp: conn_inv_def send_ok_def)
  then have "unat (fst p) + length (us_data (snd p)) \<le> unat (c_next_seq c)"
    and "us_data (snd p) \<noteq> []"
    using chunk_ok_bound length_tx [OF s] by (fastforce simp: chunk_ok_def)+
  then show ?thesis by (cases "us_data (snd p)") (simp_all add: word_less_nat_alt)
qed

lemma admission_cap_le: "admission_cap c \<noteq> 0 \<Longrightarrow> 0 < unat (admission_cap c)"
  by (simp add: unat_gt_0)

lemma admit_chunk_inv:
  assumes inv: "conn_inv S R P c" and q: "c_send_queue c \<noteq> []" and cap: "admission_cap c \<noteq> 0"
    and step: "admit_chunk c = (c', d)"
  shows "conn_inv S R P c'" and "c_next_seq c \<le> c_next_seq c'" and "sent_ok (tx S c') P d"
    and "length (c_send_queue c') < length (c_send_queue c)"
proof -
  define n where "n = min (min (segment_size (c_config c)) (length (c_send_queue c)))
    (unat (admission_cap c))"
  define data where "data = take n (c_send_queue c)"
  note I = inv [unfolded conn_inv_defs]
  have n: "0 < n" "n \<le> length (c_send_queue c)"
    using I q cap by (auto simp: n_def unat_gt_0)
  then have bound: "unat (c_next_seq c) + n \<le> length S" using I by auto
  have next': "unat (c_next_seq c + word_of_nat n) = unat (c_next_seq c) + n"
    using bound I by (simp add: unat_word_ariths unat_of_nat)
  then have le: "c_next_seq c \<le> c_next_seq c + word_of_nat n" by (simp add: word_le_nat_alt)
  have data: "chunk_ok (take (unat (c_next_seq c) + n) S) (c_next_seq c) data"
    using I n bound by (auto simp: chunk_ok_def slice_at_def data_def drop_take)
  define c1 where "c1 = c\<lparr>c_send_queue := drop n (c_send_queue c),
    c_next_seq := c_next_seq c + word_of_nat n\<rparr>"
  let ?seg = "\<lparr>us_data = data, us_sent_at = c_now c, us_retransmit_count = 0, us_sacked = False\<rparr>"
  have d: "d = build_data_frame (c_next_seq c) data (header_bytes c1)"
    and c': "c' = c1\<lparr>c_unacked := bt_insert (c_next_seq c) ?seg (c_unacked c),
      c_stats := (c_stats c)\<lparr>data_segments_sent := data_segments_sent (c_stats c) + 1\<rparr>\<rparr>"
    using step by (auto simp: admit_chunk_def Let_def n_def data_def c1_def)
  have tx1: "tx S c1 = take (unat (c_next_seq c) + n) S"
    by (simp add: tx_def c1_def next')
  have pre: "prefix (tx S c) (tx S c1)"
    by (rule tx_prefix) (simp add: c1_def le)
  have inv1: "conn_inv S R P c1"
    using I bound le next' chunk_ok_prefix [OF _ pre]
    by (auto simp: conn_inv_defs c1_def drop_drop add.commute intro: order_trans)
  show "conn_inv S R P c'"
    using inv1 data tx1 unfolding c'
    by (auto simp: conn_inv_def send_ok_def recv_ok_def conn_ok_def set_bt_insert c1_def)
  show "c_next_seq c \<le> c_next_seq c'" by (simp add: c' c1_def le)
  show "sent_ok (tx S c') P d"
    unfolding d c' by (rule sent_ok_builders(6) [OF inv1]) (simp add: tx1 data)
  show "length (c_send_queue c') < length (c_send_queue c)"
    using n by (simp add: c' c1_def)
qed

text \<open>
  The admission loop returns: every pass takes at least one byte from the queue, because the
  segment size is not 0. Everything but the queue, the next sequence number, the unacked
  segments and the counters is untouched.
\<close>

definition same_but_send :: "conn \<Rightarrow> conn \<Rightarrow> bool" where
  "same_but_send c c' \<longleftrightarrow>
     c_state c' = c_state c \<and> c_config c' = c_config c \<and> c_now c' = c_now c \<and> c_rto c' = c_rto c
     \<and> c_handshake c' = c_handshake c \<and> c_send_base c' = c_send_base c
     \<and> c_close_requested c' = c_close_requested c \<and> c_fin_pending c' = c_fin_pending c
     \<and> c_fin_acked c' = c_fin_acked c \<and> c_peer_window c' = c_peer_window c \<and> c_cwnd c' = c_cwnd c
     \<and> c_ssthresh c' = c_ssthresh c \<and> c_dup_ack_count c' = c_dup_ack_count c
     \<and> c_expected_seq c' = c_expected_seq c \<and> c_recv_buffer c' = c_recv_buffer c
     \<and> c_delivered c' = c_delivered c \<and> c_peer_fin_seen c' = c_peer_fin_seen c"

lemma same_but_send_refl [simp]: "same_but_send c c"
  by (simp add: same_but_send_def)

lemma same_but_send_trans: "same_but_send a b \<Longrightarrow> same_but_send b c \<Longrightarrow> same_but_send a c"
  by (simp add: same_but_send_def)

lemma admit_chunk_same: "same_but_send c (fst (admit_chunk c))"
  by (simp add: admit_chunk_def Let_def same_but_send_def)

lemma admit_loop_ok:
  assumes "conn_inv S R P c" and "\<forall>d \<in> set out. sent_ok (tx S c) P d"
  shows "\<exists>c' out'. admit_loop c out = Some (c', out') \<and> conn_inv S R P c'
    \<and> c_next_seq c \<le> c_next_seq c' \<and> (\<forall>d \<in> set out'. sent_ok (tx S c') P d)
    \<and> same_but_send c c'"
  using assms
proof (induction "length (c_send_queue c)" arbitrary: c out rule: less_induct)
  case less
  show ?case
  proof (cases "c_send_queue c = [] \<or> admission_cap c = 0")
    case True
    then show ?thesis
      using less.prems by (subst admit_loop.simps) auto
  next
    case False
    obtain c1 d where step: "admit_chunk c = (c1, d)" by fastforce
    note A = admit_chunk_inv [OF less.prems(1) _ _ step]
    have msgs: "\<forall>d \<in> set (out @ [d]). sent_ok (tx S c1) P d"
      using less.prems(2) A False by (auto intro: sent_ok_tx)
    obtain c' out' where "admit_loop c1 (out @ [d]) = Some (c', out')" "conn_inv S R P c'"
      "c_next_seq c1 \<le> c_next_seq c'" "\<forall>d \<in> set out'. sent_ok (tx S c') P d" "same_but_send c1 c'"
      using less.hyps [OF A(4) A(1) msgs] False by auto
    moreover have "admit_loop c out = admit_loop c1 (out @ [d])"
      using False step by (subst admit_loop.simps) simp
    ultimately show ?thesis
      using A(2) False admit_chunk_same [of c] step
      by (fastforce intro: order_trans same_but_send_trans)
  qed
qed

lemma try_send_more_ok:
  assumes "conn_inv S R P c"
  obtains c' out where "try_send_more c = Some (c', out)" "conn_inv S R P c'"
    "c_next_seq c \<le> c_next_seq c'" "\<forall>d \<in> set out. sent_ok (tx S c') P d" "same_but_send c c'"
proof (cases "c_state c \<noteq> Established \<and> c_state c \<noteq> Closing")
  case True
  then show ?thesis using assms that [of c "[]"] by (simp add: try_send_more_def)
next
  case False
  then have "try_send_more c = admit_loop c []" by (auto simp: try_send_more_def)
  then show ?thesis using admit_loop_ok [OF assms, of "[]"] that by auto
qed

lemma conn_inv_check_fully_closed [simp]:
  "conn_inv S R P (check_fully_closed c) = conn_inv S R P c"
  by (simp add: check_fully_closed_def)

lemma check_fully_closed_fields [simp]:
  "c_next_seq (check_fully_closed c) = c_next_seq c" "tx S (check_fully_closed c) = tx S c"
  by (simp_all add: check_fully_closed_def)

lemma drain_and_maybe_fin_ok:
  assumes "conn_inv S R P c"
  shows "op_ok S R P c (drain_and_maybe_fin c)"
proof -
  obtain c1 out where s: "try_send_more c = Some (c1, out)" "conn_inv S R P c1"
    "c_next_seq c \<le> c_next_seq c1" "\<forall>d \<in> set out. sent_ok (tx S c1) P d"
    using try_send_more_ok [OF assms] by metis
  obtain c2 fin where f: "maybe_send_fin c1 = (c2, fin)" by fastforce
  have "conn_inv S R P c2 \<and> c_next_seq c2 = c_next_seq c1 \<and> tx S c2 = tx S c1
      \<and> (\<forall>d \<in> set fin. sent_ok (tx S c1) P d)"
    using f s(2) by (auto simp: maybe_send_fin_def Let_def sent_ok_builders split: if_splits)
  with s f show ?thesis
    by (auto simp: op_ok_def drain_and_maybe_fin_def)
qed

lemma op_ok_mono:
  assumes "op_ok S R P c1 r" and "c_next_seq c \<le> c_next_seq c1"
  shows "op_ok S R P c r"
  using assms by (auto simp: op_ok_def intro: order_trans)

lemma op_ok_prepend:
  assumes "op_ok S R P c1 r" and "\<forall>d \<in> set out. sent_ok (tx S c1) P d"
  shows "op_ok S R P c1 (map_option (\<lambda>(c', out'). (c', out @ out')) r)"
  using assms sent_ok_tx by (fastforce simp: op_ok_def)

lemma op_ok_Some:
  "conn_inv S R P c' \<Longrightarrow> c_next_seq c' = c_next_seq c \<Longrightarrow>
     \<forall>d \<in> set out. sent_ok (tx S c') P d \<Longrightarrow> op_ok S R P c (Some (c', out))"
  by (auto simp: op_ok_def)

lemma conn_send_ok:
  assumes "conn_inv S R P c" and "length (S @ data) < 2 ^ 32"
  shows "op_ok (S @ data) R P c (conn_send c now data)"
proof -
  have "conn_inv (S @ data) R P (c\<lparr>c_send_queue := c_send_queue c @ data\<rparr>)"
    using assms by (auto simp: conn_inv_def send_ok_def recv_ok_def conn_ok_def tx_def)
  then show ?thesis
    unfolding conn_send_def
    by (intro op_ok_mono [OF drain_and_maybe_fin_ok]) (simp_all add: conn_inv_defs)
qed

lemma conn_close_ok: "conn_inv S R P c \<Longrightarrow> op_ok S R P c (conn_close c now)"
  unfolding conn_close_def by (rule op_ok_mono [OF drain_and_maybe_fin_ok]) simp_all

lemma conn_recv_ok: "conn_inv S R P c \<Longrightarrow> conn_inv S (R @ c_delivered c) P (fst (conn_recv c))"
  by (simp add: conn_inv_defs conn_recv_def)

section \<open>Acknowledgements\<close>

lemma fold_bt_remove:
  "fold (\<lambda>p m. bt_remove (fst p) m) ps m = filter (\<lambda>q. fst q \<notin> fst ` set ps) m"
proof (induction ps arbitrary: m)
  case (Cons p ps)
  then show ?case by (simp add: bt_remove_def conj_commute cong: filter_cong)
qed simp

lemma remove_acked:
  "fold (\<lambda>p m. bt_remove (fst p) m) (bt_range_below ack m) m = filter (\<lambda>q. ack \<le> fst q) m"
  unfolding fold_bt_remove by (rule filter_cong) (auto simp: bt_range_below_def not_less)

lemma rto_ok_fold_sample: "rto_ok e \<Longrightarrow> rto_ok (fold (sample_acked now) ps e)"
  by (induction ps arbitrary: e) (simp_all add: sample_acked_def)

lemma ack_progress_ok:
  assumes "conn_inv S R P c" and "unat ack \<le> length (tx S c)"
  shows "conn_inv S R P (ack_progress c ack)"
proof -
  have inv: "conn_inv S R P (c\<lparr>c_send_base := ack\<rparr>)"
    using assms by (auto simp: conn_inv_defs word_le_nat_alt)
  then have "conn_inv S R P (c\<lparr>c_send_base := ack,
      c_unacked := filter (\<lambda>q. ack \<le> fst q) (c_unacked c)\<rparr>)"
    using assms(1) by (intro conn_inv_unacked) (auto simp: conn_inv_defs)
  then show ?thesis
    using assms(1) by (simp add: ack_progress_def Let_def remove_acked conn_inv_rto rto_ok_fold_sample conn_inv_defs)
qed

lemma dup_ack_ok:
  assumes "conn_inv S R P c" and "dup_ack c = (c', r)"
  shows "conn_inv S R P c' \<and> c_next_seq c' = c_next_seq c \<and> tx S c' = tx S c
    \<and> (\<forall>d. r = Some d \<longrightarrow> sent_ok (tx S c) P d)"
proof (cases "c_unacked c")
  case Nil
  with assms show ?thesis by (auto simp: dup_ack_def Let_def split: if_splits)
next
  case (Cons p rest)
  obtain seq seg where p: "p = (seq, seg)" by fastforce
  let ?seg = "seg\<lparr>us_retransmit_count := us_retransmit_count seg + 1, us_sent_at := c_now c\<rparr>"
  have "bt_ok ((seq, ?seg) # rest)"
    using assms(1) Cons p by (simp add: conn_inv_defs bt_ok_Cons)
  then have m: "conn_inv S R P (c\<lparr>c_unacked := (seq, ?seg) # rest\<rparr>)"
    using assms(1) Cons p by (intro conn_inv_unacked) auto
  have seg: "chunk_ok (tx S c) seq (us_data seg)"
    using assms(1) Cons p by (auto simp: conn_inv_def send_ok_def)
  define c2 where "c2 = c\<lparr>c_dup_ack_count := 0, c_ssthresh := half_window c,
    c_cwnd := half_window c, c_unacked := (seq, ?seg) # rest,
    c_stats := (c_stats c)\<lparr>fast_retransmits := fast_retransmits (c_stats c) + 1,
      congestion_events := congestion_events (c_stats c) + 1,
      data_segments_retransmitted := data_segments_retransmitted (c_stats c) + 1\<rparr>\<rparr>"
  have c2: "conn_inv S R P c2" "c_next_seq c2 = c_next_seq c" "tx S c2 = tx S c"
    using m by (simp_all add: inv_core c2_def tx_def)
  have "(c', r) = (c2, Some (build_data_frame seq (us_data seg) (header_bytes c2)))
      \<or> (c', r) = (c\<lparr>c_dup_ack_count := c_dup_ack_count c + 1\<rparr>, None)"
    using assms(2) by (auto simp: dup_ack_def Let_def Cons p c2_def split: if_splits)
  then show ?thesis
    using c2 assms(1) sent_ok_builders(6) [OF c2(1) seg] by auto
qed

lemma bt_update_range_sacked:
  "(k, s) \<in> set (bt_update_range lo hi (\<lambda>seg. seg\<lparr>us_sacked := True\<rparr>) m) \<Longrightarrow>
     \<exists>s'. (k, s') \<in> set m \<and> us_data s = us_data s'"
  by (auto dest!: set_bt_update_rangeD)

lemma mark_sacked_ok:
  assumes "\<forall>r \<in> set rs. sr_start r \<le> sr_end r"
  shows "\<exists>m'. mark_sacked b rs m = Some m' \<and> map fst m' = map fst m
    \<and> (\<forall>k s. (k, s) \<in> set m' \<longrightarrow> (\<exists>s'. (k, s') \<in> set m \<and> us_data s = us_data s'))"
  using assms
proof (induction rs arbitrary: m)
  case (Cons r rs)
  let ?m = "bt_update_range (sr_start r) (sr_end r) (\<lambda>seg. seg\<lparr>us_sacked := True\<rparr>) m"
  obtain m' where m': "mark_sacked b rs ?m = Some m'" "map fst m' = map fst ?m"
    "\<forall>k s. (k, s) \<in> set m' \<longrightarrow> (\<exists>s'. (k, s') \<in> set ?m \<and> us_data s = us_data s')"
    using Cons.IH [of ?m] Cons.prems by auto
  have "\<exists>s'. (k, s') \<in> set m \<and> us_data s = us_data s'" if "(k, s) \<in> set m'" for k s
    using m'(3) that bt_update_range_sacked by metis
  with m'(1,2) Cons.prems show ?case by auto
qed auto

lemma apply_sack_fin_ok:
  assumes "conn_inv S R P c" and "\<forall>r \<in> set (h_sack h). sr_start r \<le> sr_end r"
  shows "\<exists>c'. apply_sack_fin c h = Some c' \<and> conn_inv S R P c' \<and> c_next_seq c' = c_next_seq c"
proof -
  obtain m where m: "mark_sacked (unacked_rooted c) (h_sack h) (c_unacked c) = Some m"
    and keys: "map fst m = map fst (c_unacked c)"
    and data: "\<forall>k s. (k, s) \<in> set m \<longrightarrow> (\<exists>s'. (k, s') \<in> set (c_unacked c) \<and> us_data s = us_data s')"
    using mark_sacked_ok [OF assms(2)] by metis
  have "conn_inv S R P (c\<lparr>c_unacked := m\<rparr>)"
    using assms(1) data bt_ok_map_values [OF keys]
    by (intro conn_inv_unacked) (auto simp: conn_inv_defs)
  then show ?thesis by (simp add: apply_sack_fin_def m Let_def)
qed

lemma apply_ack_ok:
  assumes "conn_inv S R P c" and "header_ok (tx S c) h"
  shows "op_ok S R P c (apply_ack c h)"
proof -
  define r where "r = (if c_send_base c < h_ack h then (ack_progress c (h_ack h), None)
         else if h_ack h = c_send_base c \<and> c_unacked c \<noteq> [] then dup_ack c
         else (c, None))"
  obtain c1 re where r: "r = (c1, re)" by fastforce
  have "conn_inv S R P c1 \<and> c_next_seq c1 = c_next_seq c \<and> tx S c1 = tx S c
      \<and> (\<forall>d. re = Some d \<longrightarrow> sent_ok (tx S c) P d)"
    using r assms ack_progress_ok [OF assms(1)] dup_ack_ok [OF assms(1)]
    by (auto simp: r_def header_ok_def split: if_splits) (auto simp: ack_progress_def Let_def)
  moreover have "apply_ack c h = (case re of Some d \<Rightarrow> Some (c1, [d])
        | None \<Rightarrow> map_option (\<lambda>c2. (c2, [])) (apply_sack_fin c1 h))"
    unfolding apply_ack_def r_def [symmetric] r by simp
  ultimately show ?thesis
    using apply_sack_fin_ok [of S R P c1 h] assms(2)
    by (cases re) (auto simp: op_ok_def header_ok_def)
qed

section \<open>Delivery\<close>

definition same_but_recv :: "conn \<Rightarrow> conn \<Rightarrow> bool" where
  "same_but_recv c c' \<longleftrightarrow>
     c_state c' = c_state c \<and> c_config c' = c_config c \<and> c_now c' = c_now c \<and> c_rto c' = c_rto c
     \<and> c_handshake c' = c_handshake c \<and> c_send_queue c' = c_send_queue c
     \<and> c_next_seq c' = c_next_seq c \<and> c_send_base c' = c_send_base c \<and> c_unacked c' = c_unacked c
     \<and> c_close_requested c' = c_close_requested c \<and> c_fin_pending c' = c_fin_pending c
     \<and> c_fin_acked c' = c_fin_acked c \<and> c_peer_window c' = c_peer_window c \<and> c_cwnd c' = c_cwnd c
     \<and> c_ssthresh c' = c_ssthresh c \<and> c_dup_ack_count c' = c_dup_ack_count c
     \<and> c_peer_fin_seen c' = c_peer_fin_seen c"

lemma same_but_recv_refl [simp]: "same_but_recv c c"
  by (simp add: same_but_recv_def)

lemma same_but_recv_trans: "same_but_recv a b \<Longrightarrow> same_but_recv b c \<Longrightarrow> same_but_recv a c"
  by (simp add: same_but_recv_def)

lemma unat_chunk_end:
  assumes "chunk_ok P k v" and "length P < 2 ^ 32"
  shows "unat (k + word_of_nat (length v)) = unat k + length v"
  using assms chunk_ok_bound [OF assms(1)] by (simp add: unat_word_ariths unat_of_nat)

text \<open>Appending a chunk that reaches past the expected byte extends the delivered prefix.\<close>

lemma recv_ok_extend:
  assumes "recv_ok R P c" and "chunk_ok P k v" and "k \<le> c_expected_seq c"
    and "c_expected_seq c \<le> k + word_of_nat (length v)"
  shows "recv_ok R P (c\<lparr>c_expected_seq := k + word_of_nat (length v),
    c_delivered := c_delivered c @ drop (unat (c_expected_seq c - k)) v\<rparr>)"
proof -
  note I = assms(1) [unfolded recv_ok_def]
  have stop: "unat (k + word_of_nat (length v)) = unat k + length v"
    using I assms(2) by (intro unat_chunk_end) auto
  have skip: "unat (c_expected_seq c - k) = unat (c_expected_seq c) - unat k"
    using assms(3) by (simp add: unat_sub_if' word_le_nat_alt)
  have "(R @ c_delivered c) @ drop (unat (c_expected_seq c) - unat k) v = take (unat k + length v) P"
    using I assms(2,3,4) stop
    by (intro slice_at_prefix_extend) (auto simp: chunk_ok_def word_le_nat_alt)
  then have "R @ c_delivered c @ drop (unat (c_expected_seq c) - unat k) v = take (unat k + length v) P"
    by (simp only: append_assoc)
  then show ?thesis
    using I chunk_ok_bound [OF assms(2)] by (simp add: recv_ok_def stop skip)
qed

lemma drain_buffer_ok:
  "recv_ok R P c \<Longrightarrow> recv_ok R P (drain_buffer c) \<and> same_but_recv c (drain_buffer c)"
proof (induction c rule: drain_buffer.induct)
  case (1 c)
  show ?case
  proof (cases "\<exists>v. bt_first_from (c_expected_seq c) (c_recv_buffer c) = Some (c_expected_seq c, v)")
    case True
    then obtain v where v: "bt_first_from (c_expected_seq c) (c_recv_buffer c) = Some (c_expected_seq c, v)"
      by blast
    let ?k = "c_expected_seq c"
    let ?c = "c\<lparr>c_recv_buffer := bt_remove ?k (c_recv_buffer c),
      c_expected_seq := ?k + word_of_nat (length v),
      c_stats := (c_stats c)\<lparr>bytes_delivered_app :=
        bytes_delivered_app (c_stats c) + word_of_nat (length v)\<rparr>,
      c_delivered := c_delivered c @ v\<rparr>"
    have chunk: "chunk_ok P ?k v"
      using "1.prems" bt_first_from_SomeD [OF v] by (force simp: recv_ok_def)
    have "?k \<le> ?k + word_of_nat (length v)"
      using "1.prems" unat_chunk_end [OF chunk] by (simp add: recv_ok_def word_le_nat_alt)
    then have "recv_ok R P ?c"
      using recv_ok_extend [OF "1.prems" chunk] by (auto simp: recv_ok_def)
    moreover have "same_but_recv c ?c" by (auto simp: same_but_recv_def)
    moreover have "drain_buffer c = drain_buffer ?c"
      by (subst drain_buffer.simps) (simp add: v)
    ultimately show ?thesis
      using "1.IH" [OF v refl] by (auto intro: same_but_recv_trans)
  next
    case False
    then have "drain_buffer c = c"
      by (subst drain_buffer.simps) (auto split: option.split)
    then show ?thesis using "1.prems" by simp
  qed
qed

lemma deliver_data_ok:
  assumes "recv_ok R P c" and "chunk_ok P seq data"
  shows "recv_ok R P (deliver_data c seq data) \<and> same_but_recv c (deliver_data c seq data)"
proof -
  have ne: "data \<noteq> []" using assms(2) by (simp add: chunk_ok_def)
  let ?stop = "seq + word_of_nat (length data)"
  consider "?stop \<le> c_expected_seq c"
    | "c_expected_seq c < ?stop" "seq \<le> c_expected_seq c"
    | "c_expected_seq c < ?stop" "c_expected_seq c < seq" by fastforce
  then show ?thesis
  proof cases
    case 1
    with assms ne show ?thesis
      by (auto simp: deliver_data_def Let_def recv_ok_def same_but_recv_def)
  next
    case 2
    let ?skip = "unat (c_expected_seq c - seq)"
    let ?c = "c\<lparr>c_stats := (c_stats c)\<lparr>
             duplicate_bytes_received := duplicate_bytes_received (c_stats c) + word_of_nat ?skip,
             bytes_delivered_app :=
               bytes_delivered_app (c_stats c) + word_of_nat (length data - ?skip)\<rparr>,
           c_delivered := c_delivered c @ drop ?skip data, c_expected_seq := ?stop\<rparr>"
    have "deliver_data c seq data = drain_buffer ?c"
      using 2 ne by (simp add: deliver_data_def Let_def)
    moreover have "recv_ok R P ?c"
      using recv_ok_extend [OF assms 2(2)] 2(1) by (auto simp: recv_ok_def)
    moreover have "same_but_recv c ?c" by (auto simp: same_but_recv_def)
    ultimately show ?thesis
      using drain_buffer_ok [of R P ?c] by (auto intro: same_but_recv_trans)
  next
    case 3
    with assms ne have eq: "deliver_data c seq data = c\<lparr>c_recv_buffer := bt_insert seq data (c_recv_buffer c)\<rparr>"
      by (simp add: deliver_data_def Let_def)
    with assms show ?thesis
      by (auto simp: recv_ok_def set_bt_insert same_but_recv_def)
  qed
qed

lemma conn_inv_deliver:
  assumes "conn_inv S R P c" and "chunk_ok P seq data"
  shows "conn_inv S R P (deliver_data c seq data)"
  using assms deliver_data_ok [of R P c seq data]
  by (auto simp: conn_inv_def send_ok_def conn_ok_def same_but_recv_def tx_def)

section \<open>Datagrams\<close>

lemma process_segment_ok:
  assumes inv: "conn_inv S R P c" and h: "header_ok (tx S c) h"
    and data: "p \<noteq> [] \<Longrightarrow> chunk_ok P seq p"
  shows "op_ok S R P c (process_segment c seq h p is_ack is_fin)"
proof -
  have "op_ok S R P c (if is_ack then apply_ack c h else Some (c, []))"
    using inv apply_ack_ok [OF inv h] by (simp add: op_ok_def)
  then obtain c1 out1 where a: "(if is_ack then apply_ack c h else Some (c, [])) = Some (c1, out1)"
    "conn_inv S R P c1" "c_next_seq c \<le> c_next_seq c1" "\<forall>d \<in> set out1. sent_ok (tx S c1) P d"
    by (auto simp: op_ok_def)
  define c2 where "c2 = (if p \<noteq> [] then deliver_data c1 seq p else c1)"
  define c3 where "c3 = (if is_fin then c2\<lparr>c_peer_fin_seen := True\<rparr> else c2)"
  define c4 where "c4 = (if p \<noteq> [] \<or> is_fin
    then c3\<lparr>c_stats := (c_stats c3)\<lparr>ack_segments_sent := ack_segments_sent (c_stats c3) + 1\<rparr>\<rparr> else c3)"
  have "conn_inv S R P c2 \<and> c_next_seq c2 = c_next_seq c1 \<and> tx S c2 = tx S c1"
    using a(2) data conn_inv_deliver deliver_data_ok [of R P c1 seq p]
    by (auto simp: c2_def conn_inv_def same_but_recv_def tx_def)
  then have c4: "conn_inv S R P c4" "c_next_seq c4 = c_next_seq c1" "tx S c4 = tx S c1"
    by (simp_all add: c4_def c3_def)
  let ?out2 = "if p \<noteq> [] \<or> is_fin then [build_pure_ack c4 is_fin] else []"
  have "process_segment c seq h p is_ack is_fin
      = map_option (\<lambda>(c5, out3). (c5, (out1 @ ?out2) @ out3)) (drain_and_maybe_fin c4)"
    by (simp add: process_segment_def a(1) Let_def c2_def c3_def c4_def)
  moreover have "\<forall>d \<in> set (out1 @ ?out2). sent_ok (tx S c4) P d"
    using a(4) c4 by (auto simp: sent_ok_builders)
  ultimately show ?thesis
    using op_ok_prepend [OF drain_and_maybe_fin_ok [OF c4(1)], of "out1 @ ?out2"] a(3) c4(2)
    by (auto intro: op_ok_mono)
qed

lemma complete_handshake_ok:
  assumes "conn_inv S R P c"
  shows "conn_inv S R P (complete_handshake c)" "c_next_seq (complete_handshake c) = c_next_seq c"
    "tx S (complete_handshake c) = tx S c" "c_state (complete_handshake c) = Established"
proof -
  have "rto_ok (c_rto c)" using assms by (simp add: conn_inv_def conn_ok_def)
  then show "conn_inv S R P (complete_handshake c)"
    using assms conn_inv_rto [of S R P "c\<lparr>c_handshake := None\<rparr>"]
    by (simp add: complete_handshake_def Let_def split: option.split)
qed (simp_all add: complete_handshake_def Let_def split: option.split)

lemma handshake_dispatch_ok:
  assumes "conn_inv S R P c"
  shows "handshake_dispatch c syn ack = Inl (c', out) \<Longrightarrow> op_ok S R P c (Some (c', out))"
    and "handshake_dispatch c syn ack = Inr (c', out) \<Longrightarrow>
      op_ok S R P c (Some (c', out)) \<and> c_next_seq c' = c_next_seq c \<and> tx S c' = tx S c"
proof -
  define c1 where "c1 = c\<lparr>c_state := SynReceived,
    c_handshake := Some \<lparr>pc_sent_at = c_now c, pc_attempts = 1\<rparr>\<rparr>"
  define c2 where "c2 = complete_handshake c"
  have c1: "conn_inv S R P c1" "c_next_seq c1 = c_next_seq c" using assms by (simp_all add: c1_def)
  have c2: "conn_inv S R P c2" "c_next_seq c2 = c_next_seq c" "tx S c2 = tx S c"
    using complete_handshake_ok [OF assms] by (simp_all add: c2_def)
  note B = sent_ok_builders [OF assms] sent_ok_builders [OF c1(1)] sent_ok_builders [OF c2(1)]
  have cases: "handshake_dispatch c syn ack \<in> {Inl (c1, [build_synack c1]), Inl (c, [build_synack c]),
      Inr (c2, [build_handshake_ack c2]), Inr (c2, []), Inr (c, [build_handshake_ack c]), Inr (c, [])}"
    unfolding handshake_dispatch_def Let_def c1_def [symmetric] c2_def [symmetric]
    by (simp only: insert_iff simp_thms split: if_split)
  have ok: "op_ok S R P c (Some (c1, [build_synack c1]))" "op_ok S R P c (Some (c, [build_synack c]))"
    "op_ok S R P c (Some (c2, [build_handshake_ack c2]))" "op_ok S R P c (Some (c2, []))"
    "op_ok S R P c (Some (c, [build_handshake_ack c]))" "op_ok S R P c (Some (c, []))"
    using assms c1 c2 by (simp_all add: op_ok_Some B)
  show "handshake_dispatch c syn ack = Inl (c', out) \<Longrightarrow> op_ok S R P c (Some (c', out))"
    using cases ok by auto
  show "handshake_dispatch c syn ack = Inr (c', out) \<Longrightarrow>
      op_ok S R P c (Some (c', out)) \<and> c_next_seq c' = c_next_seq c \<and> tx S c' = tx S c"
    using cases ok c2 by auto
qed

lemma on_segment_ok:
  assumes inv: "conn_inv S R P c" and h: "header_ok (tx S c) h"
    and p: "p \<noteq> [] \<Longrightarrow> chunk_ok P (sequence f) p"
  shows "op_ok S R P c (on_segment c f h p)"
proof -
  define c1 where "c1 = c\<lparr>c_peer_window := h_window h\<rparr>"
  have c1: "conn_inv S R P c1" "c_next_seq c1 = c_next_seq c" "tx S c1 = tx S c"
    using inv by (simp_all add: c1_def)
  let ?syn = "flags f AND FLAG_SYN \<noteq> 0" and ?ack = "flags f AND FLAG_ACK \<noteq> 0"
    and ?fin = "flags f AND FLAG_FIN \<noteq> 0"
  have "op_ok S R P c1 (Some (c1, [build_pure_ack c1 True]))"
    using c1 by (simp add: op_ok_def sent_ok_builders(5) [OF c1(1)])
  moreover have "op_ok S R P c1 (case handshake_dispatch c1 ?syn ?ack of
           Inl r \<Rightarrow> Some r
         | Inr (c2, out) \<Rightarrow>
            if c_state c2 = Established \<or> c_state c2 = Closing
            then map_option (\<lambda>(c3, out'). (c3, out @ out'))
                   (process_segment c2 (sequence f) h p ?ack ?fin)
            else Some (c2, out))" (is "op_ok S R P c1 ?r")
  proof (cases "handshake_dispatch c1 ?syn ?ack")
    case (Inl r)
    then show ?thesis using handshake_dispatch_ok(1) [OF c1(1)] by (cases r) simp
  next
    case (Inr r)
    obtain c2 out where r: "r = (c2, out)" by fastforce
    have c2: "op_ok S R P c1 (Some (c2, out))" "c_next_seq c2 = c_next_seq c1" "tx S c2 = tx S c1"
      using handshake_dispatch_ok(2) [OF c1(1)] Inr r by auto
    then have "op_ok S R P c2 (map_option (\<lambda>(c3, out'). (c3, out @ out'))
        (process_segment c2 (sequence f) h p ?ack ?fin))"
      using h p c1 by (intro op_ok_prepend process_segment_ok) (auto simp: op_ok_def)
    then have "op_ok S R P c1 (map_option (\<lambda>(c3, out'). (c3, out @ out'))
        (process_segment c2 (sequence f) h p ?ack ?fin))"
      by (rule op_ok_mono) (simp add: c2)
    with c2 show ?thesis by (simp add: Inr r)
  qed
  ultimately have "op_ok S R P c1 (on_segment c f h p)"
    by (simp only: on_segment_def Let_def c1_def [symmetric] split: if_split) blast
  then show ?thesis by (rule op_ok_mono) (simp add: c1)
qed

lemma on_datagram_ok:
  assumes "conn_inv S R P c" and "msg_ok P (tx S c) d"
  shows "op_ok S R P c (on_datagram c now d)"
proof -
  let ?c0 = "c\<lparr>c_now := max (c_now c) now\<rparr>"
  have drop: "op_ok S R P c (Some (?c0, []))" using assms(1) by (simp add: op_ok_def)
  have "op_ok S R P c (on_segment ?c0 f h p)"
    if "frame_decode d = Inr f" "segment_decode (payload f) = Some (h, p)" for f h p
    using assms that by (intro op_ok_mono [OF on_segment_ok [of _ _ _ ?c0]]) (auto simp: msg_ok_def)
  with drop show ?thesis
    by (simp add: on_datagram_def Let_def split: sum.split option.split)
qed

section \<open>Timers\<close>

lemma rto_current_conn: "conn_inv S R P c \<Longrightarrow> \<exists>rto. rto_current (c_rto c) = Some rto"
  by (rule rto_current_Some) (simp add: conn_inv_def conn_ok_def rto_ok_def)

lemma conn_inv_on_timeout: "conn_inv S R P c \<Longrightarrow> conn_inv S R P (c\<lparr>c_rto := on_timeout (c_rto c)\<rparr>)"
  by (rule conn_inv_rto) (simp_all add: conn_inv_def conn_ok_def)

lemma handshake_tick_ok:
  assumes "conn_inv S R P c"
  shows "op_ok S R P c (handshake_tick c)"
proof (cases "c_handshake c")
  case None
  with assms show ?thesis by (simp add: handshake_tick_def op_ok_Some)
next
  case (Some h)
  obtain rto where rto: "rto_current (c_rto c) = Some rto" using rto_current_conn [OF assms] by blast
  define c1 where "c1 = c\<lparr>c_rto := on_timeout (c_rto c),
    c_handshake := Some \<lparr>pc_sent_at = c_now c, pc_attempts = pc_attempts h + 1\<rparr>,
    c_stats := (c_stats c)\<lparr>control_retransmissions := control_retransmissions (c_stats c) + 1\<rparr>\<rparr>"
  have c1: "conn_inv S R P c1" "c_next_seq c1 = c_next_seq c"
    using conn_inv_on_timeout [OF assms] by (simp_all add: c1_def)
  have "op_ok S R P c (Some (c1, [if c_state c1 = SynSent then build_syn c1 else build_synack c1]))"
    using c1 by (simp add: op_ok_Some sent_ok_builders [OF c1(1)])
  moreover have "op_ok S R P c (Some (c\<lparr>c_state := Failed TooManyRetries, c_handshake := None\<rparr>, []))"
    "op_ok S R P c (Some (c, []))"
    using assms by (simp_all add: op_ok_Some)
  ultimately show ?thesis
    by (simp only: handshake_tick_def Some rto option.case Let_def c1_def [symmetric] split: if_split) simp
qed

lemma resend_segment_data [simp]: "us_data (resend_segment now s) = us_data s"
  by (simp add: resend_segment_def)

lemma data_timeout_ok:
  assumes "conn_inv S R P c" and "data_timeout c = (c1, out, failed)"
  shows "conn_inv S R P c1 \<and> c_next_seq c1 = c_next_seq c \<and> tx S c1 = tx S c
    \<and> (\<forall>d \<in> set out. sent_ok (tx S c) P d)"
proof -
  define c0 where "c0 = c\<lparr>c_rto := on_timeout (c_rto c), c_ssthresh := half_window c,
    c_cwnd := word_of_nat (segment_size (c_config c)), c_dup_ack_count := 0,
    c_stats := (c_stats c)\<lparr>congestion_events := congestion_events (c_stats c) + 1\<rparr>\<rparr>"
  have c0: "conn_inv S R P c0"
    using conn_inv_on_timeout [OF assms(1)] by (simp add: c0_def)
  let ?m = "map (\<lambda>(seq, seg). (seq, resend_segment (c_now c) seg)) (c_unacked c)"
  have keys: "map fst ?m = map fst (c_unacked c)" by (auto simp: case_prod_beta)
  have m: "conn_inv S R P (c0\<lparr>c_unacked := ?m\<rparr>)"
    using c0 assms(1) bt_ok_map_values [OF keys]
    by (intro conn_inv_unacked) (auto simp: conn_inv_defs c0_def)
  have seg: "sent_ok (tx S c) P (build_data_frame seq (us_data seg) (header_bytes c0))"
    if "(seq, seg) \<in> set (c_unacked c)" for seq seg
    using assms(1) that by (intro sent_ok_builders(6) [OF c0]) (auto simp: conn_inv_def send_ok_def)
  have eq: "out = map (\<lambda>(seq, seg). build_data_frame seq (us_data seg) (header_bytes c0))
      (filter (\<lambda>(_, seg). \<not> us_sacked seg) (c_unacked c0))" "core c1 = core (c0\<lparr>c_unacked := ?m\<rparr>)"
    using assms(2) by (auto simp: data_timeout_def Let_def c0_def core_def)
  then have "conn_inv S R P c1" "c_next_seq c1 = c_next_seq c"
    using m by (simp_all add: conn_inv_core) (simp add: core_def c0_def)
  then show ?thesis using seg eq(1) by (auto simp: c0_def tx_def)
qed

lemma fin_tick_ok:
  assumes "conn_inv S R P c" and "\<forall>d \<in> set out. sent_ok (tx S c) P d"
  shows "op_ok S R P c (fin_tick c out)"
proof (cases "c_fin_pending c")
  case None
  with assms show ?thesis
    by (simp add: fin_tick_def op_ok_prepend drain_and_maybe_fin_ok)
next
  case (Some f)
  obtain rto where rto: "rto_current (c_rto c) = Some rto" using rto_current_conn [OF assms(1)] by blast
  define c1 where "c1 = c\<lparr>c_rto := on_timeout (c_rto c),
    c_fin_pending := Some \<lparr>pc_sent_at = c_now c, pc_attempts = pc_attempts f + 1\<rparr>,
    c_stats := (c_stats c)\<lparr>control_retransmissions := control_retransmissions (c_stats c) + 1\<rparr>\<rparr>"
  have c1: "conn_inv S R P c1" "c_next_seq c1 = c_next_seq c" "tx S c1 = tx S c"
    using conn_inv_on_timeout [OF assms(1)] by (simp_all add: c1_def)
  have "op_ok S R P c1 (map_option (\<lambda>(c', out'). (c', (out @ [build_fin c1]) @ out'))
      (drain_and_maybe_fin c1))"
    using c1 assms(2) by (intro op_ok_prepend drain_and_maybe_fin_ok) (auto simp: sent_ok_builders)
  then have "op_ok S R P c (map_option (\<lambda>(c', out'). (c', (out @ [build_fin c1]) @ out'))
      (drain_and_maybe_fin c1))"
    by (rule op_ok_mono) (simp add: c1)
  moreover have "op_ok S R P c (Some (c\<lparr>c_state := Failed TooManyRetries, c_fin_pending := None\<rparr>, out))"
    "op_ok S R P c (map_option (\<lambda>(c', out'). (c', out @ out')) (drain_and_maybe_fin c))"
    using assms by (simp_all add: op_ok_Some op_ok_prepend drain_and_maybe_fin_ok)
  ultimately show ?thesis
    by (simp only: fin_tick_def Some rto option.case Let_def c1_def [symmetric] split: if_split) simp
qed

lemma established_tick_ok:
  assumes "conn_inv S R P c"
  shows "op_ok S R P c (established_tick c)"
proof (cases "c_unacked c")
  case Nil
  with assms show ?thesis by (simp add: established_tick_def fin_tick_ok)
next
  case (Cons p rest)
  obtain rto where rto: "rto_current (c_rto c) = Some rto" using rto_current_conn [OF assms] by blast
  obtain c1 out failed where t: "data_timeout c = (c1, out, failed)" by (metis prod_cases3)
  note ok = data_timeout_ok [OF assms t]
  have "conn_inv S R P (c1\<lparr>c_state := Failed TooManyRetries, c_unacked := []\<rparr>)"
    using ok by (intro conn_inv_unacked) (auto simp: bt_ok_def)
  then have "op_ok S R P c (Some (c1\<lparr>c_state := Failed TooManyRetries, c_unacked := []\<rparr>, out))"
    using ok by (simp add: op_ok_Some)
  moreover have "op_ok S R P c (fin_tick c1 out)"
    using ok by (intro op_ok_mono [OF fin_tick_ok]) auto
  ultimately show ?thesis
    using assms by (auto simp: established_tick_def Cons rto t fin_tick_ok split: prod.split)
qed

lemma on_tick_ok:
  assumes "conn_inv S R P c"
  shows "op_ok S R P c (on_tick c now)"
proof -
  have "conn_inv S R P (c\<lparr>c_now := max (c_now c) now\<rparr>)" using assms by simp
  then have "op_ok S R P (c\<lparr>c_now := max (c_now c) now\<rparr>) (on_tick c now)"
    by (auto simp: on_tick_def Let_def handshake_tick_ok established_tick_ok op_ok_Some
        split: state.split)
  then show ?thesis by (rule op_ok_mono) simp
qed

section \<open>Initial states\<close>

definition config_ok :: "config \<Rightarrow> bool" where
  "config_ok cfg \<longleftrightarrow> 0 < segment_size cfg \<and> min_rto cfg \<le> max_rto cfg"

lemma conn_inv_blank: "config_ok cfg \<Longrightarrow> conn_inv [] [] [] (blank cfg now st)"
  by (simp add: conn_inv_defs blank_def config_ok_def rto_ok_new)

lemma conn_inv_connect:
  assumes "config_ok cfg" and "conn_connect cfg now = (c, d)"
  shows "conn_inv [] [] [] c" and "sent_ok [] [] d" and "c_next_seq c = 0"
proof -
  have c: "c = (blank cfg now SynSent)\<lparr>c_handshake := Some \<lparr>pc_sent_at = now, pc_attempts = 1\<rparr>\<rparr>"
    and d: "d = build_syn c"
    using assms(2) by (simp_all add: conn_connect_def Let_def) blast
  show inv: "conn_inv [] [] [] c" using conn_inv_blank [OF assms(1)] by (simp add: c)
  show "sent_ok [] [] d" using sent_ok_builders(1) [OF inv] by (simp add: d)
  show "c_next_seq c = 0" by (simp add: c blank_def)
qed

lemma conn_inv_listen:
  "config_ok cfg \<Longrightarrow> conn_inv [] [] [] (conn_listen cfg now)" "c_next_seq (conn_listen cfg now) = 0"
  by (simp_all add: conn_listen_def conn_inv_blank) (simp add: blank_def)

end
