(* ===== verification/Link.thy ===== *)
theory Link
  imports Connection_Inv
begin

text \<open>
  Two connections of \<^verbatim>\<open>crates/transport/src/connection.rs\<close> joined by a hostile network. An
  endpoint carries its connection, every datagram it has ever emitted, and the byte streams its
  application has sent and received. The network hands an endpoint any datagram its peer has ever
  emitted, in any order and as often as it likes, or never; it may also hand over arbitrary
  garbage that \<open>Frame::decode\<close> rejects. The applications call \<open>send\<close>, \<open>close\<close>, \<open>recv\<close> and
  \<open>on_tick\<close> at any moment with any clock value.
\<close>

section \<open>Endpoints\<close>

record endpoint =
  ep_conn :: conn
  ep_wire :: "bytes list"
  ep_sent :: bytes
  ep_recvd :: bytes

datatype event =
    Send tick bytes
  | Close tick
  | Recv
  | OnTick tick
  | Datagram tick bytes

definition ep_emit :: "endpoint \<Rightarrow> (conn \<times> bytes list) option \<Rightarrow> endpoint option" where
  "ep_emit e r = map_option (\<lambda>(c, out). e\<lparr>ep_conn := c, ep_wire := ep_wire e @ out\<rparr>) r"

fun ep_exec :: "endpoint \<Rightarrow> event \<Rightarrow> endpoint option" where
  "ep_exec e (Send now data) =
     ep_emit (e\<lparr>ep_sent := ep_sent e @ data\<rparr>) (conn_send (ep_conn e) now data)"
| "ep_exec e (Close now) = ep_emit e (conn_close (ep_conn e) now)"
| "ep_exec e Recv =
     Some (e\<lparr>ep_conn := fst (conn_recv (ep_conn e)),
             ep_recvd := ep_recvd e @ snd (conn_recv (ep_conn e))\<rparr>)"
| "ep_exec e (OnTick now) = ep_emit e (on_tick (ep_conn e) now)"
| "ep_exec e (Datagram now d) = ep_emit e (on_datagram (ep_conn e) now d)"

fun ep_run :: "endpoint \<Rightarrow> event list \<Rightarrow> endpoint option" where
  "ep_run e [] = Some e"
| "ep_run e (ev # evs) = (case ep_exec e ev of None \<Rightarrow> None | Some e' \<Rightarrow> ep_run e' evs)"

text \<open>
  What may happen to an endpoint. Sequence numbers are 32 bits wide, so an application sends fewer
  than \<open>2 ^ 32\<close> bytes over one connection.
\<close>

fun enabled :: "endpoint \<Rightarrow> endpoint \<Rightarrow> event \<Rightarrow> bool" where
  "enabled me peer (Send now data) \<longleftrightarrow> length (ep_sent me @ data) < 2 ^ 32"
| "enabled me peer (Datagram now d) \<longleftrightarrow> d \<in> set (ep_wire peer) \<or> isl (frame_decode d)"
| "enabled me peer _ \<longleftrightarrow> True"

definition ep_client :: "config \<Rightarrow> tick \<Rightarrow> endpoint" where
  "ep_client cfg now = (case conn_connect cfg now of
     (c, syn) \<Rightarrow> \<lparr>ep_conn = c, ep_wire = [syn], ep_sent = [], ep_recvd = []\<rparr>)"

definition ep_server :: "config \<Rightarrow> tick \<Rightarrow> endpoint" where
  "ep_server cfg now =
     \<lparr>ep_conn = conn_listen cfg now, ep_wire = [], ep_sent = [], ep_recvd = []\<rparr>"

section \<open>The link\<close>

record link =
  client :: endpoint
  server :: endpoint

definition link_init :: "config \<Rightarrow> config \<Rightarrow> link \<Rightarrow> bool" where
  "link_init cfg cfg' l \<longleftrightarrow> config_ok cfg \<and> config_ok cfg' \<and>
     (\<exists>t t'. l = \<lparr>client = ep_client cfg t, server = ep_server cfg' t'\<rparr>)"

inductive link_step :: "link \<Rightarrow> link \<Rightarrow> bool" where
  client_step: "enabled (client l) (server l) ev \<Longrightarrow> ep_exec (client l) ev = Some e \<Longrightarrow>
     link_step l (l\<lparr>client := e\<rparr>)"
| server_step: "enabled (server l) (client l) ev \<Longrightarrow> ep_exec (server l) ev = Some e \<Longrightarrow>
     link_step l (l\<lparr>server := e\<rparr>)"

inductive_cases link_stepE: "link_step l l'"

abbreviation link_reachable :: "config \<Rightarrow> config \<Rightarrow> link \<Rightarrow> bool" where
  "link_reachable cfg cfg' \<equiv> reachable (link_init cfg cfg') link_step"

section \<open>The invariant of the link\<close>

definition ep_tx :: "endpoint \<Rightarrow> bytes" where
  "ep_tx e = tx (ep_sent e) (ep_conn e)"

definition ep_inv :: "endpoint \<Rightarrow> endpoint \<Rightarrow> bool" where
  "ep_inv me peer \<longleftrightarrow>
     conn_inv (ep_sent me) (ep_recvd me) (ep_tx peer) (ep_conn me)
     \<and> (\<forall>d \<in> set (ep_wire me). sent_ok (ep_tx me) (ep_tx peer) d)"

definition link_inv :: "link \<Rightarrow> bool" where
  "link_inv l \<longleftrightarrow> ep_inv (client l) (server l) \<and> ep_inv (server l) (client l)"

lemma ep_inv_tx: "ep_inv me peer \<Longrightarrow> prefix (ep_tx me) (ep_sent me) \<and> length (ep_tx me) < 2 ^ 32"
  by (auto simp: ep_inv_def ep_tx_def tx_def conn_inv_def send_ok_def take_is_prefix)

lemma ep_inv_peer:
  assumes "ep_inv peer me" and "prefix (ep_tx me) (ep_tx me')" and "length (ep_tx me') < 2 ^ 32"
  shows "ep_inv peer me'"
  using assms sent_ok_prefix [of "ep_tx peer" "ep_tx me" _ "ep_tx peer" "ep_tx me'"]
  by (auto simp: ep_inv_def intro: conn_inv_prefix)

lemma ep_emit_ok:
  assumes "ep_inv me peer" and "op_ok S (ep_recvd me) (ep_tx peer) (ep_conn me) r"
    and "prefix (ep_tx me) (tx S (ep_conn me))"
  obtains me' where "ep_emit (me\<lparr>ep_sent := S\<rparr>) r = Some me'" "ep_inv me' peer"
    "prefix (ep_tx me) (ep_tx me')"
proof -
  obtain c out where r: "r = Some (c, out)" "conn_inv S (ep_recvd me) (ep_tx peer) c"
    "c_next_seq (ep_conn me) \<le> c_next_seq c" "\<forall>d \<in> set out. sent_ok (tx S c) (ep_tx peer) d"
    using assms(2) by (auto simp: op_ok_def)
  let ?me = "me\<lparr>ep_sent := S, ep_conn := c, ep_wire := ep_wire me @ out\<rparr>"
  have pre: "prefix (ep_tx me) (tx S c)"
    using assms(3) tx_prefix [OF r(3)] by (rule prefix_order.trans)
  then have "ep_inv ?me peer"
    using assms(1) r(2,4) sent_ok_prefix [OF _ pre, of "ep_tx peer" _ "ep_tx peer"]
    by (auto simp: ep_inv_def ep_tx_def)
  then show ?thesis using that [of ?me] pre by (simp add: ep_emit_def r ep_tx_def)
qed

lemma ep_exec_ok:
  assumes "ep_inv me peer" and "ep_inv peer me" and "enabled me peer ev"
  obtains me' where "ep_exec me ev = Some me'" "ep_inv me' peer" "ep_inv peer me'"
proof -
  have inv: "conn_inv (ep_sent me) (ep_recvd me) (ep_tx peer) (ep_conn me)"
    using assms(1) by (simp add: ep_inv_def)
  have same: "me\<lparr>ep_sent := ep_sent me\<rparr> = me" by simp
  have "\<exists>me'. ep_exec me ev = Some me' \<and> ep_inv me' peer \<and> prefix (ep_tx me) (ep_tx me')"
  proof (cases ev)
    case (Send now data)
    have "prefix (ep_tx me) (tx (ep_sent me @ data) (ep_conn me))"
      using inv tx_append by (simp add: ep_tx_def conn_inv_def)
    moreover have "length (ep_sent me @ data) < 2 ^ 32" using assms(3) Send by simp
    ultimately show ?thesis
      using ep_emit_ok [OF assms(1) conn_send_ok [OF inv]] unfolding Send ep_exec.simps by metis
  next
    case (Close now)
    then show ?thesis
      using ep_emit_ok [OF assms(1) conn_close_ok [OF inv]] by (metis same ep_exec.simps(2) ep_tx_def prefix_order.refl)
  next
    case Recv
    have "ep_tx (me\<lparr>ep_conn := fst (conn_recv (ep_conn me)), ep_recvd := R\<rparr>) = ep_tx me" for R
      by (simp add: ep_tx_def tx_def conn_recv_def)
    then show ?thesis
      using assms(1) conn_recv_ok [OF inv] by (simp add: Recv ep_inv_def) (simp add: conn_recv_def)
  next
    case (OnTick now)
    then show ?thesis
      using ep_emit_ok [OF assms(1) on_tick_ok [OF inv]] by (metis same ep_exec.simps(4) ep_tx_def prefix_order.refl)
  next
    case (Datagram now d)
    have "msg_ok (ep_tx peer) (ep_tx me) d"
      using assms(2,3) Datagram by (auto simp: ep_inv_def sent_ok_def msg_ok_def isl_def)
    then have "op_ok (ep_sent me) (ep_recvd me) (ep_tx peer) (ep_conn me) (on_datagram (ep_conn me) now d)"
      using on_datagram_ok [OF inv] by (simp add: ep_tx_def)
    then show ?thesis
      using ep_emit_ok [OF assms(1)] Datagram by (metis same ep_exec.simps(5) ep_tx_def prefix_order.refl)
  qed
  then obtain me' where "ep_exec me ev = Some me'" "ep_inv me' peer" "prefix (ep_tx me) (ep_tx me')"
    by blast
  moreover from this have "ep_inv peer me'"
    using ep_inv_peer [OF assms(2)] ep_inv_tx [of me' peer] by blast
  ultimately show ?thesis using that by blast
qed

lemma link_inv_init:
  assumes "link_init cfg cfg' l"
  shows "link_inv l"
proof -
  obtain t t' where l: "l = \<lparr>client = ep_client cfg t, server = ep_server cfg' t'\<rparr>"
    and ok: "config_ok cfg" "config_ok cfg'"
    using assms by (auto simp: link_init_def)
  obtain c d where c: "conn_connect cfg t = (c, d)" by fastforce
  show ?thesis
    using conn_inv_connect [OF ok(1) c] conn_inv_listen ok(2)
    by (auto simp: link_inv_def ep_inv_def l ep_client_def ep_server_def c ep_tx_def tx_def)
qed

lemma link_inv_step: "link_inv l \<Longrightarrow> link_step l l' \<Longrightarrow> link_inv l'"
  by (erule link_stepE) (auto simp: link_inv_def elim: ep_exec_ok)

interpretation link: invariant_system "link_init cfg cfg'" link_step link_inv for cfg cfg'
  by unfold_locales (auto intro: link_inv_init link_inv_step)

lemma ep_inv_received:
  assumes "ep_inv me peer" and "ep_inv peer me"
  shows "prefix (ep_recvd me @ c_delivered (ep_conn me)) (ep_sent peer)"
proof -
  have "prefix (ep_recvd me @ c_delivered (ep_conn me)) (ep_tx peer)"
    using assms(1) by (simp add: ep_inv_def conn_inv_def recv_ok_def take_is_prefix)
  with ep_inv_tx [OF assms(2)] show ?thesis using prefix_order.trans by blast
qed

section \<open>Executable runs\<close>

text \<open>A run is a list of actions, each at the client or at the server: a call, or the delivery of
  the \<open>i\<close>-th datagram the peer has emitted.\<close>

datatype action =
    Call event
  | Deliver tick nat

fun action_event :: "endpoint \<Rightarrow> action \<Rightarrow> event option" where
  "action_event peer (Call ev) = Some ev"
| "action_event peer (Deliver now i) =
     (if i < length (ep_wire peer) then Some (Datagram now (ep_wire peer ! i)) else None)"

definition link_act :: "link \<Rightarrow> bool \<Rightarrow> action \<Rightarrow> link option" where
  "link_act l at_client a =
    (let (me, peer) = (if at_client then (client l, server l) else (server l, client l)) in
     case action_event peer a of
       None \<Rightarrow> None
     | Some ev \<Rightarrow>
        if \<not> enabled me peer ev then None
        else map_option (\<lambda>e. if at_client then l\<lparr>client := e\<rparr> else l\<lparr>server := e\<rparr>) (ep_exec me ev))"

fun link_run :: "link \<Rightarrow> (bool \<times> action) list \<Rightarrow> link option" where
  "link_run l [] = Some l"
| "link_run l ((at_client, a) # as) =
    (case link_act l at_client a of None \<Rightarrow> None | Some l' \<Rightarrow> link_run l' as)"

lemma link_act_step: "link_act l b a = Some l' \<Longrightarrow> link_step l l'"
  by (auto simp: link_act_def Let_def split: if_splits option.splits intro: link_step.intros)

lemma link_run_reachable:
  "link_reachable cfg cfg' l \<Longrightarrow> link_run l as = Some l' \<Longrightarrow> link_reachable cfg cfg' l'"
proof (induction l as rule: link_run.induct)
  case (2 l b a as)
  then obtain l1 where "link_act l b a = Some l1" "link_run l1 as = Some l'"
    by (auto split: option.splits)
  with "2" show ?case using link_act_step reachable_step by metis
qed simp

definition start :: "config \<Rightarrow> link" where
  "start cfg = \<lparr>client = ep_client cfg ZERO, server = ep_server cfg ZERO\<rparr>"

lemma start_reachable: "config_ok cfg \<Longrightarrow> link_reachable cfg cfg (start cfg)"
  by (rule reachable_init) (auto simp: link_init_def start_def)

lemma on_datagram_frame:
  assumes "length p < 2 ^ 31" and "length (h_sack h) \<le> MAX_SACK_RANGES"
  shows "on_datagram c now (encode_frame seq flgs (segment_encode h [] @ p)) =
    on_segment (c\<lparr>c_now := max (c_now c) now\<rparr>)
      \<lparr>frame_type = 0, sequence = seq, flags = flgs, payload = segment_encode h [] @ p\<rparr> h p"
  using assms
  by (simp add: on_datagram_def encode_frame_def frame_decode_encode segment_decode_encode Let_def
      segment_consts length_segment_encode)

lemma on_datagram_bare:
  assumes "length (h_sack h) \<le> MAX_SACK_RANGES"
  shows "on_datagram c now (encode_frame seq flgs (segment_encode h [])) =
    on_segment (c\<lparr>c_now := max (c_now c) now\<rparr>)
      \<lparr>frame_type = 0, sequence = seq, flags = flgs, payload = segment_encode h []\<rparr> h []"
  using on_datagram_frame [of "[]" h] assms by simp

text \<open>The rules that evaluate a concrete run, with datagrams kept in their encoded form.\<close>

lemmas run_simps = Let_def start_def ZERO_def action_event.simps link_act_def
  ep_client_def ep_server_def ep_emit_def conn_connect_def conn_listen_def blank_def
  rto_new_def stats_default_def default_config_def flag_defs SCALE_def segment_consts
  build_syn_def build_synack_def build_handshake_ack_def build_pure_ack_def build_data_frame_def
  build_fin_def header_bytes_def conn_header_def current_sack_ranges_def advertised_window_def
  on_datagram_bare on_datagram_frame on_segment_def handshake_dispatch_def complete_handshake_def
  process_segment_def apply_ack_def apply_sack_fin_def ack_progress_def dup_ack_def half_window_def
  sample_acked_def grow_cwnd_def on_sample_def abs_diff_def tick_sub_def bt_range_below_def
  bt_remove_def bt_first_from_def bt_update_range_def deliver_data_def drain_buffer.simps
  drain_and_maybe_fin_def try_send_more_def maybe_send_fin_def check_fully_closed_def
  admit_loop.simps admit_chunk_def admission_cap_def in_flight_bytes_def effective_window_def
  sat_sub_def sat_add_def conn_send_def conn_close_def conn_recv_def
  on_tick_def handshake_tick_def established_tick_def data_timeout_def fin_tick_def
  resend_segment_def on_timeout_def rto_current_def base_rto_def clamp_def

definition transfer_run :: "(bool \<times> action) list" where
  "transfer_run =
    [(False, Deliver (Tick 3) 0), (True, Deliver (Tick 5) 0), (True, Call (Send (Tick 5) [7, 8])),
     (False, Deliver (Tick 8) 2), (False, Call Recv)]"

lemma transfer_run_Some:
  "\<exists>l. link_run (start default_config) transfer_run = Some l \<and> ep_recvd (server l) = [7, 8]
     \<and> c_delivered (ep_conn (server l)) = [] \<and> ep_sent (client l) = [7, 8]"
  by (simp add: run_simps transfer_run_def)

lemma default_config_ok: "config_ok default_config"
  by (simp add: config_ok_def default_config_def)

lemma transfer_run_reachable:
  "\<exists>l. link_reachable default_config default_config l \<and> ep_recvd (server l) = [7, 8]
     \<and> c_delivered (ep_conn (server l)) = [] \<and> ep_sent (client l) = [7, 8]"
  using transfer_run_Some link_run_reachable start_reachable [OF default_config_ok] by blast

section \<open>Safety of the transport\<close>

text \<open>C1. However the network drops, duplicates, reorders, delays or garbles datagrams, the bytes
  an application has received, with those waiting in \<open>recv\<close>, are a prefix of the bytes the other
  application has sent, in both directions.\<close>

theorem received_prefix_of_sent:
  assumes "link_reachable cfg cfg' l"
  shows "prefix (ep_recvd (server l) @ c_delivered (ep_conn (server l))) (ep_sent (client l))
    \<and> prefix (ep_recvd (client l) @ c_delivered (ep_conn (client l))) (ep_sent (server l))"
  using link.reachable_inv [OF assms] by (simp add: link_inv_def ep_inv_received)

theorem received_prefix_of_sent_witness:
  "\<exists>l. link_reachable default_config default_config l \<and> ep_recvd (server l) = [7, 8]
     \<and> prefix [7, 8] (ep_sent (client l))"
  using transfer_run_reachable received_prefix_of_sent [of default_config default_config]
  by (metis append_Nil2)

text \<open>C4. No reachable connection panics or hangs: in every reachable state, every call an
  application or the network can make on either endpoint returns.\<close>

theorem no_panic_no_hang:
  assumes "link_reachable cfg cfg' l"
  shows "(enabled (client l) (server l) ev \<longrightarrow> ep_exec (client l) ev \<noteq> None)
    \<and> (enabled (server l) (client l) ev' \<longrightarrow> ep_exec (server l) ev' \<noteq> None)"
  using link.reachable_inv [OF assms]
  by (metis ep_exec_ok link_inv_def option.distinct(1))

theorem no_panic_no_hang_witness:
  "\<exists>l. link_reachable default_config default_config l \<and> ep_recvd (server l) = [7, 8]
     \<and> ep_exec (client l) (Datagram (Tick 9) [1, 2, 3]) \<noteq> None
     \<and> ep_exec (server l) (OnTick (Tick 900)) \<noteq> None"
proof -
  have "isl (frame_decode [1, 2, 3])" by (simp add: frame_decode_def frame_consts)
  then show ?thesis
    using transfer_run_reachable no_panic_no_hang [of default_config default_config]
    by (metis enabled.simps(2,5))
qed

end
