(* ===== verification/Conn_States.thy ===== *)
theory Conn_States
  imports Link
begin

text \<open>
  The state machine of \<^verbatim>\<open>crates/transport/src/connection.rs\<close>: the documented \<open>State\<close> diagram, each
  edge with the calls that may take it, and the shape of the control fields (\<open>handshake\<close>,
  \<open>fin_pending\<close>, \<open>fin_acked\<close>, \<open>peer_fin_seen\<close>, \<open>close_requested\<close>) in each state. Nothing is
  assumed of the datagrams: any bytes may arrive.
\<close>

section \<open>The diagram and the typing of states\<close>

inductive state_edge :: "event \<Rightarrow> state \<Rightarrow> state \<Rightarrow> bool" where
  syn_arrives: "state_edge (Datagram t d) Listening SynReceived"
| synack_arrives: "state_edge (Datagram t d) SynSent Established"
| ack_arrives: "state_edge (Datagram t d) SynReceived Established"
| fin_leaves: "ev \<noteq> Recv \<Longrightarrow> state_edge ev Established Closing"
| both_fins_done: "state_edge (Datagram t d) Closing Closed"
| gives_up: "s \<in> {SynSent, SynReceived, Established, Closing} \<Longrightarrow>
    state_edge (OnTick t) s (Failed TooManyRetries)"

inductive_simps state_edge_from [simp]:
  "state_edge ev Closed s" "state_edge ev (Failed r) s" "state_edge Recv s s'"

abbreviation state_path :: "event \<Rightarrow> state \<Rightarrow> state \<Rightarrow> bool" where
  "state_path ev \<equiv> (state_edge ev)\<^sup>*\<^sup>*"

definition untouched :: "conn \<Rightarrow> bool" where
  "untouched c \<longleftrightarrow> c_next_seq c = 0 \<and> c_unacked c = [] \<and> \<not> c_fin_acked c
     \<and> c_expected_seq c = 0 \<and> c_recv_buffer c = [] \<and> c_delivered c = [] \<and> \<not> c_peer_fin_seen c"

definition shape :: "conn \<Rightarrow> bool" where
  "shape c \<longleftrightarrow> (case c_state c of
       Listening \<Rightarrow> c_handshake c = None \<and> c_fin_pending c = None \<and> untouched c
     | SynSent \<Rightarrow> c_handshake c \<noteq> None \<and> c_fin_pending c = None \<and> untouched c
     | SynReceived \<Rightarrow> c_handshake c \<noteq> None \<and> c_fin_pending c = None \<and> untouched c
     | Established \<Rightarrow> c_handshake c = None \<and> c_fin_pending c = None
     | Closing \<Rightarrow> c_handshake c = None \<and> (c_fin_pending c = None \<longleftrightarrow> c_fin_acked c) \<and> c_close_requested c
     | Closed \<Rightarrow> c_handshake c = None \<and> c_fin_pending c = None \<and> c_fin_acked c \<and> c_peer_fin_seen c
         \<and> c_close_requested c
     | Failed _ \<Rightarrow> c_handshake c = None)"

text \<open>A connection whose two FINs are done is not left in \<open>Closing\<close>.\<close>

definition settled :: "conn \<Rightarrow> bool" where
  "settled c \<longleftrightarrow> \<not> (c_state c = Closing \<and> c_fin_acked c \<and> c_peer_fin_seen c)"

definition conn_wf :: "conn \<Rightarrow> bool" where
  "conn_wf c \<longleftrightarrow> shape c \<and> settled c"

lemmas wf_defs = conn_wf_def shape_def settled_def untouched_def

lemma shape_frame [simp]:
  "shape (c\<lparr>c_now := now\<rparr>) = shape c" "shape (c\<lparr>c_peer_window := w\<rparr>) = shape c"
  "shape (c\<lparr>c_stats := s\<rparr>) = shape c" "shape (c\<lparr>c_send_queue := q\<rparr>) = shape c"
  "shape (c\<lparr>c_rto := e\<rparr>) = shape c"
  by (cases "c_state c"; simp add: shape_def untouched_def)+

lemma settled_frame [simp]:
  "settled (c\<lparr>c_now := now\<rparr>) = settled c" "settled (c\<lparr>c_peer_window := w\<rparr>) = settled c"
  "settled (c\<lparr>c_stats := s\<rparr>) = settled c" "settled (c\<lparr>c_send_queue := q\<rparr>) = settled c"
  "settled (c\<lparr>c_rto := e\<rparr>) = settled c" "settled (c\<lparr>c_close_requested := b\<rparr>) = settled c"
  "settled (c\<lparr>c_delivered := xs\<rparr>) = settled c"
  by (simp_all add: settled_def)

lemma shape_mono [simp]:
  "shape c \<Longrightarrow> shape (c\<lparr>c_close_requested := True\<rparr>)" "shape c \<Longrightarrow> shape (c\<lparr>c_delivered := []\<rparr>)"
  by (cases "c_state c"; simp add: shape_def untouched_def)+

abbreviation established :: "conn \<Rightarrow> bool" where
  "established c \<equiv> c_state c = Established \<or> c_state c = Closing"

section \<open>The operations\<close>

text \<open>The rule of the admission loop: an invariant of its body holds when it returns.\<close>

lemma admit_loop_rule:
  assumes "admit_loop c out = Some r" and "I c out"
    and body: "\<And>c out. I c out \<Longrightarrow> c_send_queue c \<noteq> [] \<Longrightarrow> admission_cap c \<noteq> 0 \<Longrightarrow>
      I (fst (admit_chunk c)) (out @ [snd (admit_chunk c)])"
  shows "I (fst r) (snd r) \<and> (c_send_queue (fst r) = [] \<or> admission_cap (fst r) = 0)"
proof -
  have "I c out \<longrightarrow> I (fst r) (snd r) \<and> (c_send_queue (fst r) = [] \<or> admission_cap (fst r) = 0)"
  proof (rule admit_loop.raw_induct [where P = "\<lambda>c out r. I c out \<longrightarrow> I (fst r) (snd r)
        \<and> (c_send_queue (fst r) = [] \<or> admission_cap (fst r) = 0)", OF _ assms(1)])
    fix rec :: "conn \<Rightarrow> bytes list \<Rightarrow> (conn \<times> bytes list) option" and c out r
    assume IH: "\<And>c out r. rec c out = Some r \<Longrightarrow> I c out \<longrightarrow> I (fst r) (snd r)
        \<and> (c_send_queue (fst r) = [] \<or> admission_cap (fst r) = 0)"
      and eq: "(if c_send_queue c = [] then Some (c, out) else if admission_cap c = 0 then Some (c, out)
        else case admit_chunk c of (c', d) \<Rightarrow> rec c' (out @ [d])) = Some r"
    show "I c out \<longrightarrow> I (fst r) (snd r) \<and> (c_send_queue (fst r) = [] \<or> admission_cap (fst r) = 0)"
      using eq IH [of "fst (admit_chunk c)" "out @ [snd (admit_chunk c)]" r] body [of c out]
      by (simp add: split_beta split: if_splits) auto
  qed
  with assms(2) show ?thesis by simp
qed

lemma admit_loop_same: "admit_loop c out = Some r \<Longrightarrow> same_but_send c (fst r)"
  by (drule admit_loop_rule [where I = "\<lambda>c' _. same_but_send c c'"])
    (auto intro: same_but_send_trans [OF _ admit_chunk_same])

lemma try_send_more_same:
  assumes "try_send_more c = Some (c', out)"
  shows "same_but_send c c' \<and> (established c \<or> c' = c)"
  using assms admit_loop_same [of c "[]" "(c', out)"]
  by (auto simp: try_send_more_def split: if_splits)

definition typed_step :: "event \<Rightarrow> conn \<Rightarrow> (conn \<times> bytes list) option \<Rightarrow> bool" where
  "typed_step ev c r \<longleftrightarrow>
     (\<forall>c' out. r = Some (c', out) \<longrightarrow> conn_wf c' \<and> state_path ev (c_state c) (c_state c'))"

lemma typed_step_prepend [simp]:
  "typed_step ev c (map_option (\<lambda>(c', out'). (c', out @ out')) r) = typed_step ev c r"
  by (cases r) (auto simp: typed_step_def)

lemma typed_step_Some:
  "conn_wf c' \<Longrightarrow> state_path ev (c_state c) (c_state c') \<Longrightarrow> typed_step ev c (Some (c', out))"
  by (simp add: typed_step_def)

lemma typed_step_trans:
  "typed_step ev c1 r \<Longrightarrow> state_path ev (c_state c) (c_state c1) \<Longrightarrow> typed_step ev c r"
  by (auto simp: typed_step_def)

text \<open>\<open>drain_and_maybe_fin\<close> ends every operation. It may send the FIN; it closes the connection only
  on the datagram that completes the second FIN handshake.\<close>

lemma maybe_send_fin_shape:
  assumes "shape c" and "maybe_send_fin c = (c', out)" and "ev \<noteq> Recv"
  shows "shape c'" and "state_path ev (c_state c) (c_state c')" and "settled c \<Longrightarrow> settled c'"
    and "c_state c' = Closing \<or> c' = c"
  using assms
  by (auto simp: maybe_send_fin_def Let_def shape_def settled_def fin_leaves split: if_splits)

lemma check_fully_closed_wf:
  assumes "shape c"
  shows "conn_wf (check_fully_closed c)"
    and "state_path (Datagram t d) (c_state c) (c_state (check_fully_closed c))"
  using assms by (auto simp: check_fully_closed_def wf_defs both_fins_done)

lemma check_fully_closed_settled: "settled c \<Longrightarrow> check_fully_closed c = c"
  by (auto simp: check_fully_closed_def settled_def)

lemma same_but_send_shape:
  assumes "shape c" and "same_but_send c c'" and "established c \<or> c' = c"
  shows "shape c'"
  using assms by (auto simp: shape_def same_but_send_def)

lemma drain_typed:
  assumes "shape c" and "ev \<noteq> Recv" and "settled c \<or> (\<exists>t d. ev = Datagram t d)"
  shows "typed_step ev c (drain_and_maybe_fin c)"
proof -
  have "conn_wf (check_fully_closed c2) \<and> state_path ev (c_state c) (c_state (check_fully_closed c2))"
    if s: "try_send_more c = Some (c1, out)" and f: "maybe_send_fin c1 = (c2, fin)" for c1 c2 out fin
  proof -
    note same = try_send_more_same [OF s]
    have c1: "shape c1" "c_state c1 = c_state c" "settled c1 = settled c"
      using same_but_send_shape [OF assms(1)] same by (auto simp: same_but_send_def settled_def)
    note F = maybe_send_fin_shape [OF c1(1) f assms(2)]
    show ?thesis
    proof (cases "settled c")
      case True
      then show ?thesis using F(1-3) c1 check_fully_closed_settled [of c2] by (simp add: conn_wf_def)
    next
      case False
      then show ?thesis
        using F(1,2) c1(2) check_fully_closed_wf [OF F(1)] assms(3) by (auto intro: rtranclp_trans)
    qed
  qed
  then show ?thesis
    by (auto simp: typed_step_def drain_and_maybe_fin_def split: option.splits prod.splits)
qed

lemma conn_send_typed: "conn_wf c \<Longrightarrow> typed_step (Send t data) c (conn_send c t data)"
  unfolding conn_send_def by (rule typed_step_trans [OF drain_typed]) (auto simp: conn_wf_def)

lemma conn_close_typed: "conn_wf c \<Longrightarrow> typed_step (Close t) c (conn_close c t)"
  unfolding conn_close_def by (rule typed_step_trans [OF drain_typed]) (auto simp: conn_wf_def)

lemma conn_recv_wf: "conn_wf c \<Longrightarrow> conn_wf (fst (conn_recv c))"
  by (simp add: conn_wf_def conn_recv_def)

section \<open>Datagrams\<close>

text \<open>Acks and data do not leave the open states, and touch no control field but \<open>fin_acked\<close> and
  \<open>fin_pending\<close>.\<close>

lemma dup_ack_control:
  assumes "dup_ack c = (c', r)"
  shows "c_state c' = c_state c" "c_handshake c' = c_handshake c" "c_fin_pending c' = c_fin_pending c"
    "c_fin_acked c' = c_fin_acked c" "c_peer_fin_seen c' = c_peer_fin_seen c"
    "c_close_requested c' = c_close_requested c"
  using assms by (auto simp: dup_ack_def Let_def split: if_splits list.splits)

lemma apply_ack_typed:
  assumes "shape c" and "established c" and "apply_ack c h = Some (c', out)"
  shows "shape c' \<and> (established c' \<or> c_state c' = Closed)
    \<and> state_path (Datagram t d) (c_state c) (c_state c')"
proof -
  obtain c1 r where r: "(c1, r) = (if c_send_base c < h_ack h then (ack_progress c (h_ack h), None)
    else if h_ack h = c_send_base c \<and> c_unacked c \<noteq> [] then dup_ack c else (c, None))" by (metis surj_pair)
  then have c1: "c_state c1 = c_state c" "c_handshake c1 = c_handshake c"
    "c_fin_pending c1 = c_fin_pending c" "c_fin_acked c1 = c_fin_acked c"
    "c_peer_fin_seen c1 = c_peer_fin_seen c" "c_close_requested c1 = c_close_requested c"
    using dup_ack_control [of c c1 r] by (auto simp: ack_progress_def Let_def split: if_splits)
  have sh: "shape c1" using assms(1,2) c1 by (auto simp: shape_def)
  show ?thesis
  proof (cases r)
    case (Some d)
    then have "c' = c1" using assms(3) by (simp add: apply_ack_def r [symmetric])
    with sh c1 assms(2) show ?thesis by simp
  next
    case None
    then have "apply_sack_fin c1 h = Some c'" using assms(3) by (auto simp: apply_ack_def r [symmetric])
    then obtain m where c': "c' = (if h_fin_ack h
        then check_fully_closed (c1\<lparr>c_unacked := m, c_fin_acked := True, c_fin_pending := None\<rparr>)
        else c1\<lparr>c_unacked := m\<rparr>)"
      by (auto simp: apply_sack_fin_def Let_def split: option.splits)
    have "shape (c1\<lparr>c_unacked := m, c_fin_acked := True, c_fin_pending := None\<rparr>)"
      using sh c1(1) assms(2) by (auto simp: shape_def)
    note F = check_fully_closed_wf(1) [OF this] check_fully_closed_wf(2) [OF this, of t d]
    show ?thesis
    proof (cases "h_fin_ack h")
      case True
      then have eq: "c' = check_fully_closed (c1\<lparr>c_unacked := m, c_fin_acked := True, c_fin_pending := None\<rparr>)"
        by (simp add: c')
      then have "established c' \<or> c_state c' = Closed"
        using c1(1) assms(2) by (auto simp: check_fully_closed_def)
      with F c1(1) show ?thesis unfolding eq by (simp add: conn_wf_def)
    next
      case False
      then show ?thesis using c' sh c1(1) assms(2) by (auto simp: shape_def)
    qed
  qed
qed

lemma drain_buffer_same: "same_but_recv c (drain_buffer c)"
proof (induction c rule: drain_buffer.induct)
  case (1 c)
  show ?case
  proof (subst drain_buffer.simps, clarsimp split: option.splits, goal_cases)
    case (1 v)
    with "1.IH" [OF 1 refl] show ?case by (simp add: same_but_recv_def)
  qed
qed

lemma deliver_data_same: "same_but_recv c (deliver_data c seq data)"
  unfolding deliver_data_def Let_def
  by (auto intro!: same_but_recv_trans [OF _ drain_buffer_same]) (simp_all add: same_but_recv_def)

lemma process_segment_typed:
  assumes "shape c" and "established c"
  shows "typed_step (Datagram t d) c (process_segment c seq h p is_ack is_fin)"
proof (cases "if is_ack then apply_ack c h else Some (c, [])")
  case None
  then show ?thesis by (simp add: process_segment_def typed_step_def)
next
  case (Some r)
  obtain c1 out1 where r: "r = (c1, out1)" by fastforce
  have c1: "shape c1" "established c1 \<or> c_state c1 = Closed"
    "state_path (Datagram t d) (c_state c) (c_state c1)"
    using Some r assms apply_ack_typed [OF assms, of h c1 out1] by (auto split: if_splits)
  define c2 where "c2 = (if p \<noteq> [] then deliver_data c1 seq p else c1)"
  have same: "same_but_recv c1 c2" using deliver_data_same [of c1] by (simp add: c2_def)
  define c3 where "c3 = (if is_fin then c2\<lparr>c_peer_fin_seen := True\<rparr> else c2)"
  define c4 where "c4 = (if p \<noteq> [] \<or> is_fin
     then c3\<lparr>c_stats := (c_stats c3)\<lparr>ack_segments_sent := ack_segments_sent (c_stats c3) + 1\<rparr>\<rparr> else c3)"
  have c4: "shape c4" "c_state c4 = c_state c1"
    using same c1(1,2) by (auto simp: c4_def c3_def shape_def same_but_recv_def)
  have "typed_step (Datagram t d) c (drain_and_maybe_fin c4)"
    by (rule typed_step_trans [OF drain_typed [OF c4(1)]]) (use c1(3) c4(2) in auto)
  moreover have "process_segment c seq h p is_ack is_fin =
      map_option (\<lambda>(c5, out3). (c5, (out1 @ (if p \<noteq> [] \<or> is_fin then [build_pure_ack c4 is_fin] else [])) @ out3))
        (drain_and_maybe_fin c4)"
    unfolding process_segment_def Some r by (simp only: option.case prod.case Let_def c2_def c3_def c4_def append_assoc)
  ultimately show ?thesis by (simp only: typed_step_prepend)
qed

lemma handshake_dispatch_typed:
  assumes "conn_wf c"
  shows "case handshake_dispatch c is_syn is_ack of
      Inl r \<Rightarrow> typed_step (Datagram t d) c (Some r)
    | Inr (c', out) \<Rightarrow> conn_wf c' \<and> state_path (Datagram t d) (c_state c) (c_state c')"
  using assms
  by (cases "c_state c"; cases is_syn; cases is_ack; cases "c_handshake c")
    (simp_all add: handshake_dispatch_def Let_def complete_handshake_def typed_step_def wf_defs
      syn_arrives synack_arrives ack_arrives r_into_rtranclp)

lemma on_segment_typed:
  assumes "conn_wf c"
  shows "typed_step (Datagram t d) c (on_segment c f h p)"
proof -
  define c1 where "c1 = c\<lparr>c_peer_window := h_window h\<rparr>"
  have c1: "conn_wf c1" "c_state c1 = c_state c" using assms by (auto simp: c1_def conn_wf_def)
  let ?syn = "flags f AND FLAG_SYN \<noteq> 0" and ?ack = "flags f AND FLAG_ACK \<noteq> 0"
  let ?fin = "flags f AND FLAG_FIN \<noteq> 0"
  note H = handshake_dispatch_typed [OF c1(1), where is_syn = ?syn and is_ack = ?ack and t = t and d = d]
  show ?thesis
  proof (cases "c_state c1 = Closed \<and> ?fin")
    case True
    then show ?thesis using c1 by (simp add: on_segment_def c1_def [symmetric] Let_def typed_step_Some)
  next
    case False
    show ?thesis
    proof (cases "handshake_dispatch c1 ?syn ?ack")
      case (Inl r)
      then show ?thesis using H c1(2) False
        by (auto simp: on_segment_def c1_def [symmetric] Let_def typed_step_def)
    next
      case (Inr r)
      obtain c2 out where r: "r = (c2, out)" by fastforce
      have c2: "conn_wf c2" "state_path (Datagram t d) (c_state c) (c_state c2)" using H Inr r c1(2) by auto
      show ?thesis
        using False Inr r c2 typed_step_trans [OF process_segment_typed c2(2)]
        by (auto simp: on_segment_def c1_def [symmetric] Let_def typed_step_Some conn_wf_def)
    qed
  qed
qed

lemma on_datagram_typed: "conn_wf c \<Longrightarrow> typed_step (Datagram t d) c (on_datagram c t d)"
proof -
  assume "conn_wf c"
  then have "conn_wf (c\<lparr>c_now := now\<rparr>)" for now by (simp add: conn_wf_def)
  then show ?thesis
    using on_segment_typed [of "c\<lparr>c_now := now\<rparr>" for now]
    by (auto simp: on_datagram_def Let_def typed_step_def split: sum.splits option.splits)
qed

section \<open>Timers\<close>

lemma handshake_tick_typed:
  assumes "conn_wf c" and "c_state c = SynSent \<or> c_state c = SynReceived"
  shows "typed_step (OnTick t) c (handshake_tick c)"
  using assms
  by (auto simp: handshake_tick_def Let_def typed_step_def wf_defs gives_up split: option.splits if_splits)

lemma fin_tick_typed:
  assumes "conn_wf c" and "established c"
  shows "typed_step (OnTick t) c (fin_tick c out)"
proof -
  have drain: "typed_step (OnTick t) c (drain_and_maybe_fin c')"
    if "conn_wf c'" "c_state c' = c_state c" for c'
    by (rule typed_step_trans [OF drain_typed]) (use that in \<open>auto simp: conn_wf_def\<close>)
  have wf: "conn_wf (c\<lparr>c_rto := e, c_fin_pending := Some f, c_stats := s\<rparr>)"
    if "c_fin_pending c \<noteq> None" for e f s
    using assms that by (auto simp: wf_defs)
  have fail: "typed_step (OnTick t) c (Some (c\<lparr>c_state := Failed TooManyRetries, c_fin_pending := None\<rparr>, out))"
    using assms by (auto intro!: typed_step_Some simp: wf_defs gives_up)
  show ?thesis
    using drain [OF assms(1)] drain wf fail
    by (auto simp: fin_tick_def Let_def typed_step_def [of _ _ None] simp del: append_assoc
        split: option.splits)
qed

lemma established_tick_typed:
  assumes "conn_wf c" and "established c"
  shows "typed_step (OnTick t) c (established_tick c)"
proof (cases "c_unacked c")
  case Nil
  then show ?thesis using fin_tick_typed [OF assms] by (simp add: established_tick_def)
next
  case (Cons a list)
  obtain c1 out failed where d: "data_timeout c = (c1, out, failed)" by (metis prod_cases3)
  have c1: "conn_wf c1" "c_state c1 = c_state c"
    using d assms by (auto simp: data_timeout_def Let_def wf_defs)
  have "typed_step (OnTick t) c (Some (c1\<lparr>c_state := Failed TooManyRetries, c_unacked := []\<rparr>, out))"
    using assms c1 by (intro typed_step_Some) (auto simp: wf_defs gives_up)
  moreover have "typed_step (OnTick t) c (fin_tick c1 out)"
    by (rule typed_step_trans [OF fin_tick_typed [OF c1(1)]]) (use c1(2) assms(2) in auto)
  ultimately show ?thesis
    using fin_tick_typed [OF assms] d Cons
    by (cases a) (simp add: established_tick_def typed_step_def [of _ _ None] split: option.split)
qed

lemma on_tick_typed:
  assumes "conn_wf c"
  shows "typed_step (OnTick t) c (on_tick c t)"
proof -
  define c0 where "c0 = c\<lparr>c_now := max (c_now c) t\<rparr>"
  have "conn_wf c0" "c_state c0 = c_state c" using assms by (auto simp: c0_def conn_wf_def)
  then show ?thesis
    using handshake_tick_typed [of c0 t] established_tick_typed [of c0 t]
    by (cases "c_state c") (simp_all add: on_tick_def c0_def [symmetric] Let_def typed_step_def)
qed

section \<open>The state machine\<close>

inductive conn_start :: "endpoint \<Rightarrow> bool" where
  "conn_start (ep_client cfg t)"
| "conn_start (ep_server cfg t)"

lemma conn_start_wf: "conn_start e \<Longrightarrow> conn_wf (ep_conn e)"
  by (auto simp: conn_start.simps ep_client_def ep_server_def conn_connect_def conn_listen_def
      blank_def wf_defs Let_def)

lemma ep_exec_typed:
  assumes "conn_wf (ep_conn e)" and "ep_exec e ev = Some e'"
  shows "conn_wf (ep_conn e') \<and> state_path ev (c_state (ep_conn e)) (c_state (ep_conn e'))"
  using assms(2) conn_send_typed [OF assms(1)] conn_close_typed [OF assms(1)]
    conn_recv_wf [OF assms(1)] on_tick_typed [OF assms(1)] on_datagram_typed [OF assms(1)]
  by (cases ev) (fastforce simp: ep_emit_def typed_step_def conn_recv_def)+

interpretation conn: invariant_system conn_start "\<lambda>e e'. \<exists>ev. ep_exec e ev = Some e'"
  "\<lambda>e. conn_wf (ep_conn e)"
  by unfold_locales (auto intro: conn_start_wf dest: ep_exec_typed)

text \<open>C15. States are typed: from \<open>connect\<close> or \<open>listen\<close>, through any calls and any datagrams at all,
  every call moves the connection along the edges of the documented diagram that this call may take
  (only the timer fails a connection, only a datagram establishes or closes it, \<open>recv\<close> changes
  nothing), and in every state the control fields have the shape of that state.\<close>

theorem state_machine_typed:
  assumes "reachable conn_start (\<lambda>e e'. \<exists>ev. ep_exec e ev = Some e') e" and "ep_exec e ev = Some e'"
  shows "conn_wf (ep_conn e) \<and> conn_wf (ep_conn e')
    \<and> state_path ev (c_state (ep_conn e)) (c_state (ep_conn e'))"
  using conn.reachable_inv [OF assms(1)] ep_exec_typed assms(2) by blast

theorem state_machine_typed_witness:
  "\<exists>e. ep_exec (ep_server default_config ZERO) (Datagram (Tick 3) (snd (conn_connect default_config ZERO)))
       = Some e \<and> c_state (ep_conn e) = SynReceived \<and> conn_wf (ep_conn e)
     \<and> state_path (Datagram (Tick 3) (snd (conn_connect default_config ZERO))) Listening SynReceived"
proof -
  have start: "reachable conn_start (\<lambda>e e'. \<exists>ev. ep_exec e ev = Some e') (ep_server default_config ZERO)"
    by (intro reachable_init conn_start.intros)
  have "\<exists>e. ep_exec (ep_server default_config ZERO)
      (Datagram (Tick 3) (snd (conn_connect default_config ZERO))) = Some e
    \<and> c_state (ep_conn e) = SynReceived \<and> c_state (ep_conn (ep_server default_config ZERO)) = Listening"
    by (simp add: run_simps)
  then show ?thesis using state_machine_typed [OF start] by metis
qed

end
