(* ===== verification/Close_Inv.thy ===== *)
theory Close_Inv
  imports Link
begin

text \<open>
  Graceful close. \<open>maybe_send_fin\<close> emits the FIN once nothing is queued and no segment is unacked,
  so a FIN has to mean that the receiver already holds the whole stream. That rests on where the
  cumulative acks can fall: \<open>ack_progress\<close> drops every segment that \<^emph>\<open>starts\<close> below the ack, so the
  unacked map may only run empty early if an ack could split a segment. The invariant here tracks
  the cuts of a stream, the offsets at which its segments start and end, and shows that acks
  fall on cuts only. This theory has the invariant of one connection and its preservation by every
  operation; the theory \<open>Close\<close> joins two of them.
\<close>

section \<open>Cuts and what one endpoint may know of the other\<close>

text \<open>A stream grows at its end only, so its new cuts lie beyond the old ones. A segment is a piece:
  it starts and ends at a cut and no cut falls inside it.\<close>

definition extends :: "nat set \<Rightarrow> nat set \<Rightarrow> bool" where
  "extends K K' \<longleftrightarrow> K \<subseteq> K' \<and> (\<forall>x \<in> K' - K. \<forall>y \<in> K. y < x)"

definition piece :: "nat set \<Rightarrow> nat \<Rightarrow> nat \<Rightarrow> bool" where
  "piece K k n \<longleftrightarrow> 0 < n \<and> k \<in> K \<and> k + n \<in> K \<and> (\<forall>x \<in> K. x \<le> k \<or> k + n \<le> x)"

lemma extends_refl [simp]: "extends K K"
  by (simp add: extends_def)

lemma extends_trans: "extends K K' \<Longrightarrow> extends K' K'' \<Longrightarrow> extends K K''"
  unfolding extends_def by (meson DiffE DiffI order_trans subsetD)

lemma extends_insert: "\<forall>y \<in> K. y < x \<Longrightarrow> extends K (insert x K)"
  by (auto simp: extends_def)

lemma piece_length: "piece K k n \<Longrightarrow> piece K k m \<Longrightarrow> n = m"
  unfolding piece_def by (metis add_le_cancel_left le_antisym less_add_same_cancel1 not_le)

lemma piece_extends: "piece K k n \<Longrightarrow> extends K K' \<Longrightarrow> piece K' k n"
  unfolding piece_def extends_def by (meson DiffI less_imp_le subsetD)

definition fin_done :: "conn \<Rightarrow> bool" where
  "fin_done c \<longleftrightarrow> c_close_requested c \<and> c_send_queue c = [] \<and> c_send_base c = c_next_seq c"

text \<open>The offsets at which a received piece starts: below the expected byte, or buffered.\<close>

definition rcv_got :: "conn \<Rightarrow> nat set" where
  "rcv_got c = {x. x < unat (c_expected_seq c)} \<union> unat ` fst ` set (c_recv_buffer c)"

lemma rcv_got_frame [simp]:
  "rcv_got (c\<lparr>c_state := a1\<rparr>) = rcv_got c" "rcv_got (c\<lparr>c_now := a2\<rparr>) = rcv_got c"
  "rcv_got (c\<lparr>c_rto := a3\<rparr>) = rcv_got c" "rcv_got (c\<lparr>c_stats := a4\<rparr>) = rcv_got c"
  "rcv_got (c\<lparr>c_handshake := a5\<rparr>) = rcv_got c" "rcv_got (c\<lparr>c_send_queue := a6\<rparr>) = rcv_got c"
  "rcv_got (c\<lparr>c_next_seq := a7\<rparr>) = rcv_got c" "rcv_got (c\<lparr>c_send_base := a8\<rparr>) = rcv_got c"
  "rcv_got (c\<lparr>c_unacked := a9\<rparr>) = rcv_got c" "rcv_got (c\<lparr>c_close_requested := a10\<rparr>) = rcv_got c"
  "rcv_got (c\<lparr>c_fin_pending := a11\<rparr>) = rcv_got c" "rcv_got (c\<lparr>c_fin_acked := a12\<rparr>) = rcv_got c"
  "rcv_got (c\<lparr>c_peer_window := a13\<rparr>) = rcv_got c" "rcv_got (c\<lparr>c_cwnd := a14\<rparr>) = rcv_got c"
  "rcv_got (c\<lparr>c_ssthresh := a15\<rparr>) = rcv_got c" "rcv_got (c\<lparr>c_dup_ack_count := a16\<rparr>) = rcv_got c"
  "rcv_got (c\<lparr>c_delivered := a17\<rparr>) = rcv_got c" "rcv_got (c\<lparr>c_peer_fin_seen := a18\<rparr>) = rcv_got c"
  by (simp_all add: rcv_got_def)

record view =
  v_cuts :: "nat set"
  v_expected :: nat
  v_got :: "nat set"
  v_done :: bool
  v_seen :: bool

definition view_of :: "nat set \<Rightarrow> conn \<Rightarrow> view" where
  "view_of K c = \<lparr>v_cuts = K, v_expected = unat (c_expected_seq c), v_got = rcv_got c,
     v_done = fin_done c,
     v_seen = c_peer_fin_seen c\<rparr>"

definition view_le :: "view \<Rightarrow> view \<Rightarrow> bool" where
  "view_le V W \<longleftrightarrow> extends (v_cuts V) (v_cuts W) \<and> v_expected V \<le> v_expected W
     \<and> v_got V \<subseteq> v_got W \<and> (v_done V \<longrightarrow> v_done W) \<and> (v_seen V \<longrightarrow> v_seen W)"

lemma view_of_simps [simp]:
  "v_cuts (view_of K c) = K" "v_expected (view_of K c) = unat (c_expected_seq c)"
  "v_got (view_of K c) = rcv_got c" "v_done (view_of K c) = fin_done c" "v_seen (view_of K c) = c_peer_fin_seen c"
  by (simp_all add: view_of_def)

lemma view_le_refl [simp]: "view_le V V"
  by (simp add: view_le_def)

lemma view_le_trans: "view_le U V \<Longrightarrow> view_le V W \<Longrightarrow> view_le U W"
  by (auto simp: view_le_def intro: extends_trans)

text \<open>A datagram of an endpoint seen as \<open>W\<close>, on its way to an endpoint seen as \<open>V\<close>.\<close>

definition cut_msg :: "view \<Rightarrow> view \<Rightarrow> bytes \<Rightarrow> bool" where
  "cut_msg W V d \<longleftrightarrow>
    (\<forall>f h p. frame_decode d = Inr f \<longrightarrow> segment_decode (payload f) = Some (h, p) \<longrightarrow>
       (p \<noteq> [] \<longrightarrow> piece (v_cuts W) (unat (sequence f)) (length p))
       \<and> unat (h_ack h) \<in> v_cuts V \<and> unat (h_ack h) \<le> v_expected W
       \<and> (flags f AND FLAG_FIN \<noteq> 0 \<longrightarrow> v_done W) \<and> (h_fin_ack h \<longrightarrow> v_seen W))"

lemma cut_msg_mono: "cut_msg W V d \<Longrightarrow> view_le W W' \<Longrightarrow> view_le V V' \<Longrightarrow> cut_msg W' V' d"
  unfolding cut_msg_def view_le_def by (meson extends_def order_trans piece_extends subsetD)

section \<open>The invariant of one connection\<close>

definition snd_cuts :: "nat set \<Rightarrow> conn \<Rightarrow> bool" where
  "snd_cuts K c \<longleftrightarrow>
     unat (c_next_seq c) \<in> K \<and> unat (c_send_base c) \<in> K
     \<and> (\<forall>x \<in> K. x \<le> unat (c_next_seq c))
     \<and> (\<forall>p \<in> set (c_unacked c). piece K (unat (fst p)) (length (us_data (snd p))))
     \<and> (\<forall>p \<in> set (c_unacked c). c_send_base c \<le> fst p)
     \<and> (failure c = None \<longrightarrow>
          (\<forall>x \<in> K. unat (c_send_base c) \<le> x \<and> x < unat (c_next_seq c) \<longrightarrow>
             x \<in> unat ` fst ` set (c_unacked c)))"

definition rcv_cuts :: "nat set \<Rightarrow> conn \<Rightarrow> bool" where
  "rcv_cuts KP c \<longleftrightarrow> unat (c_expected_seq c) \<in> KP
     \<and> (\<forall>p \<in> set (c_recv_buffer c). piece KP (unat (fst p)) (length (snd p)))
     \<and> (\<forall>p \<in> set (c_recv_buffer c). c_expected_seq c < fst p)"

definition fin_cuts :: "view \<Rightarrow> conn \<Rightarrow> bool" where
  "fin_cuts V c \<longleftrightarrow>
     unat (c_send_base c) \<le> v_expected V
     \<and> (c_state c = Closing \<or> c_state c = Closed \<or> c_fin_pending c \<noteq> None \<longrightarrow> fin_done c)
     \<and> (c_state c = Closed \<longrightarrow> c_fin_acked c \<and> c_peer_fin_seen c)
     \<and> (c_peer_fin_seen c \<longrightarrow> v_done V) \<and> (c_fin_acked c \<longrightarrow> v_seen V)"

definition cut_inv :: "nat set \<Rightarrow> view \<Rightarrow> conn \<Rightarrow> bool" where
  "cut_inv K V c \<longleftrightarrow> snd_cuts K c \<and> rcv_cuts (v_cuts V) c \<and> fin_cuts V c"

lemmas cut_inv_defs = cut_inv_def snd_cuts_def rcv_cuts_def fin_cuts_def

definition op_cut :: "nat set \<Rightarrow> view \<Rightarrow> conn \<Rightarrow> (conn \<times> bytes list) option \<Rightarrow> bool" where
  "op_cut K V c r \<longleftrightarrow>
    (\<forall>c' out. r = Some (c', out) \<longrightarrow>
       (\<exists>K'. cut_inv K' V c' \<and> view_le (view_of K c) (view_of K' c')
         \<and> (\<forall>d \<in> set out. cut_msg (view_of K' c') V d)))"

lemma cut_inv_peer:
  assumes "cut_inv K V c" and "view_le V V'"
  shows "cut_inv K V' c"
proof -
  have "rcv_cuts (v_cuts V') c"
    using assms piece_extends unfolding cut_inv_def rcv_cuts_def view_le_def by (meson extends_def subsetD)
  moreover have "fin_cuts V' c"
    using assms unfolding cut_inv_def fin_cuts_def view_le_def by (meson order_trans)
  ultimately show ?thesis using assms by (simp add: cut_inv_def)
qed

text \<open>Updates of the fields that neither the invariant nor the view reads.\<close>

lemma view_of_frame [simp]:
  "view_of K (c\<lparr>c_state := a1\<rparr>) = view_of K c" "view_of K (c\<lparr>c_now := a2\<rparr>) = view_of K c"
  "view_of K (c\<lparr>c_rto := a3\<rparr>) = view_of K c" "view_of K (c\<lparr>c_stats := a4\<rparr>) = view_of K c"
  "view_of K (c\<lparr>c_handshake := a5\<rparr>) = view_of K c" "view_of K (c\<lparr>c_unacked := a6\<rparr>) = view_of K c"
  "view_of K (c\<lparr>c_fin_pending := a7\<rparr>) = view_of K c" "view_of K (c\<lparr>c_fin_acked := a8\<rparr>) = view_of K c"
  "view_of K (c\<lparr>c_peer_window := a9\<rparr>) = view_of K c" "view_of K (c\<lparr>c_cwnd := a10\<rparr>) = view_of K c"
  "view_of K (c\<lparr>c_ssthresh := a11\<rparr>) = view_of K c"
  "view_of K (c\<lparr>c_dup_ack_count := a12\<rparr>) = view_of K c"
  "view_of K (c\<lparr>c_delivered := a13\<rparr>) = view_of K c"
  by (simp_all add: view_of_def fin_done_def rcv_got_def)

lemma cut_inv_frame [simp]:
  "cut_inv K V (c\<lparr>c_now := a1\<rparr>) = cut_inv K V c" "cut_inv K V (c\<lparr>c_rto := a2\<rparr>) = cut_inv K V c"
  "cut_inv K V (c\<lparr>c_stats := a3\<rparr>) = cut_inv K V c" "cut_inv K V (c\<lparr>c_handshake := a4\<rparr>) = cut_inv K V c"
  "cut_inv K V (c\<lparr>c_peer_window := a5\<rparr>) = cut_inv K V c" "cut_inv K V (c\<lparr>c_cwnd := a6\<rparr>) = cut_inv K V c"
  "cut_inv K V (c\<lparr>c_ssthresh := a7\<rparr>) = cut_inv K V c"
  "cut_inv K V (c\<lparr>c_dup_ack_count := a8\<rparr>) = cut_inv K V c"
  "cut_inv K V (c\<lparr>c_delivered := a9\<rparr>) = cut_inv K V c"
  by (simp_all add: cut_inv_defs fin_done_def failure_def)

lemma cut_inv_unacked:
  assumes "cut_inv K V c" and "map fst m = map fst (c_unacked c)"
    and "\<And>k s. (k, s) \<in> set m \<Longrightarrow> \<exists>s'. (k, s') \<in> set (c_unacked c) \<and> us_data s = us_data s'"
  shows "cut_inv K V (c\<lparr>c_unacked := m\<rparr>)"
proof -
  have keys: "fst ` set m = fst ` set (c_unacked c)" using assms(2) by (metis set_map)
  have "\<forall>p \<in> set m. piece K (unat (fst p)) (length (us_data (snd p)))"
    using assms(1,3) unfolding cut_inv_def snd_cuts_def by (metis fst_conv snd_conv surj_pair)
  moreover have "\<forall>k \<in> fst ` set (c_unacked c). c_send_base c \<le> k"
    using assms(1) by (auto simp: cut_inv_def snd_cuts_def)
  then have "\<forall>p \<in> set m. c_send_base c \<le> fst p" unfolding keys [symmetric] by blast
  ultimately show ?thesis using assms(1) keys
    by (simp add: cut_inv_defs fin_done_def failure_def)
qed

lemma op_cut_Some:
  "cut_inv K V c' \<Longrightarrow> view_le (view_of K c) (view_of K c') \<Longrightarrow>
     \<forall>d \<in> set out. cut_msg (view_of K c') V d \<Longrightarrow> op_cut K V c (Some (c', out))"
  by (auto simp: op_cut_def)

lemma op_cut_mono:
  assumes "op_cut K' V c1 r" and "view_le (view_of K c) (view_of K' c1)"
  shows "op_cut K V c r"
  using assms unfolding op_cut_def by (blast intro: view_le_trans)

lemma op_cut_prepend:
  assumes "op_cut K V c r" and "\<forall>d \<in> set out. cut_msg (view_of K c) V d"
  shows "op_cut K V c (map_option (\<lambda>(c', out'). (c', out @ out')) r)"
  unfolding op_cut_def
proof (intro allI impI)
  fix c' out1
  assume "map_option (\<lambda>(c', out'). (c', out @ out')) r = Some (c', out1)"
  then obtain out' where r: "r = Some (c', out')" "out1 = out @ out'" by auto
  with assms(1) obtain K' where K': "cut_inv K' V c'" "view_le (view_of K c) (view_of K' c')"
    "\<forall>d \<in> set out'. cut_msg (view_of K' c') V d" by (auto simp: op_cut_def)
  moreover have "\<forall>d \<in> set out. cut_msg (view_of K' c') V d"
    using assms(2) K'(2) cut_msg_mono view_le_refl by blast
  ultimately show "\<exists>K'. cut_inv K' V c' \<and> view_le (view_of K c) (view_of K' c')
      \<and> (\<forall>d \<in> set out1. cut_msg (view_of K' c') V d)" using r(2) by auto
qed

section \<open>Built frames\<close>

lemma cut_msg_frame:
  assumes "rcv_cuts (v_cuts V) c" and "p \<noteq> [] \<Longrightarrow> piece K (unat seq) (length p)"
    and "flgs AND FLAG_FIN \<noteq> 0 \<Longrightarrow> fin_done c" and "b \<Longrightarrow> c_peer_fin_seen c"
  shows "cut_msg (view_of K c) V (encode_frame seq flgs (segment_encode (conn_header c b) [] @ p))"
  using assms
  by (auto simp: cut_msg_def encode_frame_def frame_decode_encode segment_decode_encode
      conn_header_def view_of_def rcv_cuts_def split: if_splits)

lemma cut_msg_builders:
  assumes "cut_inv K V c"
  shows "cut_msg (view_of K c) V (build_syn c)" "cut_msg (view_of K c) V (build_synack c)"
    "cut_msg (view_of K c) V (build_handshake_ack c)"
    "fin_done c \<Longrightarrow> cut_msg (view_of K c) V (build_fin c)"
    "(b \<Longrightarrow> c_peer_fin_seen c) \<Longrightarrow> cut_msg (view_of K c) V (build_pure_ack c b)"
    "piece K (unat seq) (length data) \<Longrightarrow>
       cut_msg (view_of K c) V (build_data_frame seq data (header_bytes c))"
proof -
  have r: "rcv_cuts (v_cuts V) c" using assms by (simp add: cut_inv_def)
  have bare: "cut_msg (view_of K c) V (encode_frame seq flgs (segment_encode (conn_header c b) []))"
    if "flgs AND FLAG_FIN \<noteq> 0 \<Longrightarrow> fin_done c" "b \<Longrightarrow> c_peer_fin_seen c" for seq flgs b
    using cut_msg_frame [OF r, where p = "[]" and seq = seq and K = K and flgs = flgs and b = b] that by simp
  show "cut_msg (view_of K c) V (build_syn c)" "cut_msg (view_of K c) V (build_synack c)"
    "cut_msg (view_of K c) V (build_handshake_ack c)"
    "fin_done c \<Longrightarrow> cut_msg (view_of K c) V (build_fin c)"
    "(b \<Longrightarrow> c_peer_fin_seen c) \<Longrightarrow> cut_msg (view_of K c) V (build_pure_ack c b)"
    unfolding build_syn_def build_synack_def build_handshake_ack_def build_fin_def
      build_pure_ack_def header_bytes_def by (rule bare; simp add: flag_defs)+
  show "piece K (unat seq) (length data) \<Longrightarrow>
       cut_msg (view_of K c) V (build_data_frame seq data (header_bytes c))"
    unfolding build_data_frame_def header_bytes_def
    by (rule cut_msg_frame [OF r]) (simp_all add: flag_defs)
qed

section \<open>Sending\<close>

lemma all_acked:
  assumes "snd_cuts K c" and "send_ok S c" and "failure c = None" and "c_unacked c = []"
  shows "c_send_base c = c_next_seq c"
proof (rule ccontr)
  assume "c_send_base c \<noteq> c_next_seq c"
  then have "unat (c_send_base c) < unat (c_next_seq c)"
    using assms(2) by (simp add: send_ok_def word_le_nat_alt unat_arith_simps)
  with assms show False by (auto simp: snd_cuts_def)
qed

text \<open>A new segment of \<open>n\<close> bytes at the next sequence number adds one cut, the end of the segment.\<close>

lemma snd_cuts_extend:
  assumes snd: "snd_cuts K c" and nxt: "unat (c_next_seq c') = unat (c_next_seq c) + n" and "0 < n"
    and base: "c_send_base c' = c_send_base c" and failure: "failure c' = failure c"
    and set': "set (c_unacked c') = insert (c_next_seq c, seg) {p \<in> set (c_unacked c). fst p \<noteq> c_next_seq c}"
    and n: "length (us_data seg) = n"
  shows "snd_cuts (insert (unat (c_next_seq c) + n) K) c'"
    and "extends K (insert (unat (c_next_seq c) + n) K)"
    and "piece (insert (unat (c_next_seq c) + n) K) (unat (c_next_seq c)) n"
proof -
  let ?K = "insert (unat (c_next_seq c) + n) K"
  have le: "\<forall>x \<in> K. x \<le> unat (c_next_seq c)" using snd by (simp add: snd_cuts_def)
  then show ext: "extends K ?K" using \<open>0 < n\<close> by (intro extends_insert) auto
  show new: "piece ?K (unat (c_next_seq c)) n" using le snd \<open>0 < n\<close> by (auto simp: piece_def snd_cuts_def)
  show "snd_cuts ?K c'"
    unfolding snd_cuts_def base failure nxt
  proof (intro conjI impI ballI)
    fix p assume "p \<in> set (c_unacked c')"
    then show "piece ?K (unat (fst p)) (length (us_data (snd p)))"
      using snd n new piece_extends [OF _ ext] unfolding set' snd_cuts_def by auto
  next
    fix x assume x: "failure c = None" "x \<in> ?K" "unat (c_send_base c) \<le> x \<and> x < unat (c_next_seq c) + n"
    then have "x \<in> K" "x \<le> unat (c_next_seq c)" using le by auto
    show "x \<in> unat ` fst ` set (c_unacked c')"
    proof (cases "x = unat (c_next_seq c)")
      case True
      then show ?thesis by (simp add: set')
    next
      case False
      then have "x < unat (c_next_seq c)" using \<open>x \<le> unat (c_next_seq c)\<close> by simp
      then obtain p where "p \<in> set (c_unacked c)" "x = unat (fst p)"
        using x \<open>x \<in> K\<close> snd unfolding snd_cuts_def by blast
      moreover from this have "p \<in> set (c_unacked c')" using False unfolding set' by auto
      ultimately show ?thesis by blast
    qed
  next
    fix p assume "p \<in> set (c_unacked c')"
    then show "c_send_base c \<le> fst p"
      using snd unfolding set' snd_cuts_def by (auto simp: word_le_nat_alt)
  qed (use snd in \<open>auto simp: snd_cuts_def intro: trans_le_add1\<close>)
qed

lemma admit_chunk_cut:
  assumes inv: "conn_inv S R P c" and cut: "cut_inv K V c" and q: "c_send_queue c \<noteq> []"
    and cap: "admission_cap c \<noteq> 0" and step: "admit_chunk c = (c', d)"
  shows "\<exists>K'. cut_inv K' V c' \<and> view_le (view_of K c) (view_of K' c') \<and> cut_msg (view_of K' c') V d"
proof -
  define n where "n = min (min (segment_size (c_config c)) (length (c_send_queue c)))
    (unat (admission_cap c))"
  note I = inv [unfolded conn_inv_defs]
  have n: "n \<le> length (c_send_queue c)" "0 < n"
    using I q admission_cap_le [OF cap] by (simp_all add: n_def)
  then have "unat (c_next_seq c) + n < 2 ^ 32" using I by auto
  then have next': "unat (c_next_seq c + word_of_nat n) = unat (c_next_seq c) + n"
    by (simp add: unat_word_ariths unat_of_nat)
  define K' where "K' = insert (unat (c_next_seq c) + n) K"
  define c1 where "c1 = c\<lparr>c_send_queue := drop n (c_send_queue c),
    c_next_seq := c_next_seq c + word_of_nat n\<rparr>"
  let ?seg = "\<lparr>us_data = take n (c_send_queue c), us_sent_at = c_now c, us_retransmit_count = 0,
    us_sacked = False\<rparr>"
  have d: "d = build_data_frame (c_next_seq c) (take n (c_send_queue c)) (header_bytes c1)"
    and c': "c' = c1\<lparr>c_unacked := bt_insert (c_next_seq c) ?seg (c_unacked c),
      c_stats := (c_stats c)\<lparr>data_segments_sent := data_segments_sent (c_stats c) + 1\<rparr>\<rparr>"
    using step by (auto simp: admit_chunk_def Let_def n_def c1_def)
  have nd: "\<not> fin_done c" using q by (simp add: fin_done_def)
  have snd: "snd_cuts K c" and rcv: "rcv_cuts (v_cuts V) c" and fin: "fin_cuts V c"
    using cut by (simp_all add: cut_inv_def)
  have set': "set (c_unacked c') = insert (c_next_seq c, ?seg) {p \<in> set (c_unacked c). fst p \<noteq> c_next_seq c}"
    using I by (simp add: c' set_bt_insert)
  have K': "snd_cuts K' c'" "extends K K'" "piece K' (unat (c_next_seq c)) n"
    unfolding K'_def
    by (rule snd_cuts_extend [OF snd _ n(2) _ _ set'];
        use n in \<open>simp add: c' c1_def next' failure_def\<close>)+
  moreover have "rcv_cuts (v_cuts V) c'" using rcv by (simp add: c' c1_def rcv_cuts_def)
  moreover have "fin_cuts V c'" using fin nd by (simp add: c' c1_def fin_cuts_def)
  moreover have "view_le (view_of K c) (view_of K' c')"
    using nd K'(2) by (auto simp: view_le_def view_of_def c' c1_def)
  moreover have "cut_msg (view_of K' c1) V d"
    unfolding d build_data_frame_def header_bytes_def
    by (rule cut_msg_frame) (use rcv n K'(3) in \<open>simp_all add: rcv_cuts_def c1_def flag_defs min_absorb2\<close>)
  ultimately show ?thesis using K'(1) by (auto simp: cut_inv_def c')
qed

lemma admit_loop_cut:
  assumes "conn_inv S R P c" and "cut_inv K V c" and "\<forall>d \<in> set out. cut_msg (view_of K c) V d"
  shows "op_cut K V c (admit_loop c out)"
  using assms
proof (induction "length (c_send_queue c)" arbitrary: K c out rule: less_induct)
  case less
  show ?case
  proof (cases "c_send_queue c = [] \<or> admission_cap c = 0")
    case True
    then have "admit_loop c out = Some (c, out)" by (subst admit_loop.simps) auto
    with less.prems show ?thesis by (simp add: op_cut_Some)
  next
    case False
    obtain c1 d where step: "admit_chunk c = (c1, d)" by fastforce
    note A = admit_chunk_inv [OF less.prems(1) _ _ step]
    obtain K1 where K1: "cut_inv K1 V c1" "view_le (view_of K c) (view_of K1 c1)"
      "cut_msg (view_of K1 c1) V d"
      using admit_chunk_cut [OF less.prems(1,2) _ _ step] False by blast
    then have "\<forall>d \<in> set (out @ [d]). cut_msg (view_of K1 c1) V d"
      using less.prems(3) cut_msg_mono [OF _ K1(2)] by auto
    then have "op_cut K1 V c1 (admit_loop c1 (out @ [d]))"
      using less.hyps [OF A(4) A(1) K1(1)] False by auto
    moreover have "admit_loop c out = admit_loop c1 (out @ [d])"
      using False step by (subst admit_loop.simps) simp
    ultimately show ?thesis using K1(2) op_cut_mono by simp
  qed
qed

lemma try_send_more_cut:
  assumes "conn_inv S R P c" and "cut_inv K V c"
  shows "op_cut K V c (try_send_more c)"
  using assms admit_loop_cut [OF assms, of "[]"] by (simp add: try_send_more_def op_cut_Some)

lemma cut_inv_check_fully_closed [simp]:
  "cut_inv K V c \<Longrightarrow> cut_inv K V (check_fully_closed c)"
  "view_of K (check_fully_closed c) = view_of K c"
  by (auto simp: check_fully_closed_def cut_inv_defs failure_def fin_done_def)

lemma maybe_send_fin_cut:
  assumes "conn_inv S R P c" and "cut_inv K V c" and "maybe_send_fin c = (c', out)"
  shows "cut_inv K V c'" and "view_of K c' = view_of K c"
    and "\<forall>d \<in> set out. cut_msg (view_of K c) V d"
proof -
  define c1 where "c1 = c\<lparr>c_state := Closing,
    c_fin_pending := Some \<lparr>pc_sent_at = c_now c, pc_attempts = 1\<rparr>\<rparr>"
  have "cut_inv K V c1 \<and> fin_done c1"
    if "c_close_requested c" "c_state c = Established" "c_send_queue c = []" "c_unacked c = []"
  proof -
    have "c_send_base c = c_next_seq c"
      using all_acked [of K c S] assms(1,2) that by (simp add: cut_inv_def conn_inv_def failure_def)
    with assms(2) that show ?thesis by (simp add: c1_def cut_inv_defs fin_done_def failure_def)
  qed
  moreover have "view_of K c1 = view_of K c" by (simp add: c1_def)
  ultimately have "cut_inv K V c' \<and> view_of K c' = view_of K c \<and> (\<forall>d \<in> set out. cut_msg (view_of K c) V d)"
    using assms(2,3) cut_msg_builders(4) [of K V c1]
    by (auto simp: maybe_send_fin_def Let_def c1_def [symmetric] split: if_splits)
  then show "cut_inv K V c'" and "view_of K c' = view_of K c"
    and "\<forall>d \<in> set out. cut_msg (view_of K c) V d" by simp_all
qed

lemma drain_and_maybe_fin_cut:
  assumes "conn_inv S R P c" and "cut_inv K V c"
  shows "op_cut K V c (drain_and_maybe_fin c)"
proof -
  obtain c1 out where s: "try_send_more c = Some (c1, out)" "conn_inv S R P c1"
    using try_send_more_ok [OF assms(1)] by metis
  obtain K1 where K1: "cut_inv K1 V c1" "view_le (view_of K c) (view_of K1 c1)"
    "\<forall>d \<in> set out. cut_msg (view_of K1 c1) V d"
    using try_send_more_cut [OF assms] s(1) by (auto simp: op_cut_def)
  obtain c2 fin where f: "maybe_send_fin c1 = (c2, fin)" by fastforce
  note F = maybe_send_fin_cut [OF s(2) K1(1) f]
  have "op_cut K1 V c1 (Some (check_fully_closed c2, out @ fin))"
    using F K1 by (intro op_cut_Some) auto
  then show ?thesis
    using K1(2) op_cut_mono by (simp add: drain_and_maybe_fin_def s f)
qed

section \<open>Acknowledgements\<close>

text \<open>What the peer's datagrams promise of a header they carry.\<close>

definition cut_header :: "nat set \<Rightarrow> view \<Rightarrow> segment_header \<Rightarrow> bool" where
  "cut_header K V h \<longleftrightarrow> unat (h_ack h) \<in> K \<and> unat (h_ack h) \<le> v_expected V
     \<and> (h_fin_ack h \<longrightarrow> v_seen V)"

lemma ack_progress_cut:
  assumes "conn_inv S R P c" and cut: "cut_inv K V c"
    and ack: "unat ack \<in> K" "unat ack \<le> v_expected V" "c_send_base c < ack"
  shows "cut_inv K V (ack_progress c ack)" and "view_le (view_of K c) (view_of K (ack_progress c ack))"
proof -
  have snd: "snd_cuts K c" and rcv: "rcv_cuts (v_cuts V) c" and fin: "fin_cuts V c"
    using cut by (simp_all add: cut_inv_def)
  have "unat ack \<le> unat (c_next_seq c)" using ack(1) snd by (simp add: snd_cuts_def)
  then have nd: "\<not> fin_done c" using ack(3) by (auto simp: fin_done_def word_le_nat_alt word_less_nat_alt)
  define c1 where "c1 = ack_progress c ack"
  have c1: "c_send_base c1 = ack" "c_next_seq c1 = c_next_seq c" "failure c1 = failure c"
    "c_unacked c1 = filter (\<lambda>q. ack \<le> fst q) (c_unacked c)"
    by (simp_all add: c1_def ack_progress_def Let_def remove_acked failure_def)
  have "snd_cuts K c1"
    unfolding snd_cuts_def c1
  proof (intro conjI impI ballI)
    fix x assume x: "failure c = None" "x \<in> K" "unat ack \<le> x \<and> x < unat (c_next_seq c)"
    then have "x \<in> unat ` fst ` set (c_unacked c)"
      using ack(3) snd by (simp add: snd_cuts_def word_less_nat_alt)
    then obtain p where "p \<in> set (c_unacked c)" "x = unat (fst p)" by blast
    with x show "x \<in> unat ` fst ` set (filter (\<lambda>q. ack \<le> fst q) (c_unacked c))"
      by (force simp: word_le_nat_alt)
  qed (use snd ack in \<open>auto simp: snd_cuts_def\<close>)
  moreover have "rcv_cuts (v_cuts V) c1" "fin_cuts V c1"
    using rcv fin nd ack(2)
    by (simp_all add: c1_def ack_progress_def Let_def rcv_cuts_def fin_cuts_def)
  ultimately show "cut_inv K V (ack_progress c ack)" by (simp add: cut_inv_def c1_def)
  show "view_le (view_of K c) (view_of K (ack_progress c ack))"
    using nd by (simp add: view_le_def view_of_def ack_progress_def Let_def)
qed

lemma dup_ack_cut:
  assumes "cut_inv K V c" and "dup_ack c = (c', r)"
  shows "cut_inv K V c'" and "view_of K c' = view_of K c"
    and "r = Some d \<Longrightarrow> cut_msg (view_of K c) V d"
proof -
  have "cut_inv K V c' \<and> view_of K c' = view_of K c \<and> (\<forall>d. r = Some d \<longrightarrow> cut_msg (view_of K c) V d)"
  proof (cases "c_unacked c")
    case Nil
    with assms show ?thesis by (auto simp: dup_ack_def Let_def split: if_splits)
  next
    case (Cons p rest)
    obtain seq seg where p: "p = (seq, seg)" by fastforce
    let ?seg = "seg\<lparr>us_retransmit_count := us_retransmit_count seg + 1, us_sent_at := c_now c\<rparr>"
    define c2 where "c2 = c\<lparr>c_dup_ack_count := 0, c_ssthresh := half_window c,
      c_cwnd := half_window c, c_unacked := (seq, ?seg) # rest,
      c_stats := (c_stats c)\<lparr>fast_retransmits := fast_retransmits (c_stats c) + 1,
        congestion_events := congestion_events (c_stats c) + 1,
        data_segments_retransmitted := data_segments_retransmitted (c_stats c) + 1\<rparr>\<rparr>"
    have "cut_inv K V (c\<lparr>c_dup_ack_count := 0, c_ssthresh := half_window c,
        c_cwnd := half_window c\<rparr>\<lparr>c_unacked := (seq, ?seg) # rest\<rparr>)"
      using assms(1) Cons p by (intro cut_inv_unacked) auto
    then have c2: "cut_inv K V c2" "view_of K c2 = view_of K c" by (simp_all add: c2_def)
    have "piece K (unat seq) (length (us_data seg))"
      using assms(1) Cons p by (auto simp: cut_inv_def snd_cuts_def)
    then have "cut_msg (view_of K c) V (build_data_frame seq (us_data seg) (header_bytes c2))"
      using cut_msg_builders(6) [OF c2(1)] c2(2) by simp
    moreover have "(c', r) = (c2, Some (build_data_frame seq (us_data seg) (header_bytes c2)))
        \<or> (c', r) = (c\<lparr>c_dup_ack_count := c_dup_ack_count c + 1\<rparr>, None)"
      using assms(2) by (auto simp: dup_ack_def Let_def Cons p c2_def split: if_splits)
    ultimately show ?thesis using c2 assms(1) by auto
  qed
  then show "cut_inv K V c'" and "view_of K c' = view_of K c"
    and "r = Some d \<Longrightarrow> cut_msg (view_of K c) V d" by simp_all
qed

lemma apply_sack_fin_cut:
  assumes "cut_inv K V c" and "\<forall>r \<in> set (h_sack h). sr_start r \<le> sr_end r"
    and "cut_header K V h" and "apply_sack_fin c h = Some c'"
  shows "cut_inv K V c'" and "view_of K c' = view_of K c"
proof -
  obtain m where m: "mark_sacked (unacked_rooted c) (h_sack h) (c_unacked c) = Some m"
    and keys: "map fst m = map fst (c_unacked c)"
    and data: "\<forall>k s. (k, s) \<in> set m \<longrightarrow> (\<exists>s'. (k, s') \<in> set (c_unacked c) \<and> us_data s = us_data s')"
    using mark_sacked_ok [OF assms(2)] by metis
  define c1 where "c1 = c\<lparr>c_unacked := m\<rparr>"
  have c1: "cut_inv K V c1" using assms(1) keys data unfolding c1_def by (intro cut_inv_unacked) auto
  then have "h_fin_ack h \<Longrightarrow> cut_inv K V (c1\<lparr>c_fin_acked := True, c_fin_pending := None\<rparr>)"
    using assms(3) by (simp add: cut_inv_defs fin_done_def failure_def cut_header_def)
  moreover have "c' = (if h_fin_ack h
      then check_fully_closed (c1\<lparr>c_fin_acked := True, c_fin_pending := None\<rparr>) else c1)"
    using assms(4) by (auto simp: apply_sack_fin_def m Let_def c1_def)
  moreover have "view_of K c1 = view_of K c" by (simp add: c1_def)
  ultimately show "cut_inv K V c'" and "view_of K c' = view_of K c" using c1 by simp_all
qed

lemma apply_ack_cut:
  assumes "conn_inv S R P c" and "cut_inv K V c" and "header_ok (tx S c) h" and "cut_header K V h"
  shows "op_cut K V c (apply_ack c h)"
proof -
  define r where "r = (if c_send_base c < h_ack h then (ack_progress c (h_ack h), None)
         else if h_ack h = c_send_base c \<and> c_unacked c \<noteq> [] then dup_ack c
         else (c, None))"
  obtain c1 re where r: "r = (c1, re)" by fastforce
  have c1: "cut_inv K V c1 \<and> view_le (view_of K c) (view_of K c1)
      \<and> (\<forall>d. re = Some d \<longrightarrow> cut_msg (view_of K c1) V d)"
    using r assms(2,4) ack_progress_cut [OF assms(1,2)] dup_ack_cut [OF assms(2)]
    by (auto simp: r_def cut_header_def split: if_splits)
  have eq: "apply_ack c h = (case re of Some d \<Rightarrow> Some (c1, [d])
        | None \<Rightarrow> map_option (\<lambda>c2. (c2, [])) (apply_sack_fin c1 h))"
    unfolding apply_ack_def r_def [symmetric] r by simp
  show ?thesis
  proof (cases re)
    case None
    have sack: "\<forall>r \<in> set (h_sack h). sr_start r \<le> sr_end r" using assms(3) by (simp add: header_ok_def)
    have "op_cut K V c (Some (c2, []))" if "apply_sack_fin c1 h = Some c2" for c2
      using apply_sack_fin_cut [OF _ sack assms(4) that] c1 by (intro op_cut_Some) auto
    then show ?thesis by (cases "apply_sack_fin c1 h") (auto simp: eq None op_cut_def)
  qed (use c1 in \<open>simp add: eq op_cut_Some\<close>)
qed

section \<open>Delivery\<close>

lemma piece_next: "piece K k n \<Longrightarrow> piece K k' n' \<Longrightarrow> k < k' \<Longrightarrow> k + n \<le> k'"
  by (auto simp: piece_def)

text \<open>What the drain leaves behind, and what one turn of it does: it delivers the chunk at the
  expected byte.\<close>

definition ahead :: "nat set \<Rightarrow> conn \<Rightarrow> bool" where
  "ahead K c \<longleftrightarrow> (\<forall>p \<in> set (c_recv_buffer c).
     piece K (unat (fst p)) (length (snd p)) \<and> c_expected_seq c \<le> fst p)"

definition drain_turn :: "conn \<Rightarrow> bytes \<Rightarrow> conn" where
  "drain_turn c v = c\<lparr>c_recv_buffer := bt_remove (c_expected_seq c) (c_recv_buffer c),
     c_expected_seq := c_expected_seq c + word_of_nat (length v),
     c_stats := (c_stats c)\<lparr>bytes_delivered_app :=
       bytes_delivered_app (c_stats c) + word_of_nat (length v)\<rparr>,
     c_delivered := c_delivered c @ v\<rparr>"

lemma drain_idle_cut:
  assumes "recv_ok R P c" and "ahead K c" and p: "p \<in> set (c_recv_buffer c)"
    and idle: "\<nexists>v. bt_first_from (c_expected_seq c) (c_recv_buffer c) = Some (c_expected_seq c, v)"
  shows "c_expected_seq c < fst p"
proof (cases "bt_first_from (c_expected_seq c) (c_recv_buffer c)")
  case None
  then have "fst p < c_expected_seq c" using bt_first_from_NoneD [OF _ p] by blast
  then show ?thesis using assms(2) p by (meson ahead_def leD)
next
  case (Some q)
  then have "c_expected_seq c < fst q" using idle bt_first_from_SomeD [of _ _ "fst q" "snd q"]
    by (cases q) (auto simp: order_less_le)
  moreover have "fst q \<le> fst p"
    using Some assms(1,2) p by (cases q) (auto simp: recv_ok_def ahead_def intro: bt_first_from_le)
  ultimately show ?thesis by simp
qed

lemma drain_turn_cut:
  assumes ok: "recv_ok R P c" and ahead: "ahead K c"
    and v: "bt_first_from (c_expected_seq c) (c_recv_buffer c) = Some (c_expected_seq c, v)"
  shows "recv_ok R P (drain_turn c v)" and "unat (c_expected_seq (drain_turn c v)) \<in> K"
    and "ahead K (drain_turn c v)" and "rcv_got c \<subseteq> rcv_got (drain_turn c v)"
    and "unat (c_expected_seq c) \<le> unat (c_expected_seq (drain_turn c v))"
proof -
  let ?k = "c_expected_seq c"
  have kv: "(?k, v) \<in> set (c_recv_buffer c)" using bt_first_from_SomeD [OF v] by simp
  have chunk: "chunk_ok P ?k v" using ok kv by (force simp: recv_ok_def)
  have stop: "unat (?k + word_of_nat (length v)) = unat ?k + length v"
    using ok by (intro unat_chunk_end [OF chunk]) (simp add: recv_ok_def)
  have pk: "piece K (unat ?k) (length v)" using ahead kv by (force simp: ahead_def)
  have "?k \<le> ?k + word_of_nat (length v)" by (simp add: word_le_nat_alt stop)
  then show "recv_ok R P (drain_turn c v)"
    using recv_ok_extend [OF ok chunk] by (auto simp: recv_ok_def drain_turn_def)
  show "unat (c_expected_seq (drain_turn c v)) \<in> K" "unat ?k \<le> unat (c_expected_seq (drain_turn c v))"
    using pk by (simp_all add: drain_turn_def stop piece_def)
  have later: "unat ?k < unat (fst p)" if "p \<in> set (c_recv_buffer c)" "fst p \<noteq> ?k" for p
    using ahead that by (metis ahead_def order_le_imp_less_or_eq word_less_nat_alt)
  then show "ahead K (drain_turn c v)"
    using ahead piece_next [OF pk] by (auto simp: ahead_def drain_turn_def stop word_le_nat_alt)
  show "rcv_got c \<subseteq> rcv_got (drain_turn c v)"
    using pk by (fastforce simp: rcv_got_def drain_turn_def stop piece_def simp del: length_greater_0_conv)
qed

lemma drain_buffer_cut:
  "recv_ok R P c \<Longrightarrow> unat (c_expected_seq c) \<in> KP \<Longrightarrow> ahead KP c \<Longrightarrow>
     rcv_cuts KP (drain_buffer c) \<and> unat (c_expected_seq c) \<le> unat (c_expected_seq (drain_buffer c))
     \<and> rcv_got c \<subseteq> rcv_got (drain_buffer c)"
proof (induction c rule: drain_buffer.induct)
  case (1 c)
  show ?case
  proof (cases "\<exists>v. bt_first_from (c_expected_seq c) (c_recv_buffer c) = Some (c_expected_seq c, v)")
    case True
    then obtain v where v: "bt_first_from (c_expected_seq c) (c_recv_buffer c) = Some (c_expected_seq c, v)"
      by blast
    note turn = drain_turn_cut [OF "1.prems"(1,3) v]
    have eq: "drain_buffer c = drain_buffer (drain_turn c v)"
      by (subst drain_buffer.simps) (simp add: v drain_turn_def)
    note "1.IH" [OF v refl _ turn(1-3) [unfolded drain_turn_def], folded drain_turn_def]
    then show ?thesis unfolding eq using turn(4,5) by (meson order_trans)
  next
    case False
    then have "drain_buffer c = c"
      by (subst drain_buffer.simps) (auto split: option.split)
    then show ?thesis
      using "1.prems" drain_idle_cut [OF "1.prems"(1,3) _ False] by (simp add: rcv_cuts_def ahead_def)
  qed
qed

text \<open>A piece that arrives is received, and nothing received is lost. The piece cannot straddle the
  expected byte, which is a cut.\<close>

lemma deliver_data_cut:
  assumes "recv_ok R P c" and "chunk_ok P seq data" and rcv: "rcv_cuts KP c"
    and pc: "piece KP (unat seq) (length data)"
  shows "rcv_cuts KP (deliver_data c seq data)
    \<and> unat (c_expected_seq c) \<le> unat (c_expected_seq (deliver_data c seq data))
    \<and> insert (unat seq) (rcv_got c) \<subseteq> rcv_got (deliver_data c seq data)"
proof -
  have ne: "data \<noteq> []" using assms(2) by (simp add: chunk_ok_def)
  let ?stop = "seq + word_of_nat (length data)"
  have stop: "unat ?stop = unat seq + length data"
    using assms(1) by (intro unat_chunk_end [OF assms(2)]) (simp add: recv_ok_def)
  have exp: "unat (c_expected_seq c) \<in> KP" using rcv by (simp add: rcv_cuts_def)
  consider "?stop \<le> c_expected_seq c"
    | "c_expected_seq c < ?stop" "seq \<le> c_expected_seq c"
    | "c_expected_seq c < ?stop" "c_expected_seq c < seq" by fastforce
  then show ?thesis
  proof cases
    case 1
    then have "unat seq < unat (c_expected_seq c)" using pc by (simp add: piece_def stop word_le_nat_alt del: length_greater_0_conv)
    with 1 rcv ne show ?thesis
      by (auto simp: deliver_data_def Let_def rcv_cuts_def rcv_got_def)
  next
    case 2
    let ?skip = "unat (c_expected_seq c - seq)"
    let ?c = "c\<lparr>c_stats := (c_stats c)\<lparr>
             duplicate_bytes_received := duplicate_bytes_received (c_stats c) + word_of_nat ?skip,
             bytes_delivered_app :=
               bytes_delivered_app (c_stats c) + word_of_nat (length data - ?skip)\<rparr>,
           c_delivered := c_delivered c @ drop ?skip data, c_expected_seq := ?stop\<rparr>"
    have seq: "unat seq = unat (c_expected_seq c)"
      using 2 exp pc by (auto simp: piece_def stop word_le_nat_alt word_less_nat_alt)
    have "deliver_data c seq data = drain_buffer ?c"
      using 2 ne by (simp add: deliver_data_def Let_def)
    moreover have "recv_ok R P ?c"
      using recv_ok_extend [OF assms(1,2) 2(2)] 2(1) by (auto simp: recv_ok_def)
    moreover have "unat (c_expected_seq ?c) \<in> KP" using pc by (simp add: stop piece_def)
    moreover have "ahead KP ?c"
      using rcv piece_next [OF pc]
      by (auto simp: rcv_cuts_def ahead_def stop seq word_le_nat_alt word_less_nat_alt)
    moreover have "insert (unat seq) (rcv_got c) \<subseteq> rcv_got ?c"
      using ne by (auto simp: rcv_got_def stop seq)
    ultimately show ?thesis
      using drain_buffer_cut [of R P ?c KP] 2(1) by (auto simp: word_less_nat_alt)
  next
    case 3
    with rcv pc ne show ?thesis
      using assms(1) by (auto simp: deliver_data_def Let_def rcv_cuts_def recv_ok_def rcv_got_def set_bt_insert)
  qed
qed

lemma cut_inv_deliver:
  assumes "conn_inv S R P c" and "cut_inv K V c" and "chunk_ok P seq data"
    and "piece (v_cuts V) (unat seq) (length data)"
  shows "cut_inv K V (deliver_data c seq data)"
    and "view_le (view_of K c) (view_of K (deliver_data c seq data))"
proof -
  have recv: "recv_ok R P c" and rcv: "rcv_cuts (v_cuts V) c"
    using assms(1,2) by (simp_all add: conn_inv_def cut_inv_def)
  note D = deliver_data_cut [OF recv assms(3) rcv assms(4)]
  have same: "same_but_recv c (deliver_data c seq data)"
    using deliver_data_ok [OF recv assms(3)] by blast
  then have f: "fin_done (deliver_data c seq data) = fin_done c"
    "failure (deliver_data c seq data) = failure c"
    by (simp_all add: same_but_recv_def fin_done_def failure_def)
  show "cut_inv K V (deliver_data c seq data)"
    using assms(2) D same f by (simp add: cut_inv_def snd_cuts_def fin_cuts_def same_but_recv_def)
  show "view_le (view_of K c) (view_of K (deliver_data c seq data))"
    using D same f by (simp add: view_le_def view_of_def same_but_recv_def)
qed

section \<open>Datagrams\<close>

lemma process_segment_cut:
  assumes inv: "conn_inv S R P c" and cut: "cut_inv K V c"
    and h: "header_ok (tx S c) h" "cut_header K V h"
    and data: "p \<noteq> [] \<Longrightarrow> chunk_ok P seq p \<and> piece (v_cuts V) (unat seq) (length p)"
    and fin: "is_fin \<Longrightarrow> v_done V"
  shows "op_cut K V c (process_segment c seq h p is_ack is_fin)"
proof -
  let ?r = "if is_ack then apply_ack c h else Some (c, [])"
  have "op_ok S R P c ?r" "op_cut K V c ?r"
    using inv apply_ack_ok [OF inv h(1)] cut apply_ack_cut [OF inv cut h]
    by (simp_all add: op_ok_def op_cut_Some)
  then obtain c1 out1 K1 where a: "?r = Some (c1, out1)" "conn_inv S R P c1" "cut_inv K1 V c1"
    "view_le (view_of K c) (view_of K1 c1)" "\<forall>d \<in> set out1. cut_msg (view_of K1 c1) V d"
    by (fastforce simp: op_ok_def op_cut_def)
  define c2 where "c2 = (if p \<noteq> [] then deliver_data c1 seq p else c1)"
  define c3 where "c3 = (if is_fin then c2\<lparr>c_peer_fin_seen := True\<rparr> else c2)"
  define c4 where "c4 = (if p \<noteq> [] \<or> is_fin
    then c3\<lparr>c_stats := (c_stats c3)\<lparr>ack_segments_sent := ack_segments_sent (c_stats c3) + 1\<rparr>\<rparr> else c3)"
  have c2: "conn_inv S R P c2" "cut_inv K1 V c2" "view_le (view_of K1 c1) (view_of K1 c2)"
    using a data conn_inv_deliver cut_inv_deliver [OF a(2,3)] by (simp_all add: c2_def)
  have c3: "cut_inv K1 V c3" "view_le (view_of K1 c2) (view_of K1 c3)" "is_fin \<Longrightarrow> c_peer_fin_seen c3"
    using c2(2) fin
    by (simp_all add: c3_def cut_inv_defs fin_done_def failure_def view_le_def view_of_def)
  have c4: "conn_inv S R P c4" "cut_inv K1 V c4" "view_le (view_of K1 c1) (view_of K1 c4)"
    "is_fin \<Longrightarrow> c_peer_fin_seen c4"
    using c2 c3 view_le_trans [OF c2(3) c3(2)] by (simp_all add: c4_def c3_def)
  let ?out2 = "if p \<noteq> [] \<or> is_fin then [build_pure_ack c4 is_fin] else []"
  have "process_segment c seq h p is_ack is_fin
      = map_option (\<lambda>(c5, out3). (c5, (out1 @ ?out2) @ out3)) (drain_and_maybe_fin c4)"
    by (simp add: process_segment_def a(1) Let_def c2_def c3_def c4_def)
  moreover have "\<forall>d \<in> set (out1 @ ?out2). cut_msg (view_of K1 c4) V d"
    using a(5) c4 cut_msg_mono [OF _ c4(3)] cut_msg_builders(5) [OF c4(2)] by auto
  ultimately have "op_cut K1 V c4 (process_segment c seq h p is_ack is_fin)"
    using op_cut_prepend [OF drain_and_maybe_fin_cut [OF c4(1,2)], of "out1 @ ?out2"] by (simp only:)
  then show ?thesis using op_cut_mono a(4) c4(3) view_le_trans by blast
qed

lemma cut_inv_state:
  assumes "cut_inv K V c" and "failure c = None" and "st \<in> {SynReceived, Established}"
  shows "cut_inv K V (c\<lparr>c_state := st\<rparr>)"
  using assms by (auto simp: cut_inv_defs fin_done_def failure_def)

lemma complete_handshake_cut:
  assumes "cut_inv K V c" and "failure c = None"
  shows "cut_inv K V (complete_handshake c)" and "view_of K (complete_handshake c) = view_of K c"
proof -
  have "cut_inv K V (c\<lparr>c_handshake := None, c_rto := e, c_state := Established\<rparr>)" for e
    by (rule cut_inv_state) (use assms in \<open>simp_all add: failure_def\<close>)
  moreover have "cut_inv K V (c\<lparr>c_state := Established\<rparr>)" using assms by (simp add: cut_inv_state)
  ultimately show "cut_inv K V (complete_handshake c)"
    by (simp add: complete_handshake_def Let_def split: option.split)
  show "view_of K (complete_handshake c) = view_of K c"
    by (simp add: complete_handshake_def Let_def split: option.split)
qed

lemma handshake_dispatch_cut:
  assumes "cut_inv K V c"
    and "handshake_dispatch c syn ack = Inl (c', out) \<or> handshake_dispatch c syn ack = Inr (c', out)"
  shows "cut_inv K V c'" and "view_of K c' = view_of K c"
    and "\<forall>d \<in> set out. cut_msg (view_of K c) V d"
proof -
  define c1 where "c1 = c\<lparr>c_state := SynReceived,
    c_handshake := Some \<lparr>pc_sent_at = c_now c, pc_attempts = 1\<rparr>\<rparr>"
  define c2 where "c2 = complete_handshake c"
  have "cut_inv K V c' \<and> view_of K c' = view_of K c \<and> (\<forall>d \<in> set out. cut_msg (view_of K c) V d)"
  proof (cases "failure c = None")
    case True
    have c1: "cut_inv K V c1" "view_of K c1 = view_of K c"
      using cut_inv_state [OF assms(1) True] by (simp_all add: c1_def)
    have c2: "cut_inv K V c2" "view_of K c2 = view_of K c"
      using complete_handshake_cut [OF assms(1) True] by (simp_all add: c2_def)
    note B = cut_msg_builders [OF assms(1)] cut_msg_builders [OF c1(1)] cut_msg_builders [OF c2(1)]
    have "handshake_dispatch c syn ack \<in> {Inl (c1, [build_synack c1]), Inl (c, [build_synack c]),
        Inr (c2, [build_handshake_ack c2]), Inr (c2, []), Inr (c, [build_handshake_ack c]), Inr (c, [])}"
      unfolding handshake_dispatch_def Let_def c1_def [symmetric] c2_def [symmetric]
      by (simp only: insert_iff simp_thms split: if_split)
    then have "(c', out) \<in> {(c1, [build_synack c1]), (c, [build_synack c]),
        (c2, [build_handshake_ack c2]), (c2, []), (c, [build_handshake_ack c]), (c, [])}"
      using assms(2) by (elim disjE) (simp_all, blast+)
    then show ?thesis using assms(1) c1 c2 B by auto
  next
    case False
    then have "handshake_dispatch c syn ack = Inr (c, [])"
      by (cases "c_state c") (simp_all add: failure_def handshake_dispatch_def)
    with assms show ?thesis by auto
  qed
  then show "cut_inv K V c'" "view_of K c' = view_of K c" "\<forall>d \<in> set out. cut_msg (view_of K c) V d"
    by simp_all
qed

lemma on_segment_cut:
  assumes inv: "conn_inv S R P c" and cut: "cut_inv K V c"
    and h: "header_ok (tx S c) h" "cut_header K V h"
    and p: "p \<noteq> [] \<Longrightarrow> chunk_ok P (sequence f) p \<and> piece (v_cuts V) (unat (sequence f)) (length p)"
    and fin: "flags f AND FLAG_FIN \<noteq> 0 \<Longrightarrow> v_done V"
  shows "op_cut K V c (on_segment c f h p)"
proof -
  define c1 where "c1 = c\<lparr>c_peer_window := h_window h\<rparr>"
  have c1: "conn_inv S R P c1" "cut_inv K V c1" "view_of K c1 = view_of K c" "tx S c1 = tx S c"
    using inv cut by (simp_all add: c1_def)
  let ?syn = "flags f AND FLAG_SYN \<noteq> 0" and ?ack = "flags f AND FLAG_ACK \<noteq> 0"
    and ?fin = "flags f AND FLAG_FIN \<noteq> 0"
  have "op_cut K V c1 (Some (c1, [build_pure_ack c1 True]))" if "c_state c1 = Closed"
    using c1 that cut_msg_builders(5) [OF c1(2), of True]
    by (intro op_cut_Some) (auto simp: cut_inv_def fin_cuts_def)
  moreover have "op_cut K V c1 (case handshake_dispatch c1 ?syn ?ack of
           Inl r \<Rightarrow> Some r
         | Inr (c2, out) \<Rightarrow>
            if c_state c2 = Established \<or> c_state c2 = Closing
            then map_option (\<lambda>(c3, out'). (c3, out @ out'))
                   (process_segment c2 (sequence f) h p ?ack ?fin)
            else Some (c2, out))" (is "op_cut K V c1 ?r")
  proof -
    obtain c2 out where r: "handshake_dispatch c1 ?syn ?ack = Inl (c2, out)
        \<or> handshake_dispatch c1 ?syn ?ack = Inr (c2, out)"
      by (metis sum.exhaust surj_pair)
    note C = handshake_dispatch_cut [OF c1(2) r]
    have stay: "op_cut K V c1 (Some (c2, out))" using C by (simp add: op_cut_Some)
    have "op_cut K V c2 (map_option (\<lambda>(c3, out'). (c3, out @ out'))
        (process_segment c2 (sequence f) h p ?ack ?fin))"
      if "handshake_dispatch c1 ?syn ?ack = Inr (c2, out)"
    proof -
      have "conn_inv S R P c2" "tx S c2 = tx S c"
        using handshake_dispatch_ok(2) [OF c1(1) that] c1(4) by (auto simp: op_ok_def)
      then show ?thesis
        using C h p fin by (intro op_cut_prepend process_segment_cut) auto
    qed
    then have "op_cut K V c1 (map_option (\<lambda>(c3, out'). (c3, out @ out'))
        (process_segment c2 (sequence f) h p ?ack ?fin))"
      if "handshake_dispatch c1 ?syn ?ack = Inr (c2, out)"
      using op_cut_mono [of K V c2 _ K c1] C(2) that by simp
    with stay r show ?thesis by (elim disjE) simp_all
  qed
  ultimately have "op_cut K V c1 (on_segment c f h p)"
    by (simp only: on_segment_def Let_def c1_def [symmetric] split: if_split) blast
  then show ?thesis by (rule op_cut_mono) (simp add: c1)
qed

lemma on_datagram_cut:
  assumes "conn_inv S R P c" and "cut_inv K V c" and "msg_ok P (tx S c) d"
    and "cut_msg V (view_of K c) d"
  shows "op_cut K V c (on_datagram c now d)"
proof -
  let ?c0 = "c\<lparr>c_now := max (c_now c) now\<rparr>"
  have drop: "op_cut K V c (Some (?c0, []))" using assms(2) by (simp add: op_cut_Some)
  have "op_cut K V c (on_segment ?c0 f h p)"
    if "frame_decode d = Inr f" "segment_decode (payload f) = Some (h, p)" for f h p
    using assms that
    by (intro op_cut_mono [OF on_segment_cut [of _ _ _ ?c0]])
      (auto simp: msg_ok_def cut_msg_def cut_header_def)
  with drop show ?thesis
    by (simp add: on_datagram_def Let_def split: sum.split option.split)
qed

section \<open>Timers\<close>

lemma cut_inv_failed:
  "cut_inv K V c \<Longrightarrow> cut_inv K V (c\<lparr>c_state := Failed r\<rparr>)"
  "cut_inv K V c \<Longrightarrow> cut_inv K V (c\<lparr>c_state := Failed r, c_unacked := []\<rparr>)"
  "cut_inv K V c \<Longrightarrow> cut_inv K V (c\<lparr>c_state := Failed r, c_fin_pending := None\<rparr>)"
  by (auto simp: cut_inv_defs fin_done_def failure_def)

lemma handshake_tick_cut:
  assumes "conn_inv S R P c" and "cut_inv K V c"
  shows "op_cut K V c (handshake_tick c)"
proof (cases "c_handshake c")
  case None
  with assms show ?thesis by (simp add: handshake_tick_def op_cut_Some)
next
  case (Some h)
  obtain rto where rto: "rto_current (c_rto c) = Some rto" using rto_current_conn [OF assms(1)] by blast
  define c1 where "c1 = c\<lparr>c_rto := on_timeout (c_rto c),
    c_handshake := Some \<lparr>pc_sent_at = c_now c, pc_attempts = pc_attempts h + 1\<rparr>,
    c_stats := (c_stats c)\<lparr>control_retransmissions := control_retransmissions (c_stats c) + 1\<rparr>\<rparr>"
  have c1: "cut_inv K V c1" "view_of K c1 = view_of K c" using assms(2) by (simp_all add: c1_def)
  have "op_cut K V c (Some (c1, [if c_state c1 = SynSent then build_syn c1 else build_synack c1]))"
    using c1 cut_msg_builders(1,2) [OF c1(1)] by (intro op_cut_Some) auto
  moreover have "op_cut K V c (Some (c\<lparr>c_state := Failed TooManyRetries, c_handshake := None\<rparr>, []))"
    "op_cut K V c (Some (c, []))"
    using assms(2) cut_inv_failed(1) by (simp_all add: op_cut_Some)
  ultimately show ?thesis
    by (simp only: handshake_tick_def Some rto option.case Let_def c1_def [symmetric] split: if_split) simp
qed

lemma data_timeout_cut:
  assumes "cut_inv K V c" and "data_timeout c = (c1, out, failed)"
  shows "cut_inv K V c1" and "view_of K c1 = view_of K c"
    and "\<forall>d \<in> set out. cut_msg (view_of K c) V d"
proof -
  define c0 where "c0 = c\<lparr>c_rto := on_timeout (c_rto c), c_ssthresh := half_window c,
    c_cwnd := word_of_nat (segment_size (c_config c)), c_dup_ack_count := 0,
    c_stats := (c_stats c)\<lparr>congestion_events := congestion_events (c_stats c) + 1\<rparr>\<rparr>"
  have c0: "cut_inv K V c0" "view_of K c0 = view_of K c" "c_unacked c0 = c_unacked c"
    using assms(1) by (simp_all add: c0_def)
  let ?m = "map (\<lambda>(seq, seg). (seq, resend_segment (c_now c) seg)) (c_unacked c)"
  have "map fst ?m = map fst (c_unacked c)" by (auto simp: case_prod_beta)
  then have m: "cut_inv K V (c0\<lparr>c_unacked := ?m\<rparr>)"
    using c0 by (intro cut_inv_unacked) auto
  have seg: "cut_msg (view_of K c) V (build_data_frame seq (us_data seg) (header_bytes c0))"
    if "(seq, seg) \<in> set (c_unacked c)" for seq seg
    using assms(1) that cut_msg_builders(6) [OF c0(1), of seq "us_data seg"] c0(2)
    by (force simp: cut_inv_def snd_cuts_def)
  have "out = map (\<lambda>(seq, seg). build_data_frame seq (us_data seg) (header_bytes c0))
      (filter (\<lambda>(_, seg). \<not> us_sacked seg) (c_unacked c))"
    and c1: "c1 = c0\<lparr>c_unacked := ?m, c_stats := (c_stats c0)\<lparr>data_segments_retransmitted :=
            data_segments_retransmitted (c_stats c0)
            + word_of_nat (length (filter (\<lambda>(_, seg). \<not> us_sacked seg) (c_unacked c)))\<rparr>\<rparr>"
    using assms(2) by (auto simp: data_timeout_def Let_def c0_def)
  with seg show "\<forall>d \<in> set out. cut_msg (view_of K c) V d" by auto
  show "cut_inv K V c1" "view_of K c1 = view_of K c" using m c0(2) by (simp_all add: c1)
qed

lemma fin_tick_cut:
  assumes "conn_inv S R P c" and "cut_inv K V c" and "\<forall>d \<in> set out. cut_msg (view_of K c) V d"
  shows "op_cut K V c (fin_tick c out)"
proof (cases "c_fin_pending c")
  case None
  with assms show ?thesis
    by (simp add: fin_tick_def op_cut_prepend drain_and_maybe_fin_cut)
next
  case (Some f)
  obtain rto where rto: "rto_current (c_rto c) = Some rto" using rto_current_conn [OF assms(1)] by blast
  define c1 where "c1 = c\<lparr>c_rto := on_timeout (c_rto c),
    c_fin_pending := Some \<lparr>pc_sent_at = c_now c, pc_attempts = pc_attempts f + 1\<rparr>,
    c_stats := (c_stats c)\<lparr>control_retransmissions := control_retransmissions (c_stats c) + 1\<rparr>\<rparr>"
  have c1: "conn_inv S R P c1" "cut_inv K V c1" "view_of K c1 = view_of K c" "fin_done c1"
    using conn_inv_on_timeout [OF assms(1)] assms(2) Some
    by (simp_all add: c1_def cut_inv_defs failure_def) (auto simp: fin_done_def)
  have "op_cut K V c1 (map_option (\<lambda>(c', out'). (c', (out @ [build_fin c1]) @ out'))
      (drain_and_maybe_fin c1))"
    using c1 assms(3) cut_msg_builders(4) [OF c1(2,4)]
    by (intro op_cut_prepend drain_and_maybe_fin_cut) auto
  then have "op_cut K V c (map_option (\<lambda>(c', out'). (c', (out @ [build_fin c1]) @ out'))
      (drain_and_maybe_fin c1))"
    by (rule op_cut_mono) (simp add: c1)
  moreover have "op_cut K V c (Some (c\<lparr>c_state := Failed TooManyRetries, c_fin_pending := None\<rparr>, out))"
    "op_cut K V c (map_option (\<lambda>(c', out'). (c', out @ out')) (drain_and_maybe_fin c))"
    using assms cut_inv_failed(3) drain_and_maybe_fin_cut [OF assms(1,2)]
    by (simp_all add: op_cut_Some op_cut_prepend)
  ultimately show ?thesis
    by (simp only: fin_tick_def Some rto option.case Let_def c1_def [symmetric] split: if_split) simp
qed

lemma established_tick_cut:
  assumes "conn_inv S R P c" and "cut_inv K V c"
  shows "op_cut K V c (established_tick c)"
proof (cases "c_unacked c")
  case Nil
  with assms show ?thesis by (simp add: established_tick_def fin_tick_cut)
next
  case (Cons p rest)
  obtain rto where rto: "rto_current (c_rto c) = Some rto" using rto_current_conn [OF assms(1)] by blast
  obtain c1 out failed where t: "data_timeout c = (c1, out, failed)" by (metis prod_cases3)
  note ok = data_timeout_ok [OF assms(1) t] and cut = data_timeout_cut [OF assms(2) t]
  have "op_cut K V c (Some (c1\<lparr>c_state := Failed TooManyRetries, c_unacked := []\<rparr>, out))"
    using cut cut_inv_failed(2) by (intro op_cut_Some) auto
  moreover have "op_cut K V c (fin_tick c1 out)"
    using ok cut by (intro op_cut_mono [OF fin_tick_cut]) auto
  ultimately show ?thesis
    using assms by (auto simp: established_tick_def Cons rto t fin_tick_cut split: prod.split)
qed

lemma on_tick_cut:
  assumes "conn_inv S R P c" and "cut_inv K V c"
  shows "op_cut K V c (on_tick c now)"
proof -
  let ?c = "c\<lparr>c_now := max (c_now c) now\<rparr>"
  have "conn_inv S R P ?c" "cut_inv K V ?c" using assms by simp_all
  then have "op_cut K V ?c (on_tick c now)"
    by (auto simp: on_tick_def Let_def handshake_tick_cut established_tick_cut op_cut_Some
        split: state.split)
  then show ?thesis by (rule op_cut_mono) simp
qed

section \<open>Calls of the application\<close>

lemma conn_send_cut:
  assumes "conn_inv S R P c" and "cut_inv K V c" and "length (S @ data) < 2 ^ 32"
    and "\<not> c_close_requested c"
  shows "op_cut K V c (conn_send c now data)"
proof -
  define c1 where "c1 = c\<lparr>c_now := max (c_now c) now, c_send_queue := c_send_queue c @ data,
       c_stats := (c_stats c)\<lparr>bytes_sent_app :=
         bytes_sent_app (c_stats c) + word_of_nat (length data)\<rparr>\<rparr>"
  have "conn_inv (S @ data) R P c1"
    using assms(1,3) by (auto simp: c1_def conn_inv_def send_ok_def recv_ok_def conn_ok_def tx_def)
  moreover have "cut_inv K V c1" "view_le (view_of K c) (view_of K c1)"
    using assms(2,4) by (simp_all add: c1_def cut_inv_defs fin_done_def failure_def view_le_def)
  ultimately show ?thesis
    unfolding conn_send_def c1_def [symmetric] by (intro op_cut_mono [OF drain_and_maybe_fin_cut])
qed

lemma conn_close_cut:
  assumes "conn_inv S R P c" and "cut_inv K V c"
  shows "op_cut K V c (conn_close c now)"
proof -
  define c1 where "c1 = c\<lparr>c_now := max (c_now c) now, c_close_requested := True\<rparr>"
  have "conn_inv S R P c1" using assms(1) by (simp add: c1_def)
  moreover have "cut_inv K V c1" "view_le (view_of K c) (view_of K c1)"
    using assms(2) by (auto simp: c1_def cut_inv_defs fin_done_def failure_def view_le_def)
  ultimately show ?thesis
    unfolding conn_close_def c1_def [symmetric] by (intro op_cut_mono [OF drain_and_maybe_fin_cut])
qed

end
