(* ===== verification/Close.thy ===== *)
theory Close
  imports Close_Inv
begin

text \<open>
  Graceful close over the hostile network of \<open>Link\<close>: the system in which no application calls
  \<open>send\<close> after its own \<open>close\<close>, and what \<open>peer_closed\<close> and \<open>is_closed\<close> then promise. A byte queued
  after the FIN has been sent would follow the FIN on the wire, so without that restriction
  \<open>peer_closed\<close> promises nothing.
\<close>

section \<open>The link with applications that do not send after close\<close>

fun polite :: "endpoint \<Rightarrow> event \<Rightarrow> bool" where
  "polite me (Send now data) \<longleftrightarrow> \<not> c_close_requested (ep_conn me)"
| "polite me _ \<longleftrightarrow> True"

inductive polite_step :: "link \<Rightarrow> link \<Rightarrow> bool" where
  client_polite: "enabled (client l) (server l) ev \<Longrightarrow> polite (client l) ev \<Longrightarrow>
     ep_exec (client l) ev = Some e \<Longrightarrow> polite_step l (l\<lparr>client := e\<rparr>)"
| server_polite: "enabled (server l) (client l) ev \<Longrightarrow> polite (server l) ev \<Longrightarrow>
     ep_exec (server l) ev = Some e \<Longrightarrow> polite_step l (l\<lparr>server := e\<rparr>)"

inductive_cases polite_stepE: "polite_step l l'"

abbreviation polite_reachable :: "config \<Rightarrow> config \<Rightarrow> link \<Rightarrow> bool" where
  "polite_reachable cfg cfg' \<equiv> reachable (link_init cfg cfg') polite_step"

definition ep_cuts :: "nat set \<Rightarrow> nat set \<Rightarrow> endpoint \<Rightarrow> endpoint \<Rightarrow> bool" where
  "ep_cuts K KP me peer \<longleftrightarrow>
     cut_inv K (view_of KP (ep_conn peer)) (ep_conn me)
     \<and> (\<forall>d \<in> set (ep_wire me). cut_msg (view_of K (ep_conn me)) (view_of KP (ep_conn peer)) d)"

definition close_inv :: "link \<Rightarrow> bool" where
  "close_inv l \<longleftrightarrow> link_inv l \<and>
    (\<exists>K KP. ep_cuts K KP (client l) (server l) \<and> ep_cuts KP K (server l) (client l))"

lemma ep_cuts_peer:
  assumes "ep_cuts KP K peer me" and "view_le (view_of K (ep_conn me)) (view_of K' (ep_conn me'))"
  shows "ep_cuts KP K' peer me'"
  using assms cut_inv_peer cut_msg_mono view_le_refl unfolding ep_cuts_def by blast

lemma ep_emit_cuts:
  assumes "ep_cuts K KP me peer" and "op_cut K (view_of KP (ep_conn peer)) (ep_conn me) r"
    and "ep_emit (me\<lparr>ep_sent := S\<rparr>) r = Some me'"
  shows "\<exists>K'. ep_cuts K' KP me' peer \<and> view_le (view_of K (ep_conn me)) (view_of K' (ep_conn me'))"
proof -
  obtain c out where r: "r = Some (c, out)"
    and me': "me' = me\<lparr>ep_sent := S, ep_conn := c, ep_wire := ep_wire me @ out\<rparr>"
    using assms(3) by (auto simp: ep_emit_def)
  obtain K' where K': "cut_inv K' (view_of KP (ep_conn peer)) c"
    "view_le (view_of K (ep_conn me)) (view_of K' c)"
    "\<forall>d \<in> set out. cut_msg (view_of K' c) (view_of KP (ep_conn peer)) d"
    using assms(2) r by (auto simp: op_cut_def)
  then have "ep_cuts K' KP me' peer"
    using assms(1) cut_msg_mono [OF _ K'(2) view_le_refl] by (auto simp: ep_cuts_def me')
  with K'(2) me' show ?thesis by auto
qed

lemma ep_exec_cuts:
  assumes "ep_inv me peer" and "ep_inv peer me" and "ep_cuts K KP me peer" and "ep_cuts KP K peer me"
    and "enabled me peer ev" and "polite me ev" and "ep_exec me ev = Some me'"
  shows "\<exists>K'. ep_cuts K' KP me' peer \<and> ep_cuts KP K' peer me'
    \<and> view_le (view_of K (ep_conn me)) (view_of K' (ep_conn me'))"
proof -
  have inv: "conn_inv (ep_sent me) (ep_recvd me) (ep_tx peer) (ep_conn me)"
    using assms(1) by (simp add: ep_inv_def)
  let ?V = "view_of KP (ep_conn peer)"
  have cut: "cut_inv K ?V (ep_conn me)" using assms(3) by (simp add: ep_cuts_def)
  have same: "me\<lparr>ep_sent := ep_sent me\<rparr> = me" by simp
  have "\<exists>K'. ep_cuts K' KP me' peer \<and> view_le (view_of K (ep_conn me)) (view_of K' (ep_conn me'))"
  proof (cases ev)
    case (Send now data)
    then have "op_cut K ?V (ep_conn me) (conn_send (ep_conn me) now data)"
      using assms(5,6) conn_send_cut [OF inv cut] by simp
    with assms(7) Send show ?thesis using ep_emit_cuts [OF assms(3)] by simp
  next
    case (Close now)
    with assms(7) show ?thesis
      using ep_emit_cuts [OF assms(3) conn_close_cut [OF inv cut]] same by (metis ep_exec.simps(2))
  next
    case Recv
    with assms(3,7) show ?thesis by (intro exI [of _ K]) (auto simp: ep_cuts_def conn_recv_def)
  next
    case (OnTick now)
    with assms(7) show ?thesis
      using ep_emit_cuts [OF assms(3) on_tick_cut [OF inv cut]] same by (metis ep_exec.simps(4))
  next
    case (Datagram now d)
    have "msg_ok (ep_tx peer) (ep_tx me) d" "cut_msg ?V (view_of K (ep_conn me)) d"
      using assms(2,4,5) Datagram
      by (auto simp: ep_inv_def ep_cuts_def sent_ok_def msg_ok_def cut_msg_def isl_def)
    then have "op_cut K ?V (ep_conn me) (on_datagram (ep_conn me) now d)"
      using on_datagram_cut [OF inv cut] by (simp add: ep_tx_def)
    with assms(7) Datagram show ?thesis
      using ep_emit_cuts [OF assms(3)] same by (metis ep_exec.simps(5))
  qed
  then show ?thesis using ep_cuts_peer [OF assms(4)] by blast
qed

lemma close_inv_step:
  assumes "close_inv l" and "polite_step l l'"
  shows "close_inv l'"
proof -
  have inv: "ep_inv (client l) (server l)" "ep_inv (server l) (client l)"
    using assms(1) by (simp_all add: close_inv_def link_inv_def)
  obtain K KP where c: "ep_cuts K KP (client l) (server l)" "ep_cuts KP K (server l) (client l)"
    using assms(1) by (auto simp: close_inv_def)
  have "link_step l l'" using assms(2) by (auto elim!: polite_stepE intro: link_step.intros)
  then have "link_inv l'" using assms(1) link_inv_step by (auto simp: close_inv_def)
  moreover from assms(2) have
    "\<exists>K KP. ep_cuts K KP (client l') (server l') \<and> ep_cuts KP K (server l') (client l')"
  proof (cases rule: polite_step.cases)
    case (client_polite ev e)
    then obtain K' where "ep_cuts K' KP e (server l)" "ep_cuts KP K' (server l) e"
      using ep_exec_cuts [OF inv c] by blast
    then show ?thesis unfolding client_polite(1) by auto
  next
    case (server_polite ev e)
    then obtain K' where "ep_cuts K' K e (client l)" "ep_cuts K K' (client l) e"
      using ep_exec_cuts [OF inv(2,1) c(2,1)] by blast
    then show ?thesis unfolding server_polite(1) by auto
  qed
  ultimately show ?thesis by (simp add: close_inv_def)
qed

lemma cut_inv_blank:
  assumes "st \<in> {Listening, SynSent}"
  shows "cut_inv {0} (view_of {0} (blank cfg' now' st')) (blank cfg now st)"
  using assms by (auto simp: cut_inv_defs blank_def fin_done_def failure_def)

lemma close_inv_init:
  assumes "link_init cfg cfg' l"
  shows "close_inv l"
proof -
  obtain t t' where l: "l = \<lparr>client = ep_client cfg t, server = ep_server cfg' t'\<rparr>"
    using assms by (auto simp: link_init_def)
  define c where "c = (blank cfg t SynSent)\<lparr>c_handshake := Some \<lparr>pc_sent_at = t, pc_attempts = 1\<rparr>\<rparr>"
  let ?s = "blank cfg' t' Listening"
  have c: "cut_inv {0} (view_of {0} ?s) c" and s: "cut_inv {0} (view_of {0} c) ?s"
    using cut_inv_blank [of SynSent cfg' t' Listening cfg t] cut_inv_blank [of Listening cfg t SynSent cfg' t']
    by (simp_all add: c_def)
  have "ep_client cfg t = \<lparr>ep_conn = c, ep_wire = [build_syn c], ep_sent = [], ep_recvd = []\<rparr>"
    by (simp add: ep_client_def conn_connect_def c_def Let_def)
  then have "ep_cuts {0} {0} (client l) (server l)" "ep_cuts {0} {0} (server l) (client l)"
    using c s cut_msg_builders(1) [OF c] by (simp_all add: ep_cuts_def l ep_server_def conn_listen_def)
  then show ?thesis using link_inv_init [OF assms] by (auto simp: close_inv_def)
qed

interpretation polite: invariant_system "link_init cfg cfg'" polite_step close_inv for cfg cfg'
  by unfold_locales (auto intro: close_inv_init close_inv_step)

lemma stream_complete:
  assumes "ep_inv me peer" and "ep_inv peer me" and "ep_cuts KP K peer me" and "fin_done (ep_conn peer)"
  shows "ep_recvd me @ c_delivered (ep_conn me) = ep_sent peer"
proof -
  let ?c = "ep_conn me" and ?p = "ep_conn peer"
  have "unat (c_send_base ?p) \<le> unat (c_expected_seq ?c)"
    using assms(3) by (simp add: ep_cuts_def cut_inv_def fin_cuts_def)
  moreover have "ep_sent peer = take (unat (c_next_seq ?p)) (ep_sent peer)"
    "length (ep_sent peer) = unat (c_next_seq ?p)"
    using assms(2,4) by (simp_all add: ep_inv_def conn_inv_def send_ok_def fin_done_def)
  moreover have "ep_recvd me @ c_delivered ?c = take (unat (c_expected_seq ?c)) (ep_tx peer)"
    using assms(1) by (simp add: ep_inv_def conn_inv_def recv_ok_def)
  ultimately show ?thesis using assms(4) by (simp add: ep_tx_def tx_def fin_done_def)
qed

lemma ep_cuts_closed:
  assumes "ep_cuts K KP me peer"
  shows "peer_closed (ep_conn me) \<Longrightarrow> fin_done (ep_conn peer)"
    and "is_closed (ep_conn me) \<Longrightarrow> fin_done (ep_conn me)"
    and "is_closed (ep_conn me) \<Longrightarrow> peer_closed (ep_conn me) \<and> peer_closed (ep_conn peer)"
  using assms by (simp_all add: ep_cuts_def cut_inv_def fin_cuts_def is_closed_def peer_closed_def)

section \<open>Executable runs\<close>

fun polite_run :: "link \<Rightarrow> (bool \<times> action) list \<Rightarrow> link option" where
  "polite_run l [] = Some l"
| "polite_run l ((at_client, a) # as) =
    (let (me, peer) = (if at_client then (client l, server l) else (server l, client l)) in
     if (case action_event peer a of None \<Rightarrow> False | Some ev \<Rightarrow> polite me ev)
     then case link_act l at_client a of None \<Rightarrow> None | Some l' \<Rightarrow> polite_run l' as
     else None)"

lemma polite_act_step:
  assumes "link_act l b a = Some l'"
    and "action_event (if b then server l else client l) a = Some ev"
    and "polite (if b then client l else server l) ev"
  shows "polite_step l l'"
  using assms
  by (cases b) (auto simp: link_act_def Let_def split: if_splits intro: polite_step.intros)

lemma polite_run_reachable:
  "polite_reachable cfg cfg' l \<Longrightarrow> polite_run l as = Some l' \<Longrightarrow> polite_reachable cfg cfg' l'"
proof (induction l as rule: polite_run.induct)
  case (2 l b a as)
  obtain l1 ev where act: "link_act l b a = Some l1" "polite_run l1 as = Some l'"
    "action_event (if b then server l else client l) a = Some ev"
    "polite (if b then client l else server l) ev"
    using "2.prems"(2) by (auto simp: Let_def split: option.splits if_splits)
  then have "polite_reachable cfg cfg' l1"
    using reachable_step [OF "2.prems"(1) polite_act_step] by blast
  with act show ?case
    by (intro "2.IH" [OF refl prod.collapse _ act(1)]) (auto split: if_splits)
qed simp

definition close_run :: "(bool \<times> action) list" where
  "close_run =
    [(False, Deliver (Tick 3) 0), (True, Deliver (Tick 5) 0), (True, Call (Send (Tick 5) [7, 8])),
     (False, Deliver (Tick 8) 2), (True, Deliver (Tick 10) 1), (True, Call (Close (Tick 11))),
     (False, Deliver (Tick 14) 3), (False, Call (Close (Tick 15))), (True, Deliver (Tick 16) 2),
     (True, Deliver (Tick 17) 3), (False, Deliver (Tick 20) 4)]"

lemma close_run_Some:
  "\<exists>l. polite_run (start default_config) close_run = Some l \<and> is_closed (ep_conn (client l))
     \<and> is_closed (ep_conn (server l)) \<and> ep_sent (client l) = [7, 8]"
  by (simp add: run_simps close_run_def is_closed_def)

lemma close_run_reachable:
  "\<exists>l. polite_reachable default_config default_config l \<and> is_closed (ep_conn (client l))
     \<and> is_closed (ep_conn (server l)) \<and> ep_sent (client l) = [7, 8]"
proof -
  have "polite_reachable default_config default_config (start default_config)"
    using default_config_ok by (intro reachable_init) (auto simp: link_init_def start_def)
  then show ?thesis using close_run_Some polite_run_reachable by blast
qed

section \<open>Graceful close loses nothing\<close>

text \<open>C7. A FIN means the stream is complete: as long as neither application calls \<open>send\<close> after its own
  \<open>close\<close>, an endpoint whose \<open>peer_closed\<close> is true holds every byte its peer ever sent, whatever
  the network did to the datagrams.\<close>

theorem fin_means_complete:
  assumes "polite_reachable cfg cfg' l"
  shows "(peer_closed (ep_conn (server l)) \<longrightarrow>
      ep_recvd (server l) @ c_delivered (ep_conn (server l)) = ep_sent (client l))
    \<and> (peer_closed (ep_conn (client l)) \<longrightarrow>
      ep_recvd (client l) @ c_delivered (ep_conn (client l)) = ep_sent (server l))"
  using polite.reachable_inv [OF assms] stream_complete ep_cuts_closed(1)
  unfolding close_inv_def link_inv_def by blast

theorem fin_means_complete_witness:
  "\<exists>l. polite_reachable default_config default_config l
     \<and> ep_recvd (server l) @ c_delivered (ep_conn (server l)) = [7, 8]"
proof -
  obtain l where l: "polite_reachable default_config default_config l" "is_closed (ep_conn (server l))"
    "ep_sent (client l) = [7, 8]" using close_run_reachable by blast
  then have "peer_closed (ep_conn (server l))"
    using polite.reachable_inv [OF l(1)] ep_cuts_closed(3) unfolding close_inv_def by blast
  with l show ?thesis using fin_means_complete [OF l(1)] by metis
qed

text \<open>C13. \<open>is_closed\<close> is a promise about both directions, as long as neither application calls \<open>send\<close>
  after its own \<open>close\<close>: once either endpoint is \<open>Closed\<close>, each side holds every byte the other ever
  sent and both have seen the other's FIN.\<close>

theorem closed_means_complete:
  assumes "polite_reachable cfg cfg' l"
    and "is_closed (ep_conn (client l)) \<or> is_closed (ep_conn (server l))"
  shows "ep_recvd (server l) @ c_delivered (ep_conn (server l)) = ep_sent (client l)
    \<and> ep_recvd (client l) @ c_delivered (ep_conn (client l)) = ep_sent (server l)
    \<and> peer_closed (ep_conn (client l)) \<and> peer_closed (ep_conn (server l))"
proof -
  obtain K KP where c: "ep_cuts K KP (client l) (server l)" "ep_cuts KP K (server l) (client l)"
    and inv: "ep_inv (client l) (server l)" "ep_inv (server l) (client l)"
    using polite.reachable_inv [OF assms(1)] unfolding close_inv_def link_inv_def by blast
  have "peer_closed (ep_conn (client l))" "peer_closed (ep_conn (server l))"
    using assms(2) ep_cuts_closed(3) [OF c(1)] ep_cuts_closed(3) [OF c(2)] by auto
  then show ?thesis
    using stream_complete [OF inv c(2)] stream_complete [OF inv(2,1) c(1)]
      ep_cuts_closed(1) [OF c(1)] ep_cuts_closed(1) [OF c(2)] by simp
qed

theorem closed_means_complete_witness:
  "\<exists>l. polite_reachable default_config default_config l \<and> is_closed (ep_conn (client l))
     \<and> ep_recvd (server l) @ c_delivered (ep_conn (server l)) = [7, 8]
     \<and> peer_closed (ep_conn (server l))"
proof -
  obtain l where l: "polite_reachable default_config default_config l" "is_closed (ep_conn (client l))"
    "ep_sent (client l) = [7, 8]" using close_run_reachable by blast
  then show ?thesis using closed_means_complete [OF l(1)] by (intro exI [of _ l]) simp
qed

end
