(* ===== verification/Conn_Flow.thy ===== *)
theory Conn_Flow
  imports Conn_States Close
begin

text \<open>
  What one operation of a connection does to its acknowledgement state, its clock and its queue,
  whatever the datagram: where its send base moves, which segments it marks as selectively acked, what
  the headers of its datagrams say of its receive side, and that bytes never wait in the queue of an
  open connection with nothing in flight.
\<close>

section \<open>Headers\<close>

text \<open>A datagram that carries the cumulative and selective acks of the receive side of \<open>c\<close>.\<close>

definition headed :: "conn \<Rightarrow> bytes \<Rightarrow> bool" where
  "headed c d \<longleftrightarrow> (\<exists>h seq flgs p. d = encode_frame seq flgs (segment_encode h [] @ p)
     \<and> h_ack h = c_expected_seq c \<and> h_sack h = current_sack_ranges c)"

text \<open>One that, moreover, an open connection takes as an ack.\<close>

definition acking :: "conn \<Rightarrow> bytes \<Rightarrow> bool" where
  "acking c d \<longleftrightarrow> (\<exists>h seq flgs p. d = encode_frame seq flgs (segment_encode h [] @ p)
     \<and> h_ack h = c_expected_seq c \<and> h_sack h = current_sack_ranges c
     \<and> (flgs = FLAG_ACK \<or> flgs = FLAG_FIN OR FLAG_ACK))"

definition decodes :: "bytes \<Rightarrow> segment_header \<Rightarrow> bool" where
  "decodes d h \<longleftrightarrow> (\<exists>f p. frame_decode d = Inr f \<and> segment_decode (payload f) = Some (h, p))"

text \<open>The byte offsets that a list of selective-ack ranges covers.\<close>

definition sack_cover :: "sack_range list \<Rightarrow> nat set" where
  "sack_cover rs = {x. \<exists>r \<in> set rs. unat (sr_start r) \<le> x \<and> x \<le> unat (sr_end r)}"

definition acks_of :: "bytes \<Rightarrow> nat set" where
  "acks_of d = {unat (h_ack h) | h. decodes d h}"

definition sacks_of :: "bytes \<Rightarrow> nat set" where
  "sacks_of d = \<Union> {sack_cover (h_sack h) | h. decodes d h}"

lemma headed_decodes:
  assumes "headed c d" and "decodes d h"
  shows "h_ack h = c_expected_seq c" and "set (h_sack h) \<subseteq> set (current_sack_ranges c)"
proof -
  obtain h' seq flgs p where d: "d = encode_frame seq flgs (segment_encode h' [] @ p)"
    "h_ack h' = c_expected_seq c" "h_sack h' = current_sack_ranges c"
    using assms(1) by (auto simp: headed_def)
  then have "h = h'\<lparr>h_sack := take 4 (h_sack h')\<rparr>"
    using assms(2)
    by (auto simp: decodes_def encode_frame_def frame_decode_encode segment_decode_encode split: if_splits)
  with d show "h_ack h = c_expected_seq c" and "set (h_sack h) \<subseteq> set (current_sack_ranges c)"
    by (auto dest: in_set_takeD)
qed

lemma sack_cover_mono: "set rs \<subseteq> set rs' \<Longrightarrow> sack_cover rs \<subseteq> sack_cover rs'"
  by (auto simp: sack_cover_def)

lemma headed_acks: "headed c d \<Longrightarrow> acks_of d \<subseteq> {unat (c_expected_seq c)}"
  by (auto simp: acks_of_def dest: headed_decodes)

lemma headed_sacks: "headed c d \<Longrightarrow> sacks_of d \<subseteq> sack_cover (current_sack_ranges c)"
  by (auto simp: sacks_of_def dest: headed_decodes(2) sack_cover_mono)

lemma headed_cong:
  "c_expected_seq c' = c_expected_seq c \<Longrightarrow> c_recv_buffer c' = c_recv_buffer c \<Longrightarrow> headed c' = headed c"
  by (simp add: headed_def current_sack_ranges_def fun_eq_iff)

lemma acking_cong:
  "c_expected_seq c' = c_expected_seq c \<Longrightarrow> c_recv_buffer c' = c_recv_buffer c \<Longrightarrow> acking c' = acking c"
  by (simp add: acking_def current_sack_ranges_def fun_eq_iff)

lemma acking_headed: "acking c d \<Longrightarrow> headed c d"
  unfolding acking_def headed_def by blast

lemma acking_data: "acking c (build_data_frame seq data (header_bytes c))"
  unfolding acking_def build_data_frame_def header_bytes_def
  by (intro exI [of _ "conn_header c False"] exI [of _ seq] exI [of _ FLAG_ACK] exI [of _ data])
    (simp add: conn_header_def)

lemma acking_bare:
  "flgs = FLAG_ACK \<or> flgs = FLAG_FIN OR FLAG_ACK \<Longrightarrow>
     acking c (encode_frame seq flgs (segment_encode (conn_header c b) []))"
  unfolding acking_def
  by (intro exI [of _ "conn_header c b"] exI [of _ seq] exI [of _ flgs] exI [of _ "[]"])
    (simp add: conn_header_def)

lemma acking_builders [simp]: "acking c (build_fin c)" "acking c (build_pure_ack c b)"
  by (simp_all add: build_fin_def build_pure_ack_def header_bytes_def acking_bare)

lemma headed_data [simp]: "headed c (build_data_frame seq data (header_bytes c))"
  by (simp add: acking_data acking_headed)

lemma headed_bare [simp]: "headed c (encode_frame seq flgs (segment_encode (conn_header c b) []))"
  unfolding headed_def
  by (intro exI [of _ "conn_header c b"] exI [of _ seq] exI [of _ flgs] exI [of _ "[]"])
    (simp add: conn_header_def)

lemma headed_builders [simp]:
  "headed c (build_syn c)" "headed c (build_synack c)" "headed c (build_handshake_ack c)"
  "headed c (build_fin c)" "headed c (build_pure_ack c b)"
  by (simp_all add: build_syn_def build_synack_def build_handshake_ack_def build_fin_def
      build_pure_ack_def header_bytes_def)

lemma length_sack_ranges: "0 < n \<Longrightarrow> length (sack_ranges_from n m) \<le> n"
proof (induction n m rule: sack_ranges_from.induct)
  case (2 n k v rest)
  obtain e rest' where run: "sack_run (k + word_of_nat (length v) - 1) rest = (e, rest')" by fastforce
  show ?case using "2.IH" [OF run [symmetric] refl refl] "2.prems" by (auto simp: run Let_def)
qed simp

lemma length_current_sack_ranges: "length (current_sack_ranges c) \<le> MAX_SACK_RANGES"
  by (simp add: current_sack_ranges_def length_sack_ranges segment_consts)

text \<open>A selective-ack range covers bytes of buffered chunks only.\<close>

lemma sack_run_covers:
  assumes "\<forall>p \<in> set m. chunk_ok P (fst p) (snd p)" and "length P < 2 ^ 32" and "unat e < length P"
    and "unat e < x" and "x \<le> unat (fst (sack_run e m))"
  shows "\<exists>p \<in> set m. unat (fst p) \<le> x \<and> x < unat (fst p) + length (snd p)"
  using assms
proof (induction e m rule: sack_run.induct)
  case (2 e k v rest)
  have k: "k = e + 1" using "2.prems"(4,5) by (auto split: if_splits)
  have c: "chunk_ok P k v" using "2.prems" by auto
  have "unat (e + 1) = unat e + 1" using "2.prems" by (simp add: unat_word_ariths)
  moreover have "0 < length v" using c by (simp add: chunk_ok_def)
  ultimately have e': "unat (k + word_of_nat (length v) - 1) = unat e + length v"
    using unat_chunk_last [OF c "2.prems"(2)] k by simp
  show ?case
  proof (cases "x \<le> unat e + length v")
    case True
    then show ?thesis using k \<open>unat (e + 1) = unat e + 1\<close> "2.prems"(4) by auto
  next
    case False
    then have "\<exists>p \<in> set rest. unat (fst p) \<le> x \<and> x < unat (fst p) + length (snd p)"
      using "2.prems" k e' chunk_ok_bound [OF c] \<open>unat (e + 1) = unat e + 1\<close>
      by (intro "2.IH") (auto simp: k)
    then show ?thesis by auto
  qed
qed simp

lemma sack_ranges_cover:
  assumes "\<forall>p \<in> set m. chunk_ok P (fst p) (snd p)" and "length P < 2 ^ 32"
    and "x \<in> sack_cover (sack_ranges_from n m)"
  shows "\<exists>p \<in> set m. unat (fst p) \<le> x \<and> x < unat (fst p) + length (snd p)"
  using assms
proof (induction n m rule: sack_ranges_from.induct)
  case (2 n k v rest)
  let ?e = "k + word_of_nat (length v) - 1"
  obtain e rest' where run: "sack_run ?e rest = (e, rest')" by fastforce
  have c: "chunk_ok P k v" using "2.prems" by auto
  then have v: "0 < length v" by (simp add: chunk_ok_def)
  have e: "unat ?e = unat k + length v - 1" "unat ?e < length P"
    using unat_chunk_last [OF c "2.prems"(2)] chunk_ok_bound [OF c] v
    by (simp_all del: length_greater_0_conv)
  have rest': "set rest' \<subseteq> set rest"
    using sack_run_ok [of rest P ?e] "2.prems" e by (simp add: run)
  consider "unat k \<le> x" "x \<le> unat e" | "n \<noteq> 1" "x \<in> sack_cover (sack_ranges_from (n - 1) rest')"
    using "2.prems"(3) by (auto simp: run Let_def sack_cover_def split: if_splits)
  then show ?case
  proof cases
    case 1
    show ?thesis
    proof (cases "x \<le> unat ?e")
      case True
      then have "x < unat k + length v" using e v by (simp del: length_greater_0_conv)
      then show ?thesis using 1 by auto
    next
      case False
      then show ?thesis using sack_run_covers [of rest P ?e x] 1 e "2.prems" by (auto simp: run)
    qed
  next
    case 2
    then show ?thesis using "2.IH" [OF run [symmetric] refl refl 2(1)] "2.prems" rest' by fastforce
  qed
qed (simp add: sack_cover_def)

lemma sacks_received:
  assumes "recv_ok R P c" and "rcv_cuts K c" and "x \<in> sack_cover (current_sack_ranges c)" and "x \<in> K"
  shows "x \<in> rcv_got c \<and> unat (c_expected_seq c) < x"
proof -
  obtain p where p: "p \<in> set (c_recv_buffer c)" "unat (fst p) \<le> x" "x < unat (fst p) + length (snd p)"
    using sack_ranges_cover [of "c_recv_buffer c" P x MAX_SACK_RANGES] assms(1,3)
    unfolding recv_ok_def current_sack_ranges_def by blast
  moreover have "piece K (unat (fst p)) (length (snd p))" "c_expected_seq c < fst p"
    using assms(2) p(1) by (simp_all add: rcv_cuts_def)
  moreover from calculation have "x = unat (fst p)" using assms(4) by (fastforce simp: piece_def)
  ultimately show ?thesis by (auto simp: rcv_got_def word_less_nat_alt)
qed

section \<open>What one operation does\<close>

definition sacked_keys :: "conn \<Rightarrow> nat set" where
  "sacked_keys c = {unat (fst p) | p. p \<in> set (c_unacked c) \<and> us_sacked (snd p)}"

text \<open>No segment and no FIN was sent in the future, and the timer obeys the configured maximum.\<close>

definition timed :: "conn \<Rightarrow> bool" where
  "timed c \<longleftrightarrow> (\<forall>p \<in> set (c_unacked c). us_sent_at (snd p) \<le> c_now c)
     \<and> (\<forall>f. c_fin_pending c = Some f \<longrightarrow> pc_sent_at f \<le> c_now c)
     \<and> e_max_rto (c_rto c) = max_rto (c_config c)"

text \<open>An open connection with bytes to send has a segment in flight.\<close>

definition pumped :: "conn \<Rightarrow> bool" where
  "pumped c \<longleftrightarrow> (established c \<longrightarrow> c_send_queue c = [] \<or> c_unacked c \<noteq> [])"

text \<open>From \<open>c\<close> to \<open>c'\<close>: the send base moves to one of the acks \<open>A\<close>, the segments marked as
  selectively acked are among the offsets \<open>X\<close>, the clock and the configuration behave.\<close>

definition flow :: "nat set \<Rightarrow> nat set \<Rightarrow> conn \<Rightarrow> conn \<Rightarrow> bool" where
  "flow A X c c' \<longleftrightarrow> unat (c_send_base c') \<in> insert (unat (c_send_base c)) A
     \<and> sacked_keys c' \<subseteq> sacked_keys c \<union> X \<and> (timed c \<longrightarrow> timed c')
     \<and> c_now c \<le> c_now c' \<and> c_config c' = c_config c"

definition op_flow :: "nat set \<Rightarrow> nat set \<Rightarrow> conn \<Rightarrow> (conn \<times> bytes list) option \<Rightarrow> bool" where
  "op_flow A X c r \<longleftrightarrow> (\<forall>c' out. r = Some (c', out) \<longrightarrow>
     flow A X c c' \<and> pumped c' \<and> (\<forall>d \<in> set out. headed c d \<or> headed c' d))"

lemma flow_refl [simp]: "flow A X c c"
  by (simp add: flow_def)

lemma flow_trans: "flow A X a b \<Longrightarrow> flow A X b c \<Longrightarrow> flow A X a c"
  unfolding flow_def by (auto intro: order_trans)

lemma flow_mono: "flow A X c c' \<Longrightarrow> A \<subseteq> A' \<Longrightarrow> X \<subseteq> X' \<Longrightarrow> flow A' X' c c'"
  unfolding flow_def by blast

text \<open>Updates of the fields the relation does not read, and of the clock.\<close>

lemma sacked_keys_cong: "c_unacked c' = c_unacked c \<Longrightarrow> sacked_keys c' = sacked_keys c"
  by (simp add: sacked_keys_def)

lemma flow_same:
  assumes "c_send_base c' = c_send_base c" and "c_unacked c' = c_unacked c" and "c_now c \<le> c_now c'"
    and "c_config c' = c_config c" and "e_max_rto (c_rto c') = e_max_rto (c_rto c)"
    and "\<forall>f. c_fin_pending c' = Some f \<longrightarrow> c_fin_pending c = Some f \<or> pc_sent_at f \<le> c_now c'"
  shows "flow A X c c'"
  using assms by (auto simp: flow_def timed_def sacked_keys_def intro: order_trans)

lemma admit_chunk_flow: "flow A X c (fst (admit_chunk c))"
  using set_bt_insert_subset [of "c_next_seq c" _ "c_unacked c"]
  by (fastforce simp: flow_def admit_chunk_def Let_def sacked_keys_def timed_def)

lemma admit_chunk_acking: "acking c (snd (admit_chunk c))"
proof -
  have "acking (c\<lparr>c_send_queue := q, c_next_seq := s\<rparr>) = acking c" for q s by (rule acking_cong) simp_all
  then have "acking c (build_data_frame seq data (header_bytes (c\<lparr>c_send_queue := q, c_next_seq := s\<rparr>)))"
    for q s seq data by (metis acking_data)
  then show ?thesis by (simp add: admit_chunk_def Let_def)
qed

definition resent :: "bytes list \<Rightarrow> u32 \<times> unacked_segment \<Rightarrow> bool" where
  "resent out p \<longleftrightarrow> (\<exists>h. length (h_sack h) \<le> MAX_SACK_RANGES
     \<and> build_data_frame (fst p) (us_data (snd p)) (segment_encode h []) \<in> set out)"

lemma resent_data: "resent [build_data_frame (fst p) (us_data (snd p)) (header_bytes c)] p"
  unfolding resent_def header_bytes_def
  by (rule exI [of _ "conn_header c False"]) (simp add: conn_header_def length_current_sack_ranges)

lemma admit_chunk_resent:
  assumes "p \<in> set (c_unacked (fst (admit_chunk c)))"
  shows "p \<in> set (c_unacked c) \<or> resent [snd (admit_chunk c)] p \<and> us_retransmit_count (snd p) = 0"
proof -
  define n where "n = min (min (segment_size (c_config c)) (length (c_send_queue c)))
    (unat (admission_cap c))"
  define c1 where "c1 = c\<lparr>c_send_queue := drop n (c_send_queue c),
    c_next_seq := c_next_seq c + word_of_nat n\<rparr>"
  define q where "q = (c_next_seq c, \<lparr>us_data = take n (c_send_queue c), us_sent_at = c_now c,
    us_retransmit_count = 0, us_sacked = False\<rparr>)"
  have "p \<in> insert q (set (c_unacked c))"
    using assms set_bt_insert_subset [of "fst q" "snd q" "c_unacked c"]
    by (auto simp: admit_chunk_def Let_def n_def q_def)
  moreover have "snd (admit_chunk c) = build_data_frame (fst q) (us_data (snd q)) (header_bytes c1)"
    by (simp add: admit_chunk_def Let_def n_def q_def c1_def)
  ultimately show ?thesis using resent_data [of q c1] by (auto simp: q_def)
qed

text \<open>Admission: everything put in flight is put on the wire too, and it stops only when nothing is
  queued or something is in flight.\<close>

lemma admit_loop_flow:
  assumes "admit_loop c [] = Some (c', out)"
  shows "flow A X c c'" and "\<forall>d \<in> set out. acking c d" and "same_but_send c c'"
    and "c_send_queue c' = [] \<or> c_unacked c' \<noteq> []"
    and "\<forall>p \<in> set (c_unacked c'). p \<in> set (c_unacked c) \<or> resent out p \<and> us_retransmit_count (snd p) = 0"
proof -
  have "(flow A X c (fst (c', out)) \<and> same_but_send c (fst (c', out))
      \<and> (\<forall>d \<in> set (snd (c', out)). acking c d)
      \<and> (\<forall>p \<in> set (c_unacked (fst (c', out))). p \<in> set (c_unacked c)
        \<or> resent (snd (c', out)) p \<and> us_retransmit_count (snd p) = 0))
      \<and> (c_send_queue (fst (c', out)) = [] \<or> admission_cap (fst (c', out)) = 0)"
  proof (rule admit_loop_rule [OF assms, where I = "\<lambda>c' out. flow A X c c' \<and> same_but_send c c'
      \<and> (\<forall>d \<in> set out. acking c d) \<and> (\<forall>p \<in> set (c_unacked c'). p \<in> set (c_unacked c) \<or> resent out p \<and> us_retransmit_count (snd p) = 0)"])
    fix c1 out1
    assume I: "flow A X c c1 \<and> same_but_send c c1 \<and> (\<forall>d \<in> set out1. acking c d)
      \<and> (\<forall>p \<in> set (c_unacked c1). p \<in> set (c_unacked c) \<or> resent out1 p \<and> us_retransmit_count (snd p) = 0)"
    let ?a = "admit_chunk c1"
    have "acking c1 = acking c" using I by (intro acking_cong) (auto simp: same_but_send_def)
    then have "acking c (snd ?a)" using admit_chunk_acking [of c1] by simp
    moreover have "p \<in> set (c_unacked c) \<or> resent (out1 @ [snd ?a]) p \<and> us_retransmit_count (snd p) = 0" if "p \<in> set (c_unacked (fst ?a))" for p
    proof -
      have "p \<in> set (c_unacked c1) \<or> resent [snd ?a] p \<and> us_retransmit_count (snd p) = 0" using that by (rule admit_chunk_resent)
      then show ?thesis using I by (auto simp: resent_def)
    qed
    ultimately show "flow A X c (fst ?a) \<and> same_but_send c (fst ?a)
      \<and> (\<forall>d \<in> set (out1 @ [snd ?a]). acking c d)
      \<and> (\<forall>p \<in> set (c_unacked (fst ?a)). p \<in> set (c_unacked c) \<or> resent (out1 @ [snd ?a]) p \<and> us_retransmit_count (snd p) = 0)"
      using I admit_chunk_flow [of A X c1] admit_chunk_same [of c1]
      by (auto intro: flow_trans same_but_send_trans)
  qed auto
  moreover have "admission_cap c' = 0 \<Longrightarrow> c_unacked c' \<noteq> []"
    by (auto simp: admission_cap_def in_flight_bytes_def Let_def max_def split: if_splits)
  ultimately show "flow A X c c'" and "\<forall>d \<in> set out. acking c d" and "same_but_send c c'"
    and "c_send_queue c' = [] \<or> c_unacked c' \<noteq> []"
    and "\<forall>p \<in> set (c_unacked c'). p \<in> set (c_unacked c) \<or> resent out p \<and> us_retransmit_count (snd p) = 0" by auto
qed

lemma try_send_more_flow:
  assumes "try_send_more c = Some (c', out)"
  shows "flow A X c c'" and "\<forall>d \<in> set out. acking c d" and "same_but_send c c'"
    and "established c' \<Longrightarrow> c_send_queue c' = [] \<or> c_unacked c' \<noteq> []"
    and "\<forall>p \<in> set (c_unacked c'). p \<in> set (c_unacked c) \<or> resent out p \<and> us_retransmit_count (snd p) = 0"
proof -
  have "(flow A X c c' \<and> (\<forall>d \<in> set out. acking c d) \<and> same_but_send c c'
    \<and> (established c' \<longrightarrow> c_send_queue c' = [] \<or> c_unacked c' \<noteq> [])
    \<and> (\<forall>p \<in> set (c_unacked c'). p \<in> set (c_unacked c) \<or> resent out p \<and> us_retransmit_count (snd p) = 0))"
  proof (cases "established c")
    case True
    then have "admit_loop c [] = Some (c', out)" using assms by (auto simp: try_send_more_def)
    note A = admit_loop_flow [OF this]
    then show ?thesis by blast
  next
    case False
    then have "c' = c" "out = []" using assms by (auto simp: try_send_more_def)
    with False show ?thesis by simp
  qed
  then show "flow A X c c'" and "\<forall>d \<in> set out. acking c d" and "same_but_send c c'"
    and "established c' \<Longrightarrow> c_send_queue c' = [] \<or> c_unacked c' \<noteq> []"
    and "\<forall>p \<in> set (c_unacked c'). p \<in> set (c_unacked c) \<or> resent out p \<and> us_retransmit_count (snd p) = 0" by blast+
qed

lemma maybe_send_fin_flow:
  assumes "maybe_send_fin c = (c', out)"
  shows "c_send_queue c' = c_send_queue c" "c_unacked c' = c_unacked c" "flow A X c c'"
    "c_expected_seq c' = c_expected_seq c" "c_recv_buffer c' = c_recv_buffer c"
    "\<forall>d \<in> set out. acking c' d" "c_unacked c \<noteq> [] \<Longrightarrow> c' = c" "established c' = established c"
  using assms by (auto simp: maybe_send_fin_def Let_def split: if_splits intro!: flow_same)

lemma check_fully_closed_flow [simp]:
  "c_send_queue (check_fully_closed c) = c_send_queue c" "c_unacked (check_fully_closed c) = c_unacked c"
  "c_expected_seq (check_fully_closed c) = c_expected_seq c"
  "c_recv_buffer (check_fully_closed c) = c_recv_buffer c"
  "c_send_base (check_fully_closed c) = c_send_base c" "c_now (check_fully_closed c) = c_now c"
  "c_config (check_fully_closed c) = c_config c" "c_rto (check_fully_closed c) = c_rto c"
  "c_fin_pending (check_fully_closed c) = c_fin_pending c"
  by (auto simp: check_fully_closed_def split: if_splits)

lemma check_fully_closed_open: "established (check_fully_closed c) \<Longrightarrow> established c"
  by (auto simp: check_fully_closed_def split: if_splits)

lemma drain_flow:
  assumes "drain_and_maybe_fin c = Some (c', out)"
  shows "flow A X c c'" and "pumped c'" and "\<forall>d \<in> set out. acking c d"
    and "c_expected_seq c' = c_expected_seq c" "c_recv_buffer c' = c_recv_buffer c"
    and "\<forall>p \<in> set (c_unacked c'). p \<in> set (c_unacked c) \<or> resent out p \<and> us_retransmit_count (snd p) = 0"
proof -
  obtain c1 out1 c2 fin where s: "try_send_more c = Some (c1, out1)" "maybe_send_fin c1 = (c2, fin)"
    and eq: "c' = check_fully_closed c2" "out = out1 @ fin"
    using assms by (auto simp: drain_and_maybe_fin_def split: option.splits prod.splits)
  note S = try_send_more_flow [OF s(1)] and F = maybe_send_fin_flow [OF s(2)]
  have "flow A X c2 c'" by (rule flow_same) (simp_all add: eq)
  with S(1) F(3) show "flow A X c c'" by (blast intro: flow_trans)
  show rcv: "c_expected_seq c' = c_expected_seq c" "c_recv_buffer c' = c_recv_buffer c"
    using S(3) F(4,5) by (simp_all add: eq same_but_send_def)
  then have "acking c2 = acking c" by (intro acking_cong) (simp_all add: eq)
  with S(2) F(6) show "\<forall>d \<in> set out. acking c d" by (auto simp: eq)
  show "pumped c'" using S(4) F(1,2,8) check_fully_closed_open [of c2] by (auto simp: pumped_def eq)
  show "\<forall>p \<in> set (c_unacked c'). p \<in> set (c_unacked c) \<or> resent out p \<and> us_retransmit_count (snd p) = 0"
    using S(5) F(2) by (auto simp: eq resent_def)
qed

lemma op_flow_drain:
  assumes "flow A X c c1" and "\<forall>d \<in> set out. headed c d \<or> headed c1 d"
  shows "op_flow A X c (map_option (\<lambda>(c', out'). (c', out @ out')) (drain_and_maybe_fin c1))"
proof -
  have "flow A X c c' \<and> pumped c' \<and> (\<forall>d \<in> set (out @ out'). headed c d \<or> headed c' d)"
    if d: "drain_and_maybe_fin c1 = Some (c', out')" for c' out'
  proof -
    note D = drain_flow [OF d]
    have "headed c' = headed c1" by (rule headed_cong) (rule D)+
    with D assms show ?thesis by (auto intro: flow_trans acking_headed)
  qed
  then show ?thesis by (auto simp: op_flow_def)
qed

lemma op_flow_drain_bare:
  "flow A X c c1 \<Longrightarrow> op_flow A X c (drain_and_maybe_fin c1)"
  using op_flow_drain [of A X c c1 "[]"] by (simp add: case_prod_beta option.map_id)

lemma op_flow_Some:
  "flow A X c c' \<Longrightarrow> pumped c' \<Longrightarrow> \<forall>d \<in> set out. headed c d \<or> headed c' d \<Longrightarrow> op_flow A X c (Some (c', out))"
  by (simp add: op_flow_def)

lemma op_flow_None [simp]: "op_flow A X c None"
  by (simp add: op_flow_def)

section \<open>Acknowledgements\<close>

lemma ack_progress_flow:
  assumes "unat ack \<in> A"
  shows "flow A X c (ack_progress c ack)"
proof -
  have "e_max_rto (fold (sample_acked now) ps e) = e_max_rto e" for now ps e
    by (induction ps arbitrary: e) (simp_all add: sample_acked_def)
  then show ?thesis
    using assms by (auto simp: flow_def ack_progress_def Let_def remove_acked sacked_keys_def timed_def)
qed

lemma dup_ack_flow:
  assumes "dup_ack c = (c', r)"
  shows "flow A X c c'" and "c_expected_seq c' = c_expected_seq c" "c_recv_buffer c' = c_recv_buffer c"
    and "\<forall>d. r = Some d \<longrightarrow> headed c' d"
proof -
  have rest: "c_expected_seq c' = c_expected_seq c \<and> c_recv_buffer c' = c_recv_buffer c
    \<and> c_send_base c' = c_send_base c \<and> c_rto c' = c_rto c \<and> c_now c' = c_now c \<and> c_config c' = c_config c
    \<and> c_fin_pending c' = c_fin_pending c"
    using assms by (auto simp: dup_ack_def Let_def split: if_splits list.splits)
  have u: "c_unacked c' = c_unacked c \<or> (\<exists>q s m. c_unacked c = (q, s) # m
      \<and> c_unacked c' = (q, s\<lparr>us_retransmit_count := us_retransmit_count s + 1, us_sent_at := c_now c\<rparr>) # m)"
    using assms by (auto simp: dup_ack_def Let_def split: if_splits list.splits)
  then have "sacked_keys c' = sacked_keys c" by (fastforce simp: sacked_keys_def)
  moreover have "timed c \<longrightarrow> timed c'" using u rest by (auto simp: timed_def)
  ultimately show "flow A X c c'" using rest by (simp add: flow_def)
  show "c_expected_seq c' = c_expected_seq c" "c_recv_buffer c' = c_recv_buffer c" using rest by simp_all
  show "\<forall>d. r = Some d \<longrightarrow> headed c' d"
    using assms by (auto simp: dup_ack_def Let_def split: if_splits list.splits)
qed

lemma mark_sacked_flow:
  "mark_sacked b rs m = Some m' \<Longrightarrow> p \<in> set m' \<Longrightarrow>
    \<exists>s. (fst p, s) \<in> set m \<and> us_sent_at (snd p) = us_sent_at s
      \<and> (us_sacked (snd p) \<longrightarrow> us_sacked s \<or> unat (fst p) \<in> sack_cover rs)"
proof (induction b rs m rule: mark_sacked.induct)
  case (2 b r rs m)
  let ?m = "bt_update_range (sr_start r) (sr_end r) (\<lambda>seg. seg\<lparr>us_sacked := True\<rparr>) m"
  have "mark_sacked b rs ?m = Some m'" and ok: "\<not> (b \<and> sr_end r < sr_start r)"
    using "2.prems"(1) by (auto split: if_splits)
  then obtain s where s: "(fst p, s) \<in> set ?m" "us_sent_at (snd p) = us_sent_at s"
    "us_sacked (snd p) \<longrightarrow> us_sacked s \<or> unat (fst p) \<in> sack_cover rs"
    using "2.IH" [OF ok _ "2.prems"(2)] by blast
  then obtain s' where "(fst p, s') \<in> set m" "us_sent_at s = us_sent_at s'"
    "us_sacked s \<longrightarrow> us_sacked s' \<or> (sr_start r \<le> fst p \<and> fst p \<le> sr_end r)"
    by (auto simp: bt_update_range_def split: if_splits)
  moreover have "sack_cover rs \<subseteq> sack_cover (r # rs)" by (rule sack_cover_mono) auto
  ultimately show ?case
    using s by (auto simp: sack_cover_def word_le_nat_alt)
next
  case (1 b m)
  then show ?case by (cases p) auto
qed

lemma apply_sack_fin_flow:
  assumes "apply_sack_fin c h = Some c'" and "sack_cover (h_sack h) \<subseteq> X"
  shows "flow A X c c'" and "c_expected_seq c' = c_expected_seq c" "c_recv_buffer c' = c_recv_buffer c"
proof -
  obtain m where m: "mark_sacked (unacked_rooted c) (h_sack h) (c_unacked c) = Some m"
    and c': "c' = (if h_fin_ack h
      then check_fully_closed (c\<lparr>c_unacked := m, c_fin_acked := True, c_fin_pending := None\<rparr>)
      else c\<lparr>c_unacked := m\<rparr>)"
    using assms(1) by (auto simp: apply_sack_fin_def Let_def split: option.splits)
  have u: "c_unacked c' = m" by (simp add: c')
  have "sacked_keys c' \<subseteq> sacked_keys c \<union> X"
    using mark_sacked_flow [OF m] assms(2) unfolding sacked_keys_def u by fastforce
  moreover have "timed c'" if "timed c"
  proof -
    have "us_sent_at (snd p) \<le> c_now c" if "p \<in> set m" for p
      using mark_sacked_flow [OF m that] \<open>timed c\<close> by (force simp: timed_def)
    then show ?thesis using that unfolding timed_def u by (auto simp: c')
  qed
  ultimately show "flow A X c c'" by (simp add: flow_def c')
  show "c_expected_seq c' = c_expected_seq c" "c_recv_buffer c' = c_recv_buffer c" by (simp_all add: c')
qed

lemma apply_ack_flow:
  assumes "apply_ack c h = Some (c', out)" and "unat (h_ack h) \<in> A" and "sack_cover (h_sack h) \<subseteq> X"
  shows "flow A X c c'" and "c_expected_seq c' = c_expected_seq c" "c_recv_buffer c' = c_recv_buffer c"
    and "\<forall>d \<in> set out. headed c d"
proof -
  obtain c1 r where r: "(c1, r) = (if c_send_base c < h_ack h then (ack_progress c (h_ack h), None)
    else if h_ack h = c_send_base c \<and> c_unacked c \<noteq> [] then dup_ack c else (c, None))" by (metis surj_pair)
  have c1: "flow A X c c1" "c_expected_seq c1 = c_expected_seq c" "c_recv_buffer c1 = c_recv_buffer c"
    "\<forall>d. r = Some d \<longrightarrow> headed c1 d"
    using r ack_progress_flow [OF assms(2)] dup_ack_flow [of c c1 r]
    by (auto simp: ack_progress_def Let_def split: if_splits)
  have "headed c1 = headed c" by (rule headed_cong) (rule c1)+
  then have "flow A X c c' \<and> c_expected_seq c' = c_expected_seq c \<and> c_recv_buffer c' = c_recv_buffer c
      \<and> (\<forall>d \<in> set out. headed c d)"
  proof (cases r)
    case (Some d)
    then have "c' = c1" "out = [d]" using assms(1) by (simp_all add: apply_ack_def r [symmetric])
    with c1 Some \<open>headed c1 = headed c\<close> show ?thesis by simp
  next
    case None
    then have s: "apply_sack_fin c1 h = Some c'" and "out = []"
      using assms(1) by (auto simp: apply_ack_def r [symmetric])
    then show ?thesis using apply_sack_fin_flow [OF s assms(3)] c1 by (auto intro: flow_trans)
  qed
  then show "flow A X c c'" and "c_expected_seq c' = c_expected_seq c" "c_recv_buffer c' = c_recv_buffer c"
    and "\<forall>d \<in> set out. headed c d" by simp_all
qed

section \<open>Datagrams and timers\<close>

lemma deliver_data_flow: "flow A X c (deliver_data c seq data)"
  using deliver_data_same [of c seq data] by (intro flow_same) (simp_all add: same_but_recv_def)

lemma process_segment_flow:
  assumes "unat (h_ack h) \<in> A" and "sack_cover (h_sack h) \<subseteq> X"
  shows "op_flow A X c (process_segment c seq h p is_ack is_fin)"
proof (cases "if is_ack then apply_ack c h else Some (c, [])")
  case None
  then show ?thesis by (simp add: process_segment_def)
next
  case (Some r)
  obtain c1 out1 where r: "r = (c1, out1)" by fastforce
  have c1: "flow A X c c1" "\<forall>d \<in> set out1. headed c d"
    using Some r apply_ack_flow [OF _ assms, of c c1 out1] by (auto split: if_splits)
  define c2 where "c2 = (if p \<noteq> [] then deliver_data c1 seq p else c1)"
  define c3 where "c3 = (if is_fin then c2\<lparr>c_peer_fin_seen := True\<rparr> else c2)"
  define c4 where "c4 = (if p \<noteq> [] \<or> is_fin
     then c3\<lparr>c_stats := (c_stats c3)\<lparr>ack_segments_sent := ack_segments_sent (c_stats c3) + 1\<rparr>\<rparr> else c3)"
  have "flow A X c1 c2" by (simp add: c2_def deliver_data_flow)
  moreover have "flow A X c2 c3" "flow A X c3 c4"
    by (rule flow_same; simp add: c3_def c4_def)+
  ultimately have c4: "flow A X c c4" using c1(1) by (blast intro: flow_trans)
  have "process_segment c seq h p is_ack is_fin =
      map_option (\<lambda>(c5, out3). (c5, (out1 @ (if p \<noteq> [] \<or> is_fin then [build_pure_ack c4 is_fin] else [])) @ out3))
        (drain_and_maybe_fin c4)"
    unfolding process_segment_def Some r by (simp only: option.case prod.case Let_def c2_def c3_def c4_def append_assoc)
  then show ?thesis using op_flow_drain [OF c4] c1(2) by (auto simp del: append_assoc)
qed

lemma op_flow_trans:
  assumes "op_flow A X c1 r" and "flow A X c c1"
    and "c_expected_seq c1 = c_expected_seq c" "c_recv_buffer c1 = c_recv_buffer c"
  shows "op_flow A X c r"
proof -
  have "headed c1 = headed c" by (rule headed_cong) (rule assms)+
  with assms(1,2) show ?thesis by (auto simp: op_flow_def intro: flow_trans)
qed

lemma op_flow_prepend:
  assumes "op_flow A X c r" and "\<forall>d \<in> set out. headed c d"
  shows "op_flow A X c (map_option (\<lambda>(c', out'). (c', out @ out')) r)"
  using assms by (auto simp: op_flow_def)

lemma handshake_dispatch_Inl: "handshake_dispatch c is_syn is_ack = Inl r \<Longrightarrow> c_state (fst r) = SynReceived"
  by (cases "c_state c"; cases is_syn; cases is_ack) (auto simp: handshake_dispatch_def Let_def)

lemma handshake_dispatch_flow:
  assumes "handshake_dispatch c is_syn is_ack = Inl (c', out) \<or> handshake_dispatch c is_syn is_ack = Inr (c', out)"
  shows "flow A X c c'" and "c_expected_seq c' = c_expected_seq c" "c_recv_buffer c' = c_recv_buffer c"
    and "\<forall>d \<in> set out. headed c' d" and "handshake_dispatch c is_syn is_ack = Inl (c', out) \<Longrightarrow> c_state c' = SynReceived"
    and "c_send_queue c' = c_send_queue c" "c_unacked c' = c_unacked c"
proof -
  define c1 where "c1 = c\<lparr>c_state := SynReceived,
    c_handshake := Some \<lparr>pc_sent_at = c_now c, pc_attempts = 1\<rparr>\<rparr>"
  define c2 where "c2 = complete_handshake c"
  have same: "flow A X c c1" "flow A X c c2" "c_expected_seq c1 = c_expected_seq c"
    "c_recv_buffer c1 = c_recv_buffer c" "c_expected_seq c2 = c_expected_seq c"
    "c_recv_buffer c2 = c_recv_buffer c" "c_send_queue c1 = c_send_queue c" "c_unacked c1 = c_unacked c"
    "c_send_queue c2 = c_send_queue c" "c_unacked c2 = c_unacked c" "c_state c1 = SynReceived"
    by (auto simp: c1_def c2_def complete_handshake_def Let_def intro: flow_same split: option.split)
  have "handshake_dispatch c is_syn is_ack \<in> {Inl (c1, [build_synack c1]), Inl (c, [build_synack c]),
      Inr (c2, [build_handshake_ack c2]), Inr (c2, []), Inr (c, [build_handshake_ack c]), Inr (c, [])}"
    unfolding handshake_dispatch_def Let_def c1_def [symmetric] c2_def [symmetric]
    by (simp only: insert_iff simp_thms split: if_split)
  then have "(c', out) \<in> {(c1, [build_synack c1]), (c, [build_synack c]),
      (c2, [build_handshake_ack c2]), (c2, []), (c, [build_handshake_ack c]), (c, [])}"
    using assms by (elim disjE) (simp_all, blast+)
  then have "flow A X c c' \<and> c_expected_seq c' = c_expected_seq c \<and> c_recv_buffer c' = c_recv_buffer c
      \<and> (\<forall>d \<in> set out. headed c' d) \<and> c_send_queue c' = c_send_queue c \<and> c_unacked c' = c_unacked c"
    using same by (elim insertE emptyE) simp_all
  then show "flow A X c c'" and "c_expected_seq c' = c_expected_seq c" "c_recv_buffer c' = c_recv_buffer c"
    and "\<forall>d \<in> set out. headed c' d"
    and "c_send_queue c' = c_send_queue c" "c_unacked c' = c_unacked c" by simp_all
  show "c_state c' = SynReceived" if "handshake_dispatch c is_syn is_ack = Inl (c', out)"
    using handshake_dispatch_Inl [OF that] by simp
qed

lemma on_segment_flow:
  assumes "pumped c" and "unat (h_ack h) \<in> A" and "sack_cover (h_sack h) \<subseteq> X"
  shows "op_flow A X c (on_segment c f h p)"
proof -
  define c1 where "c1 = c\<lparr>c_peer_window := h_window h\<rparr>"
  have c1: "flow A X c c1" "c_expected_seq c1 = c_expected_seq c" "c_recv_buffer c1 = c_recv_buffer c" "pumped c1"
    using assms(1) by (auto simp: c1_def pumped_def intro: flow_same)
  let ?syn = "flags f AND FLAG_SYN \<noteq> 0" and ?ack = "flags f AND FLAG_ACK \<noteq> 0"
  let ?fin = "flags f AND FLAG_FIN \<noteq> 0"
  obtain c2 out where r: "handshake_dispatch c1 ?syn ?ack = Inl (c2, out)
      \<or> handshake_dispatch c1 ?syn ?ack = Inr (c2, out)"
    by (metis sum.exhaust surj_pair)
  note H = handshake_dispatch_flow [OF r]
  have "headed c2 = headed c1" by (rule headed_cong) (rule H)+
  then have hd: "\<forall>d \<in> set out. headed c1 d" using H(4) by simp
  have stay: "op_flow A X c1 (Some (c2, out))" if "established c2 \<longrightarrow> established c1"
    using H hd c1(4) that by (intro op_flow_Some) (auto simp: pumped_def)
  have process: "op_flow A X c1 (map_option (\<lambda>(c3, out'). (c3, out @ out'))
      (process_segment c2 (sequence f) h p ?ack ?fin))"
    by (rule op_flow_prepend [OF op_flow_trans [OF process_segment_flow [OF assms(2,3)]] hd]) (rule H)+
  have closed: "op_flow A X c1 (Some (c1, [build_pure_ack c1 True]))" using c1(4) by (simp add: op_flow_Some)
  have "op_flow A X c1 (on_segment c f h p)"
  proof (cases "c_state c1 = Closed \<and> ?fin")
    case True
    then show ?thesis using closed by (simp add: on_segment_def c1_def [symmetric] Let_def)
  next
    case False
    have inl: "op_flow A X c1 (Some (c2, out))" if "handshake_dispatch c1 ?syn ?ack = Inl (c2, out)"
      using stay H(5) [OF that] by simp
    have inr: "op_flow A X c1 (Some (c2, out))" if "\<not> established c2" using stay that by blast
    from False show ?thesis
      using r inl inr process closed
      by (elim disjE) (simp_all add: on_segment_def c1_def [symmetric] Let_def)
  qed
  then show ?thesis by (rule op_flow_trans) (rule c1)+
qed

lemma on_datagram_flow:
  assumes "pumped c"
  shows "op_flow (acks_of d) (sacks_of d) c (on_datagram c now d)"
proof -
  let ?c = "c\<lparr>c_now := max (c_now c) now\<rparr>"
  have c: "flow A X c ?c" "pumped ?c" for A X
    using assms by (auto simp: pumped_def intro: flow_same)
  have "op_flow (acks_of d) (sacks_of d) ?c (on_segment ?c f h p)"
    if "frame_decode d = Inr f" "segment_decode (payload f) = Some (h, p)" for f h p
  proof -
    have "decodes d h" using that by (auto simp: decodes_def)
    then show ?thesis using c(2) by (intro on_segment_flow) (auto simp: acks_of_def sacks_of_def)
  qed
  then have "op_flow (acks_of d) (sacks_of d) c (on_segment ?c f h p)"
    if "frame_decode d = Inr f" "segment_decode (payload f) = Some (h, p)" for f h p
    using that by (intro op_flow_trans [OF _ c(1)]) simp_all
  moreover have "op_flow (acks_of d) (sacks_of d) c (Some (?c, []))" using c by (intro op_flow_Some) auto
  ultimately show ?thesis by (simp add: on_datagram_def Let_def split: sum.split option.split)
qed

lemma handshake_tick_flow:
  assumes "\<not> established c"
  shows "op_flow A X c (handshake_tick c)"
proof (cases "c_handshake c")
  case None
  with assms show ?thesis by (simp add: handshake_tick_def op_flow_Some pumped_def)
next
  case (Some h)
  show ?thesis
  proof (cases "rto_current (c_rto c)")
    case None
    with Some show ?thesis by (simp add: handshake_tick_def)
  next
    case rto: (Some rto)
    define c1 where "c1 = c\<lparr>c_rto := on_timeout (c_rto c),
      c_handshake := Some \<lparr>pc_sent_at = c_now c, pc_attempts = pc_attempts h + 1\<rparr>,
      c_stats := (c_stats c)\<lparr>control_retransmissions := control_retransmissions (c_stats c) + 1\<rparr>\<rparr>"
    have "op_flow A X c (Some (c1, [if c_state c1 = SynSent then build_syn c1 else build_synack c1]))"
      using assms by (intro op_flow_Some) (auto simp: c1_def pumped_def intro: flow_same)
    moreover have "op_flow A X c (Some (c\<lparr>c_state := Failed TooManyRetries, c_handshake := None\<rparr>, []))"
      "op_flow A X c (Some (c, []))"
      using assms by (auto intro!: op_flow_Some flow_same simp: pumped_def)
    ultimately show ?thesis
      by (simp only: handshake_tick_def Some rto option.case Let_def c1_def [symmetric] split: if_split) simp
  qed
qed

lemma data_timeout_flow:
  assumes "data_timeout c = (c1, out, failed)"
  shows "flow A X c c1" and "c_expected_seq c1 = c_expected_seq c" "c_recv_buffer c1 = c_recv_buffer c"
    and "\<forall>d \<in> set out. headed c d"
    and "\<forall>p \<in> set (c_unacked c1). us_sacked (snd p) \<or> resent out p"
    and "map fst (c_unacked c1) = map fst (c_unacked c)" "c_state c1 = c_state c" "c_now c1 = c_now c"
    and "c_fin_pending c1 = c_fin_pending c"
proof -
  define c0 where "c0 = c\<lparr>c_rto := on_timeout (c_rto c), c_ssthresh := half_window c,
    c_cwnd := word_of_nat (segment_size (c_config c)), c_dup_ack_count := 0,
    c_stats := (c_stats c)\<lparr>congestion_events := congestion_events (c_stats c) + 1\<rparr>\<rparr>"
  have out: "out = map (\<lambda>(seq, seg). build_data_frame seq (us_data seg) (header_bytes c0))
      (filter (\<lambda>(_, seg). \<not> us_sacked seg) (c_unacked c))"
    and c1: "c_unacked c1 = map (\<lambda>(seq, seg). (seq, resend_segment (c_now c) seg)) (c_unacked c)"
      "c_send_base c1 = c_send_base c" "c_now c1 = c_now c" "c_config c1 = c_config c"
      "e_max_rto (c_rto c1) = e_max_rto (c_rto c)" "c_fin_pending c1 = c_fin_pending c"
    using assms by (auto simp: data_timeout_def Let_def c0_def)
  have "\<exists>s. (fst p, s) \<in> set (c_unacked c) \<and> us_sacked (snd p) = us_sacked s
      \<and> (us_sent_at (snd p) = us_sent_at s \<or> us_sent_at (snd p) = c_now c)" if "p \<in> set (c_unacked c1)" for p
    using that by (auto simp: c1 resend_segment_def split: if_splits)
  note old = this
  have "sacked_keys c1 \<subseteq> sacked_keys c" unfolding sacked_keys_def using old by fastforce
  moreover have "timed c1" if "timed c"
  proof -
    have "us_sent_at (snd p) \<le> c_now c" if "p \<in> set (c_unacked c1)" for p
      using old [OF that] \<open>timed c\<close> by (force simp: timed_def)
    then show ?thesis using that c1 by (simp add: timed_def)
  qed
  ultimately show "flow A X c c1" using c1 by (auto simp: flow_def)
  show "c_expected_seq c1 = c_expected_seq c" "c_recv_buffer c1 = c_recv_buffer c" "c_state c1 = c_state c"
    "c_now c1 = c_now c" "c_fin_pending c1 = c_fin_pending c"
    using assms by (auto simp: data_timeout_def Let_def)
  show "map fst (c_unacked c1) = map fst (c_unacked c)" by (auto simp: c1 case_prod_beta)
  have "headed c0 = headed c" by (rule headed_cong) (simp_all add: c0_def)
  then show "\<forall>d \<in> set out. headed c d" using headed_data [of c0] by (auto simp: out)
  have "resent out (q, resend_segment (c_now c) s)" if "(q, s) \<in> set (c_unacked c)" "\<not> us_sacked s" for q s
    using resent_data [of "(q, s)" c0] that unfolding resent_def out by force
  moreover have "us_sacked (resend_segment now s) = us_sacked s" for now s by (simp add: resend_segment_def)
  ultimately show "\<forall>p \<in> set (c_unacked c1). us_sacked (snd p) \<or> resent out p" by (fastforce simp: c1)
qed

lemma fin_tick_flow:
  assumes "flow A X c0 c" and "\<forall>d \<in> set out. headed c0 d \<or> headed c d"
  shows "op_flow A X c0 (fin_tick c out)"
proof (cases "c_fin_pending c")
  case None
  with assms show ?thesis by (simp add: fin_tick_def op_flow_drain)
next
  case (Some f)
  show ?thesis
  proof (cases "rto_current (c_rto c)")
    case None
    with Some show ?thesis by (simp add: fin_tick_def)
  next
    case rto: (Some rto)
    define c1 where "c1 = c\<lparr>c_rto := on_timeout (c_rto c),
      c_fin_pending := Some \<lparr>pc_sent_at = c_now c, pc_attempts = pc_attempts f + 1\<rparr>,
      c_stats := (c_stats c)\<lparr>control_retransmissions := control_retransmissions (c_stats c) + 1\<rparr>\<rparr>"
    define c2 where "c2 = c\<lparr>c_state := Failed TooManyRetries, c_fin_pending := None\<rparr>"
    have same: "flow A X c c1" "flow A X c c2" "pumped c2"
      by (auto simp: c1_def c2_def pumped_def intro: flow_same)
    have eq: "headed c1 = headed c" "headed c2 = headed c" by (rule headed_cong; simp add: c1_def c2_def)+
    have "op_flow A X c0 (map_option (\<lambda>(c', out'). (c', (out @ [build_fin c1]) @ out'))
        (drain_and_maybe_fin c1))"
      using assms same eq headed_builders(4) [of c1] by (intro op_flow_drain) (auto intro: flow_trans)
    moreover have "op_flow A X c0 (Some (c2, out))"
      using assms same eq by (intro op_flow_Some) (auto intro: flow_trans)
    moreover have "op_flow A X c0 (map_option (\<lambda>(c', out'). (c', out @ out')) (drain_and_maybe_fin c))"
      using assms by (rule op_flow_drain)
    ultimately show ?thesis
      by (simp only: fin_tick_def Some rto option.case Let_def c1_def [symmetric] c2_def [symmetric] split: if_split) simp
  qed
qed

lemma established_tick_flow: "op_flow A X c (established_tick c)"
proof (cases "c_unacked c")
  case Nil
  then show ?thesis by (simp add: established_tick_def fin_tick_flow)
next
  case (Cons p rest)
  obtain c1 out failed where t: "data_timeout c = (c1, out, failed)" by (metis prod_cases3)
  note D = data_timeout_flow [OF t]
  have "flow A X c1 (c1\<lparr>c_state := Failed TooManyRetries, c_unacked := []\<rparr>)"
    by (simp add: flow_def sacked_keys_def timed_def)
  then have "op_flow A X c (Some (c1\<lparr>c_state := Failed TooManyRetries, c_unacked := []\<rparr>, out))"
    using D(1,4) by (intro op_flow_Some) (auto simp: pumped_def intro: flow_trans)
  moreover have "op_flow A X c (fin_tick c1 out)" using D(1,4) by (auto intro!: fin_tick_flow)
  moreover have "op_flow A X c (fin_tick c [])" by (simp add: fin_tick_flow)
  ultimately show ?thesis
    by (simp add: established_tick_def Cons t split: prod.split option.split)
qed

lemma on_tick_flow:
  assumes "pumped c"
  shows "op_flow A X c (on_tick c now)"
proof -
  let ?c = "c\<lparr>c_now := max (c_now c) now\<rparr>"
  have c: "flow A X c ?c" "pumped ?c" using assms by (auto simp: pumped_def intro: flow_same)
  have "op_flow A X ?c (on_tick c now)"
    using handshake_tick_flow [of ?c] established_tick_flow [of A X ?c] c(2)
    by (cases "c_state c") (simp_all add: on_tick_def Let_def op_flow_Some)
  then show ?thesis using c(1) by (rule op_flow_trans) simp_all
qed

lemma conn_send_flow: "op_flow A X c (conn_send c now data)"
  unfolding conn_send_def by (rule op_flow_drain_bare) (simp add: flow_same)

lemma conn_close_flow: "op_flow A X c (conn_close c now)"
  unfolding conn_close_def by (rule op_flow_drain_bare) (simp add: flow_same)

end
