(* ===== verification/Recovery_Inv.thy ===== *)
theory Recovery_Inv
  imports Conn_Flow
begin

text \<open>
  Two connections joined by the hostile network: a segment that the sender marks as selectively
  acked is held by the receiver, and the oldest unacked segment is never marked, so that a
  retransmission timeout always resends it.
\<close>

section \<open>The invariant\<close>

definition wire_acks :: "endpoint \<Rightarrow> nat set" where
  "wire_acks e = insert 0 (\<Union> (acks_of ` set (ep_wire e)))"

definition wire_sacks :: "endpoint \<Rightarrow> nat set" where
  "wire_sacks e = \<Union> (sacks_of ` set (ep_wire e))"

text \<open>What \<open>peer\<close> has told \<open>me\<close> about the stream of \<open>me\<close> with cuts \<open>K\<close>: every cut it selectively acked is
  received, and it never gave that cut as its cumulative ack.\<close>

definition told :: "nat set \<Rightarrow> endpoint \<Rightarrow> endpoint \<Rightarrow> bool" where
  "told K me peer \<longleftrightarrow>
     (\<forall>x \<in> wire_sacks peer. x < unat (c_next_seq (ep_conn me))
        \<and> (x \<in> K \<longrightarrow> x \<in> rcv_got (ep_conn peer) - wire_acks peer))
     \<and> unat (c_send_base (ep_conn me)) \<in> wire_acks peer
     \<and> sacked_keys (ep_conn me) \<subseteq> wire_sacks peer"

definition healthy :: "endpoint \<Rightarrow> bool" where
  "healthy e \<longleftrightarrow> conn_wf (ep_conn e) \<and> timed (ep_conn e) \<and> pumped (ep_conn e)"

definition pair_inv :: "endpoint \<Rightarrow> endpoint \<Rightarrow> bool" where
  "pair_inv me peer \<longleftrightarrow> ep_inv me peer \<and> ep_inv peer me \<and> healthy me \<and> healthy peer
    \<and> (\<exists>K KP. ep_cuts K KP me peer \<and> ep_cuts KP K peer me \<and> told K me peer \<and> told KP peer me)"

definition recovery_inv :: "link \<Rightarrow> bool" where
  "recovery_inv l \<longleftrightarrow> pair_inv (client l) (server l)"

lemma pair_inv_sym: "pair_inv me peer \<Longrightarrow> pair_inv peer me"
  unfolding pair_inv_def by blast

section \<open>One step of one endpoint\<close>

fun event_acks :: "event \<Rightarrow> nat set" where
  "event_acks (Datagram now d) = acks_of d"
| "event_acks _ = {}"

fun event_sacks :: "event \<Rightarrow> nat set" where
  "event_sacks (Datagram now d) = sacks_of d"
| "event_sacks _ = {}"

lemma ep_exec_flow:
  assumes "healthy e" and "ep_exec e ev = Some e'"
  obtains out where "flow (event_acks ev) (event_sacks ev) (ep_conn e) (ep_conn e')" "healthy e'"
    "ep_wire e' = ep_wire e @ out" "\<forall>d \<in> set out. headed (ep_conn e) d \<or> headed (ep_conn e') d"
proof -
  have p: "pumped (ep_conn e)" using assms(1) by (simp add: healthy_def)
  let ?A = "event_acks ev" and ?X = "event_sacks ev"
  have "\<exists>out. flow ?A ?X (ep_conn e) (ep_conn e') \<and> pumped (ep_conn e') \<and> ep_wire e' = ep_wire e @ out
    \<and> (\<forall>d \<in> set out. headed (ep_conn e) d \<or> headed (ep_conn e') d)"
  proof (cases "ev = Recv")
    case True
    have "flow ?A ?X (ep_conn e) (fst (conn_recv (ep_conn e)))"
      by (rule flow_same) (simp_all add: conn_recv_def)
    with True assms(2) p show ?thesis by (auto simp: conn_recv_def pumped_def)
  next
    case False
    then obtain r e1 where r: "ep_emit e1 r = Some e'" "ep_wire e1 = ep_wire e" "op_flow ?A ?X (ep_conn e) r"
      using assms(2) conn_send_flow conn_close_flow on_tick_flow [OF p] on_datagram_flow [OF p]
      by (cases ev) auto
    then show ?thesis by (auto simp: ep_emit_def op_flow_def)
  qed
  then obtain out where out: "flow ?A ?X (ep_conn e) (ep_conn e')" "pumped (ep_conn e')"
    "ep_wire e' = ep_wire e @ out" "\<forall>d \<in> set out. headed (ep_conn e) d \<or> headed (ep_conn e') d" by blast
  moreover have "conn_wf (ep_conn e')" using ep_exec_typed [OF _ assms(2)] assms(1) by (simp add: healthy_def)
  ultimately have "healthy e'" using assms(1) by (simp add: healthy_def flow_def)
  with out that show thesis by blast
qed

text \<open>The sender takes a step: what it has been told of its old cuts holds of the new ones too, which
  lie beyond everything the peer has acked.\<close>

lemma told_sender:
  assumes told: "told K me peer" and next': "unat (c_next_seq (ep_conn me)) \<in> K"
    and ext: "extends K K'" and mono: "c_next_seq (ep_conn me) \<le> c_next_seq (ep_conn me')"
    and flow: "flow A X (ep_conn me) (ep_conn me')" and "A \<subseteq> wire_acks peer" and "X \<subseteq> wire_sacks peer"
  shows "told K' me' peer"
proof -
  have "x < unat (c_next_seq (ep_conn me')) \<and> (x \<in> K' \<longrightarrow> x \<in> rcv_got (ep_conn peer) - wire_acks peer)"
    if x: "x \<in> wire_sacks peer" for x
  proof -
    have lt: "x < unat (c_next_seq (ep_conn me))" and "x \<in> K \<longrightarrow> x \<in> rcv_got (ep_conn peer) - wire_acks peer"
      using told x by (auto simp: told_def)
    moreover have "x \<in> K" if "x \<in> K'"
      using ext next' lt that unfolding extends_def by (meson DiffI not_less_iff_gr_or_eq)
    ultimately show ?thesis using mono by (auto simp: word_le_nat_alt)
  qed
  moreover have "unat (c_send_base (ep_conn me')) \<in> wire_acks peer" "sacked_keys (ep_conn me') \<subseteq> wire_sacks peer"
    using told flow assms(6,7) by (auto simp: told_def flow_def)
  ultimately show ?thesis unfolding told_def by blast
qed

lemma expected_not_got: "rcv_cuts K c \<Longrightarrow> unat (c_expected_seq c) \<notin> rcv_got c"
  by (fastforce simp: rcv_cuts_def rcv_got_def word_less_nat_alt)

text \<open>The receiver takes a step: it emits headers of its receive side before and after. Its expected
  byte is at neither moment a received cut, and its selective acks lie beyond it.\<close>

lemma told_receiver:
  assumes told: "told K me peer"
    and rcv: "recv_ok R P (ep_conn peer)" "rcv_cuts K (ep_conn peer)"
    and rcv': "recv_ok R' P (ep_conn peer')" "rcv_cuts K (ep_conn peer')"
    and P: "length P = unat (c_next_seq (ep_conn me))"
    and got: "rcv_got (ep_conn peer) \<subseteq> rcv_got (ep_conn peer')"
    and mono: "unat (c_expected_seq (ep_conn peer)) \<le> unat (c_expected_seq (ep_conn peer'))"
    and old: "\<forall>a \<in> wire_acks peer. a \<le> unat (c_expected_seq (ep_conn peer))"
    and wire: "ep_wire peer' = ep_wire peer @ out"
    and hd: "\<forall>d \<in> set out. headed (ep_conn peer) d \<or> headed (ep_conn peer') d"
  shows "told K me peer'"
proof -
  let ?e = "unat (c_expected_seq (ep_conn peer))" and ?e' = "unat (c_expected_seq (ep_conn peer'))"
  have acks: "wire_acks peer' \<subseteq> wire_acks peer \<union> {?e, ?e'}" "wire_acks peer \<subseteq> wire_acks peer'"
    using headed_acks hd by (fastforce simp: wire_acks_def wire)+
  have ne: "?e \<notin> rcv_got (ep_conn peer)" "?e' \<notin> rcv_got (ep_conn peer')"
    using rcv(2) rcv'(2) by (simp_all add: expected_not_got)
  have new: "x < length P \<and> (x \<in> K \<longrightarrow> x \<in> rcv_got (ep_conn peer')
      \<and> (x \<in> rcv_got (ep_conn peer) \<and> ?e < x \<or> ?e' < x))" if d: "d \<in> set out" "x \<in> sacks_of d" for d x
  proof -
    have bound: "y < length P" if "recv_ok R0 P c" "y \<in> sack_cover (current_sack_ranges c)" for R0 c y
      using that sack_ranges_cover [of "c_recv_buffer c" P y MAX_SACK_RANGES] chunk_ok_bound
      unfolding recv_ok_def current_sack_ranges_def by fastforce
    consider "x \<in> sack_cover (current_sack_ranges (ep_conn peer))"
      | "x \<in> sack_cover (current_sack_ranges (ep_conn peer'))"
      using hd d headed_sacks by blast
    then show ?thesis
    proof cases
      case 1
      then show ?thesis using bound [OF rcv(1)] sacks_received [OF rcv 1] got by auto
    next
      case 2
      then show ?thesis using bound [OF rcv'(1)] sacks_received [OF rcv' 2] by auto
    qed
  qed
  have "x < unat (c_next_seq (ep_conn me)) \<and> (x \<in> K \<longrightarrow> x \<in> rcv_got (ep_conn peer') - wire_acks peer')"
    if x: "x \<in> wire_sacks peer'" for x
  proof -
    consider "x \<in> wire_sacks peer" | d where "d \<in> set out" "x \<in> sacks_of d"
      using x by (auto simp: wire_sacks_def wire)
    then show ?thesis
    proof cases
      case 1
      then show ?thesis using told acks(1) ne got unfolding told_def by blast
    next
      case 2
      then have "x \<in> K \<longrightarrow> x \<notin> wire_acks peer'" using new [OF 2] acks(1) ne got old mono by fastforce
      with new [OF 2] P show ?thesis by auto
    qed
  qed
  moreover have "unat (c_send_base (ep_conn me)) \<in> wire_acks peer'" "sacked_keys (ep_conn me) \<subseteq> wire_sacks peer'"
    using told acks(2) by (auto simp: told_def wire_sacks_def wire)
  ultimately show ?thesis unfolding told_def by blast
qed

section \<open>The link\<close>

lemma undecodable:
  assumes "isl (frame_decode d)"
  shows "acks_of d = {}" "sacks_of d = {}"
  using assms by (auto simp: acks_of_def sacks_of_def decodes_def isl_def)

lemma enabled_told:
  assumes "enabled me peer ev"
  shows "event_acks ev \<subseteq> wire_acks peer" and "event_sacks ev \<subseteq> wire_sacks peer"
  using assms undecodable by (cases ev; force simp: wire_acks_def wire_sacks_def)+

lemma wire_acks_expected:
  assumes "ep_cuts K KP me peer"
  shows "\<forall>a \<in> wire_acks me. a \<le> unat (c_expected_seq (ep_conn me))"
  using assms by (auto simp: wire_acks_def ep_cuts_def cut_msg_def acks_of_def decodes_def)

lemma recovery_exec:
  assumes inv: "ep_inv me peer" "ep_inv peer me" and "healthy me"
    and cuts: "ep_cuts K KP me peer" "ep_cuts KP K peer me"
    and told: "told K me peer" "told KP peer me"
    and ev: "enabled me peer ev" "polite me ev" "ep_exec me ev = Some me'"
  shows "\<exists>K'. ep_cuts K' KP me' peer \<and> ep_cuts KP K' peer me' \<and> told K' me' peer \<and> told KP peer me'
    \<and> healthy me'"
proof -
  obtain K' where K': "ep_cuts K' KP me' peer" "ep_cuts KP K' peer me'"
    "view_le (view_of K (ep_conn me)) (view_of K' (ep_conn me'))"
    using ep_exec_cuts [OF inv cuts ev] by blast
  obtain out where flow: "flow (event_acks ev) (event_sacks ev) (ep_conn me) (ep_conn me')" "healthy me'"
    and out: "ep_wire me' = ep_wire me @ out" "\<forall>d \<in> set out. headed (ep_conn me) d \<or> headed (ep_conn me') d"
    using ep_exec_flow [OF assms(3) ev(3)] by metis
  have inv': "ep_inv me' peer" using ep_exec_ok [OF inv ev(1)] ev(3) by (metis option.inject)
  have view: "extends K K'" "rcv_got (ep_conn me) \<subseteq> rcv_got (ep_conn me')"
    "unat (c_expected_seq (ep_conn me)) \<le> unat (c_expected_seq (ep_conn me'))"
    using K'(3) by (simp_all add: view_le_def)
  have nxt: "unat (c_next_seq (ep_conn me)) \<in> K" "unat (c_next_seq (ep_conn me')) \<in> K'"
    and le: "\<forall>x \<in> K'. x \<le> unat (c_next_seq (ep_conn me'))"
    and rcv: "rcv_cuts KP (ep_conn me)" "rcv_cuts KP (ep_conn me')"
    using cuts(1) K'(1) by (simp_all add: ep_cuts_def cut_inv_def snd_cuts_def)
  have "c_next_seq (ep_conn me) \<le> c_next_seq (ep_conn me')"
    using nxt(1) le view(1) by (auto simp: extends_def word_le_nat_alt)
  then have "told K' me' peer"
    using told_sender [OF told(1) nxt(1) view(1) _ flow(1) enabled_told [OF ev(1)]] by blast
  moreover have "told KP peer me'"
  proof (rule told_receiver [OF told(2) _ rcv(1) _ rcv(2) _ view(2,3) wire_acks_expected [OF cuts(1)] out])
    show "recv_ok (ep_recvd me) (ep_tx peer) (ep_conn me)" "recv_ok (ep_recvd me') (ep_tx peer) (ep_conn me')"
      using inv(1) inv' by (simp_all add: ep_inv_def conn_inv_def)
    show "length (ep_tx peer) = unat (c_next_seq (ep_conn peer))"
      using inv(2) by (simp add: ep_inv_def conn_inv_def ep_tx_def length_tx)
  qed
  ultimately show ?thesis using K'(1,2) flow(2) by blast
qed

lemma pair_exec:
  assumes "pair_inv me peer" and "enabled me peer ev" and "polite me ev" and "ep_exec me ev = Some me'"
  shows "pair_inv me' peer"
proof -
  obtain K KP where inv: "ep_inv me peer" "ep_inv peer me" "healthy me" "healthy peer"
    "ep_cuts K KP me peer" "ep_cuts KP K peer me" "told K me peer" "told KP peer me"
    using assms(1) by (auto simp: pair_inv_def)
  moreover have "ep_inv me' peer" "ep_inv peer me'"
    using ep_exec_ok [OF inv(1,2) assms(2)] assms(4) by (metis option.inject)+
  ultimately show ?thesis
    using recovery_exec [OF inv(1-3,5-8) assms(2-4)] unfolding pair_inv_def by blast
qed

lemma pair_exec_Some:
  assumes "pair_inv me peer" and "enabled me peer ev" and "polite me ev"
  obtains me' where "ep_exec me ev = Some me'" "pair_inv me' peer"
  using assms pair_exec [OF assms] ep_exec_ok [of me peer ev] unfolding pair_inv_def by metis

lemma recovery_inv_init:
  assumes "link_init cfg cfg' l"
  shows "recovery_inv l"
proof -
  obtain t t' where l: "l = \<lparr>client = ep_client cfg t, server = ep_server cfg' t'\<rparr>"
    using assms by (auto simp: link_init_def)
  have "conn_wf (ep_conn (client l))" "conn_wf (ep_conn (server l))"
    using conn_start_wf conn_start.intros by (simp_all add: l)
  then have healthy: "healthy (client l)" "healthy (server l)"
    by (simp_all add: healthy_def timed_def pumped_def l ep_client_def ep_server_def conn_connect_def
        conn_listen_def blank_def rto_new_def Let_def)
  have fields: "c_send_base (ep_conn (client l)) = 0" "c_send_base (ep_conn (server l)) = 0"
    "c_unacked (ep_conn (client l)) = []" "c_unacked (ep_conn (server l)) = []" "ep_wire (server l) = []"
    by (simp_all add: l ep_client_def ep_server_def conn_connect_def conn_listen_def blank_def Let_def)
  have "sacks_of d = {}" if "d \<in> set (ep_wire (client l))" for d
  proof -
    have "headed (fst (conn_connect cfg t)) d" "current_sack_ranges (fst (conn_connect cfg t)) = []"
      using that by (simp_all add: l ep_client_def conn_connect_def Let_def current_sack_ranges_def blank_def)
    then show ?thesis using headed_sacks by (fastforce simp: sack_cover_def)
  qed
  then have told: "told K (client l) (server l)" "told K (server l) (client l)" for K
    by (simp_all add: told_def wire_sacks_def wire_acks_def sacked_keys_def fields)
  show ?thesis
    using close_inv_init [OF assms] healthy told
    unfolding recovery_inv_def pair_inv_def close_inv_def link_inv_def by blast
qed

lemma recovery_inv_step: "recovery_inv l \<Longrightarrow> polite_step l l' \<Longrightarrow> recovery_inv l'"
  by (erule polite_stepE) (auto simp: recovery_inv_def intro: pair_exec pair_exec [THEN pair_inv_sym] dest: pair_inv_sym)

interpretation recovery: invariant_system "link_init cfg cfg'" polite_step recovery_inv for cfg cfg'
  by unfold_locales (auto intro: recovery_inv_init recovery_inv_step)

section \<open>Selective acks are sound\<close>

lemma sacked_received:
  assumes "told K me peer" and "ep_cuts K KP me peer" and "p \<in> set (c_unacked (ep_conn me))"
    and "us_sacked (snd p)"
  shows "unat (fst p) \<in> rcv_got (ep_conn peer)" and "fst p \<noteq> c_send_base (ep_conn me)"
proof -
  have "unat (fst p) \<in> wire_sacks peer" using assms(1,3,4) unfolding told_def sacked_keys_def by blast
  moreover have "unat (fst p) \<in> K"
    using assms(2,3) by (auto simp: ep_cuts_def cut_inv_def snd_cuts_def piece_def)
  ultimately show "unat (fst p) \<in> rcv_got (ep_conn peer)" and "fst p \<noteq> c_send_base (ep_conn me)"
    using assms(1) by (auto simp: told_def)
qed

end
