(* ===== verification/Transport_Props.thy ===== *)
theory Transport_Props
  imports Close
begin

text \<open>
  Behaviour of one connection at its edges: the inputs and configurations on which a method does
  not return, the admission of data against the window, and giving up on a silent peer.
\<close>

section \<open>Methods that do not return\<close>

lemma mark_sacked_None_iff: "mark_sacked b rs m = None \<longleftrightarrow> b \<and> (\<exists>r \<in> set rs. sr_end r < sr_start r)"
  by (induction b rs m rule: mark_sacked.induct) auto

text \<open>C38. A pure ack whose header carries an inverted selective-ack range, which the header decoder
  accepts, panics an open connection in \<open>BTreeMap::range_mut\<close> once the connection has sent any data (so
  that its map of unacknowledged segments has a root node), unless the ack repeats the last one.\<close>

theorem inverted_sack_panics:
  assumes "c_state c = Established \<or> c_state c = Closing" and "unacked_rooted c"
    and "h_ack h \<noteq> c_send_base c" and "length (h_sack h) \<le> MAX_SACK_RANGES" and "r \<in> set (h_sack h)" and "sr_end r < sr_start r"
  shows "on_datagram c now (encode_frame seq FLAG_ACK (segment_encode h [])) = None"
proof -
  have "mark_sacked True (h_sack h) m = None" for m using assms(5,6) mark_sacked_None_iff by blast
  then have "apply_ack c' h = None" if "c_send_base c' = c_send_base c" "c_stats c' = c_stats c" for c'
    using assms(2,3) that by (simp add: apply_ack_def apply_sack_fin_def ack_progress_def unacked_rooted_def Let_def)
  then show ?thesis
    using assms(1) by (auto simp: on_datagram_bare [OF assms(4)] on_segment_def handshake_dispatch_def
        process_segment_def flag_defs Let_def)
qed

definition open_conn :: "config \<Rightarrow> conn" where
  "open_conn cfg = blank cfg ZERO Established"

theorem inverted_sack_panics_witness:
  "\<exists>c out. conn_send (open_conn default_config) (Tick 2) [7] = Some (c, out)
     \<and> on_datagram c (Tick 4) (encode_frame 0 FLAG_ACK
         (segment_encode \<lparr>h_ack = 1, h_fin_ack = False, h_window = 9,
            h_sack = [\<lparr>sr_start = 5, sr_end = 3\<rparr>]\<rparr> [])) = None"
proof -
  have "\<exists>c out. conn_send (open_conn default_config) (Tick 2) [7] = Some (c, out)
      \<and> c_state c = Established \<and> c_send_base c = 0 \<and> unacked_rooted c"
    by (simp add: open_conn_def run_simps unacked_rooted_def)
  then obtain c out where c: "conn_send (open_conn default_config) (Tick 2) [7] = Some (c, out)"
    "c_state c = Established" "c_send_base c = 0" "unacked_rooted c" by blast
  have "on_datagram c (Tick 4) (encode_frame 0 FLAG_ACK (segment_encode \<lparr>h_ack = 1, h_fin_ack = False,
      h_window = 9, h_sack = [\<lparr>sr_start = 5, sr_end = 3\<rparr>]\<rparr> [])) = None"
    by (rule inverted_sack_panics [where r = "\<lparr>sr_start = 5, sr_end = 3\<rparr>"])
      (use c in \<open>simp_all add: segment_consts\<close>)
  with c(1) show ?thesis by blast
qed

lemma in_flight_insert_empty:
  assumes "us_data s = []" and "\<forall>p \<in> set m. fst p = k \<longrightarrow> us_data (snd p) = []"
  shows "sum_list (map (\<lambda>(_, s). word_of_nat (length (us_data s))) (bt_insert k s m))
    = (sum_list (map (\<lambda>(_, s). word_of_nat (length (us_data s))) m) :: u32)"
  using assms by (induction k s m rule: bt_insert.induct) auto

definition stuck :: "conn \<Rightarrow> bool" where
  "stuck c \<longleftrightarrow> segment_size (c_config c) = 0 \<and> c_send_queue c \<noteq> [] \<and> admission_cap c \<noteq> 0
     \<and> (\<forall>p \<in> set (c_unacked c). fst p = c_next_seq c \<longrightarrow> us_data (snd p) = [])"

lemma stuck_step: "stuck c \<Longrightarrow> stuck (fst (admit_chunk c))"
  using set_bt_insert_subset [of "c_next_seq c"]
  by (fastforce simp: stuck_def admit_chunk_def Let_def admission_cap_def in_flight_bytes_def
      effective_window_def in_flight_insert_empty)

lemma admit_loop_stuck: "stuck c \<Longrightarrow> admit_loop c out = None"
proof (rule ccontr)
  assume "stuck c" and "admit_loop c out \<noteq> None"
  then obtain r where "admit_loop c out = Some r" by blast
  then have "\<not> stuck c"
  proof (rule admit_loop.raw_induct [where P = "\<lambda>c _ _. \<not> stuck c", rotated])
    fix rec :: "conn \<Rightarrow> bytes list \<Rightarrow> (conn \<times> bytes list) option" and c out r
    assume IH: "\<And>c out r. rec c out = Some r \<Longrightarrow> \<not> stuck c"
      and eq: "(if c_send_queue c = [] then Some (c, out) else if admission_cap c = 0 then Some (c, out)
        else case admit_chunk c of (c', d) \<Rightarrow> rec c' (out @ [d])) = Some r"
    show "\<not> stuck c"
    proof
      assume st: "stuck c"
      obtain c' d where a: "admit_chunk c = (c', d)" by fastforce
      from st eq have "rec c' (out @ [d]) = Some r" by (simp add: a stuck_def)
      with IH stuck_step [OF st] show False by (auto simp: a)
    qed
  qed
  with \<open>stuck c\<close> show False by simp
qed

text \<open>C39. With \<open>segment_size = 0\<close> the first \<open>send\<close> of a non-empty slice on an idle open connection
  never returns: the admission loop takes empty chunks for ever.\<close>

theorem zero_segment_size_hangs:
  assumes "segment_size (c_config c) = 0" and "c_state c = Established \<or> c_state c = Closing"
    and "c_unacked c = []" and "data \<noteq> []"
  shows "conn_send c now data = None"
proof -
  define c1 where "c1 = c\<lparr>c_now := max (c_now c) now, c_send_queue := c_send_queue c @ data,
       c_stats := (c_stats c)\<lparr>bytes_sent_app :=
         bytes_sent_app (c_stats c) + word_of_nat (length data)\<rparr>\<rparr>"
  have "max a (1 :: u32) \<noteq> 0" for a by (metis max.cobounded2 word_le_0_iff zero_neq_one)
  then have "stuck c1"
    using assms by (simp add: stuck_def c1_def admission_cap_def in_flight_bytes_def Let_def)
  then show ?thesis
    using assms(2)
    by (simp add: conn_send_def c1_def [symmetric] drain_and_maybe_fin_def try_send_more_def
        admit_loop_stuck) (auto simp: c1_def)
qed

theorem zero_segment_size_hangs_witness:
  "conn_send (open_conn (default_config\<lparr>segment_size := 0\<rparr>)) (Tick 4) [1, 2] = None"
  by (rule zero_segment_size_hangs) (simp_all add: open_conn_def blank_def default_config_def)

section \<open>The send window\<close>

lemma in_flight_insert:
  assumes "\<forall>p \<in> set m. fst p < k"
  shows "sum_list (map (\<lambda>(_, s). word_of_nat (length (us_data s))) (bt_insert k s m))
    = sum_list (map (\<lambda>(_, s). word_of_nat (length (us_data s))) m)
      + (word_of_nat (length (us_data s)) :: u32)"
  using assms by (induction k s m rule: bt_insert.induct) (auto simp: algebra_simps)

lemma admit_chunk_window:
  assumes "conn_inv S R P c" and "admit_chunk c = (c', d)"
  shows "in_flight_bytes c' \<le> max (in_flight_bytes c) (max (effective_window c) 1)"
    and "effective_window c' = effective_window c"
proof -
  define n where "n = min (min (segment_size (c_config c)) (length (c_send_queue c)))
    (unat (admission_cap c))"
  define seg where "seg = \<lparr>us_data = take n (c_send_queue c), us_sent_at = c_now c,
    us_retransmit_count = 0, us_sacked = False\<rparr>"
  have "c_unacked c' = bt_insert (c_next_seq c) seg (c_unacked c)"
    using assms(2) by (auto simp: admit_chunk_def Let_def n_def seg_def)
  moreover have "length (us_data seg) = n" by (simp add: seg_def n_def)
  ultimately have flight: "in_flight_bytes c' = in_flight_bytes c + word_of_nat n"
    using unacked_below_next [OF assms(1)] in_flight_insert [of "c_unacked c" "c_next_seq c" seg]
    by (simp add: in_flight_bytes_def)
  have cap: "n \<le> unat (admission_cap c)" by (simp add: n_def)
  have wn: "unat (word_of_nat n :: u32) = n"
    using cap unat_less_exp [of "admission_cap c"] by (simp add: unat_of_nat)
  show "in_flight_bytes c' \<le> max (in_flight_bytes c) (max (effective_window c) 1)"
  proof (cases "in_flight_bytes c = 0")
    case True
    have "word_of_nat n \<le> max (effective_window c) 1"
      using cap wn True by (simp add: admission_cap_def Let_def word_le_nat_alt sat_sub_def)
    then show ?thesis by (simp add: flight True max.coboundedI2)
  next
    case False
    then have "n \<le> unat (effective_window c) - unat (in_flight_bytes c)"
      using cap by (simp add: admission_cap_def Let_def unat_sat_sub)
    moreover from this have "unat (in_flight_bytes c + word_of_nat n) = unat (in_flight_bytes c) + n"
      using unat_less_exp [of "effective_window c"] wn
      by (cases "n = 0") (simp_all add: unat_word_ariths)
    ultimately have "in_flight_bytes c' \<le> max (in_flight_bytes c) (effective_window c)"
      unfolding le_max_iff_disj by (cases "n = 0") (auto simp: flight word_le_nat_alt)
    then show ?thesis by (auto simp: le_max_iff_disj)
  qed
  show "effective_window c' = effective_window c"
    using assms(2) by (auto simp: admit_chunk_def Let_def effective_window_def)
qed

lemma admit_loop_window:
  assumes "conn_inv S R P c" and "admit_loop c out = Some (c', out')"
  shows "in_flight_bytes c' \<le> max (in_flight_bytes c) (max (effective_window c) 1)"
  using assms
proof (induction "length (c_send_queue c)" arbitrary: c out rule: less_induct)
  case less
  show ?case
  proof (cases "c_send_queue c = [] \<or> admission_cap c = 0")
    case True
    then have "c' = c" using less.prems(2) by (subst (asm) admit_loop.simps) (auto split: if_splits)
    then show ?thesis by simp
  next
    case False
    obtain c1 d where step: "admit_chunk c = (c1, d)" by fastforce
    note A = admit_chunk_inv [OF less.prems(1) _ _ step] and W = admit_chunk_window [OF less.prems(1) step]
    have "admit_loop c1 (out @ [d]) = Some (c', out')"
      using less.prems(2) False step by (subst (asm) admit_loop.simps) simp
    then have "in_flight_bytes c' \<le> max (in_flight_bytes c1) (max (effective_window c1) 1)"
      using less.hyps [OF A(4) A(1)] False by blast
    with W show ?thesis by (auto simp: le_max_iff_disj intro: order_trans)
  qed
qed

text \<open>C34. Admission respects the window: whatever the state, \<open>try_send_more\<close> leaves at most
  \<open>effective_window\<close> bytes in flight, or one byte (the zero-window probe), or what already was in
  flight.\<close>

theorem admission_within_window:
  assumes "conn_inv S R P c" and "try_send_more c = Some (c', out)"
  shows "in_flight_bytes c' \<le> max (in_flight_bytes c) (max (effective_window c') 1)
    \<and> effective_window c' = effective_window c"
proof -
  obtain c1 o1 where "try_send_more c = Some (c1, o1)" "same_but_send c c1"
    using try_send_more_ok [OF assms(1)] by metis
  then have same: "effective_window c' = effective_window c"
    using assms(2) by (simp add: effective_window_def same_but_send_def)
  have "in_flight_bytes c' \<le> max (in_flight_bytes c) (max (effective_window c) 1)"
  proof (cases "c_state c \<noteq> Established \<and> c_state c \<noteq> Closing")
    case True
    then have "c' = c" using assms(2) by (simp add: try_send_more_def)
    then show ?thesis by simp
  next
    case False
    then have "admit_loop c [] = Some (c', out)" using assms(2) by (auto simp: try_send_more_def)
    then show ?thesis by (rule admit_loop_window [OF assms(1)])
  qed
  with same show ?thesis by simp
qed

definition small_config :: config where
  "small_config = \<lparr>segment_size = 2, recv_window_capacity = 64, min_rto = 2, max_rto = 50,
     max_retries = 3, fast_retransmit_dup_acks = 3\<rparr>"

definition busy_conn :: conn where
  "busy_conn = (blank small_config ZERO Established)\<lparr>c_send_queue := [1, 2, 3, 4, 5, 6],
     c_peer_window := 64\<rparr>"

lemma busy_conn_inv: "conn_inv [1, 2, 3, 4, 5, 6] [] [] busy_conn"
  by (simp add: conn_inv_defs busy_conn_def blank_def small_config_def rto_new_def rto_ok_def)

theorem admission_within_window_witness:
  "\<exists>c' out. try_send_more busy_conn = Some (c', out) \<and> length out = 2
     \<and> in_flight_bytes c' \<le> max (in_flight_bytes busy_conn) (max (effective_window c') 1)"
proof -
  have "\<exists>c' out. try_send_more busy_conn = Some (c', out) \<and> length out = 2"
    by (simp add: busy_conn_def small_config_def run_simps)
  then show ?thesis using admission_within_window [OF busy_conn_inv] by blast
qed

text \<open>Outside admission the window can be exceeded: there is a reachable connection, just after
  a retransmission timeout, with more bytes in flight than its \<open>effective_window\<close>.\<close>

definition timeout_run :: "(bool \<times> action) list" where
  "timeout_run =
    [(False, Deliver (Tick 3) 0), (True, Deliver (Tick 5) 0),
     (True, Call (Send (Tick 5) [1, 2, 3, 4])), (True, Call (OnTick (Tick 300)))]"

theorem in_flight_exceeds_window:
  "\<exists>l. link_reachable small_config small_config l
     \<and> effective_window (ep_conn (client l)) < in_flight_bytes (ep_conn (client l))"
proof -
  have "\<exists>l. link_run (start small_config) timeout_run = Some l
     \<and> effective_window (ep_conn (client l)) < in_flight_bytes (ep_conn (client l))"
    by (simp add: run_simps timeout_run_def small_config_def) auto
  moreover have "config_ok small_config" by (simp add: config_ok_def small_config_def)
  ultimately show ?thesis using link_run_reachable start_reachable by blast
qed

section \<open>Connections that have ended\<close>

text \<open>
  Neither \<open>Closed\<close> nor \<open>Failed\<close> is ever left, whatever is called: bytes given to \<open>send\<close> pile up in the
  queue, and the only datagram still emitted is the answer of a closed connection to a late FIN.
\<close>

fun event_data :: "event \<Rightarrow> bytes" where
  "event_data (Send now data) = data"
| "event_data _ = []"

definition ended :: "conn \<Rightarrow> bool" where
  "ended c \<longleftrightarrow> is_closed c \<or> failure c \<noteq> None"

definition fin_answer :: "bytes \<Rightarrow> bool" where
  "fin_answer d \<longleftrightarrow> (\<exists>c. is_closed c \<and> d = build_pure_ack c True)"

lemma ended_drain: "ended c \<Longrightarrow> drain_and_maybe_fin c = Some (c, [])"
  by (cases "c_state c") (simp_all add: ended_def is_closed_def failure_def drain_and_maybe_fin_def
      try_send_more_def maybe_send_fin_def check_fully_closed_def)

lemma ended_segment:
  assumes "ended c"
  obtains out where "on_segment c f h p = Some (c\<lparr>c_peer_window := h_window h\<rparr>, out)" "\<forall>d \<in> set out. fin_answer d"
proof -
  let ?c = "c\<lparr>c_peer_window := h_window h\<rparr>"
  have none: "handshake_dispatch ?c b b' = Inr (?c, [])" "c_state c \<noteq> Established" "c_state c \<noteq> Closing" for b b'
    using assms by (cases "c_state c"; simp add: handshake_dispatch_def ended_def is_closed_def failure_def)+
  show thesis
  proof (cases "c_state c = Closed \<and> flags f AND FLAG_FIN \<noteq> 0")
    case True
    then have "is_closed ?c" by (simp add: is_closed_def)
    then have "fin_answer (build_pure_ack ?c True)" unfolding fin_answer_def by blast
    with True show ?thesis using that [of "[build_pure_ack ?c True]"] by (simp add: on_segment_def Let_def)
  next
    case False
    then show ?thesis using that [of "[]"] none by (simp add: on_segment_def Let_def)
  qed
qed

lemma ended_exec:
  assumes "ended (ep_conn e)"
  obtains e' out where "ep_exec e ev = Some e'" "c_state (ep_conn e') = c_state (ep_conn e)"
    "ep_sent e' = ep_sent e @ event_data ev" "c_send_queue (ep_conn e') = c_send_queue (ep_conn e) @ event_data ev"
    "ep_wire e' = ep_wire e @ out" "\<forall>d \<in> set out. fin_answer d"
proof (cases ev)
  case (Send now data)
  have "ended ((ep_conn e)\<lparr>c_now := t, c_send_queue := q, c_stats := st\<rparr>)" for t q st
    using assms by (simp add: ended_def is_closed_def failure_def)
  then show ?thesis using Send that [of _ "[]"] by (simp add: conn_send_def ended_drain ep_emit_def)
next
  case (Close now)
  have "ended ((ep_conn e)\<lparr>c_now := t, c_close_requested := b\<rparr>)" for t b
    using assms by (simp add: ended_def is_closed_def failure_def)
  then show ?thesis using Close that [of _ "[]"] by (simp add: conn_close_def ended_drain ep_emit_def)
next
  case Recv
  then show ?thesis using that [of _ "[]"] by (simp add: conn_recv_def)
next
  case (OnTick now)
  then show ?thesis
    using that [of _ "[]"] assms
    by (cases "c_state (ep_conn e)") (simp_all add: on_tick_def Let_def ep_emit_def ended_def is_closed_def failure_def)
next
  case (Datagram now d)
  let ?c = "(ep_conn e)\<lparr>c_now := max (c_now (ep_conn e)) now\<rparr>"
  have "ended ?c" using assms by (simp add: ended_def is_closed_def failure_def)
  note seg = ended_segment [OF this]
  have "\<exists>w out. on_datagram (ep_conn e) now d = Some (?c\<lparr>c_peer_window := w\<rparr>, out) \<and> (\<forall>d \<in> set out. fin_answer d)"
  proof (cases "\<exists>f h p. frame_decode d = Inr f \<and> segment_decode (payload f) = Some (h, p)")
    case True
    then obtain f h p where dec: "frame_decode d = Inr f" "segment_decode (payload f) = Some (h, p)" by blast
    show ?thesis by (rule seg [of f h p]) (auto simp: on_datagram_def Let_def dec)
  next
    case False
    then have "on_datagram (ep_conn e) now d = Some (?c, [])"
      by (auto simp: on_datagram_def Let_def split: sum.split option.split)
    moreover have "?c = ?c\<lparr>c_peer_window := c_peer_window (ep_conn e)\<rparr>" by simp
    ultimately show ?thesis by (metis empty_iff empty_set)
  qed
  then show ?thesis using Datagram that by (auto simp: ep_emit_def)
qed

lemma ended_run:
  "ended (ep_conn e) \<Longrightarrow> \<exists>e' out. ep_run e evs = Some e' \<and> c_state (ep_conn e') = c_state (ep_conn e)
     \<and> ep_sent e' = ep_sent e @ concat (map event_data evs)
     \<and> c_send_queue (ep_conn e') = c_send_queue (ep_conn e) @ concat (map event_data evs)
     \<and> ep_wire e' = ep_wire e @ out \<and> (\<forall>d \<in> set out. fin_answer d)"
proof (induction evs arbitrary: e)
  case (Cons ev evs)
  obtain e1 out1 where e1: "ep_exec e ev = Some e1" "c_state (ep_conn e1) = c_state (ep_conn e)"
    "ep_sent e1 = ep_sent e @ event_data ev" "c_send_queue (ep_conn e1) = c_send_queue (ep_conn e) @ event_data ev"
    "ep_wire e1 = ep_wire e @ out1" "\<forall>d \<in> set out1. fin_answer d"
    by (rule ended_exec [OF Cons.prems])
  have "ended (ep_conn e1)" using Cons.prems e1(2) by (simp add: ended_def is_closed_def failure_def)
  from Cons.IH [OF this] obtain e' out where "ep_run e1 evs = Some e'" "c_state (ep_conn e') = c_state (ep_conn e1)"
    "ep_sent e' = ep_sent e1 @ concat (map event_data evs)"
    "c_send_queue (ep_conn e') = c_send_queue (ep_conn e1) @ concat (map event_data evs)"
    "ep_wire e' = ep_wire e1 @ out" "\<forall>d \<in> set out. fin_answer d" by blast
  then show ?case using e1 by (intro exI [of _ e'] exI [of _ "out1 @ out"]) auto
qed simp

text \<open>C40. \<open>send\<close> does not refuse bytes after the connection is closed: a closed connection takes them
  without a panic, and whatever is called and whatever arrives afterwards, it stays closed, the bytes
  stay in its send queue, and it puts nothing on the wire but answers to a late FIN, which carry no data.\<close>

theorem late_send_lost:
  assumes "is_closed (ep_conn e)"
  shows "\<exists>e' out. ep_run e (Send now data # evs) = Some e' \<and> is_closed (ep_conn e')
    \<and> ep_sent e' = ep_sent e @ data @ concat (map event_data evs)
    \<and> c_send_queue (ep_conn e') = c_send_queue (ep_conn e) @ data @ concat (map event_data evs)
    \<and> ep_wire e' = ep_wire e @ out \<and> (\<forall>d \<in> set out. \<exists>c. d = build_pure_ack c True)"
proof -
  have "ended (ep_conn e)" using assms by (simp add: ended_def)
  from ended_run [OF this, of "Send now data # evs"] show ?thesis
    using assms by (fastforce simp: is_closed_def fin_answer_def simp del: ep_run.simps)
qed

theorem late_send_lost_witness:
  "\<exists>l e'. link_reachable default_config default_config l
     \<and> is_closed (ep_conn (client l)) \<and> is_closed (ep_conn (server l)) \<and> c_delivered (ep_conn (server l)) = [7, 8]
     \<and> ep_run (client l) [Send (Tick 21) [9], OnTick (Tick 900)] = Some e'
     \<and> ep_sent e' = [7, 8, 9] \<and> c_send_queue (ep_conn e') = [9]"
proof -
  have "\<exists>l. link_run (start default_config) close_run = Some l \<and> is_closed (ep_conn (client l))
     \<and> is_closed (ep_conn (server l)) \<and> c_delivered (ep_conn (server l)) = [7, 8]
     \<and> ep_sent (client l) = [7, 8] \<and> c_send_queue (ep_conn (client l)) = []"
    by (simp add: run_simps close_run_def is_closed_def)
  then obtain l where l: "link_run (start default_config) close_run = Some l" "is_closed (ep_conn (client l))"
    "is_closed (ep_conn (server l))" "c_delivered (ep_conn (server l)) = [7, 8]" "ep_sent (client l) = [7, 8]"
    "c_send_queue (ep_conn (client l)) = []" by blast
  have "link_reachable default_config default_config l"
    using link_run_reachable start_reachable [OF default_config_ok] l(1) by blast
  with l late_send_lost [OF l(2), of "Tick 21" "[9]" "[OnTick (Tick 900)]"] show ?thesis
    by (auto simp del: ep_run.simps)
qed

section \<open>Giving up\<close>

text \<open>The driver of a connection whose peer stays silent: it calls \<open>on_tick\<close> at the given times.\<close>

fun tick_all :: "conn \<Rightarrow> tick list \<Rightarrow> (conn \<times> bytes list) option" where
  "tick_all c [] = Some (c, [])"
| "tick_all c (t # ts) =
    (case on_tick c t of
       None \<Rightarrow> None
     | Some (c1, out) \<Rightarrow> map_option (\<lambda>(c2, out'). (c2, out @ out')) (tick_all c1 ts))"

text \<open>Each tick comes at least \<open>gap\<close> after the one before.\<close>

fun spaced :: "u64 \<Rightarrow> tick \<Rightarrow> tick list \<Rightarrow> bool" where
  "spaced gap t [] \<longleftrightarrow> True"
| "spaced gap t (t' # ts) \<longleftrightarrow> unat (ticks t) + unat gap \<le> unat (ticks t') \<and> spaced gap t' ts"

lemma spaced_sub:
  assumes "unat (ticks t) + unat gap \<le> unat (ticks t')"
  shows "gap \<le> tick_sub (max t t') t" and "max t t' = t'"
proof -
  have "t \<le> t'" using assms by (simp add: less_eq_tick_def word_le_nat_alt)
  then show "max t t' = t'" by (simp add: max_def)
  then show "gap \<le> tick_sub (max t t') t"
    using assms by (simp add: tick_sub_def word_le_nat_alt unat_sat_sub)
qed

lemma rto_current_le_max:
  assumes "rto_ok e"
  obtains rto where "rto_current e = Some rto" "rto \<le> e_max_rto e"
  using rto_current_Some [of e] assms by (auto simp: rto_current_def rto_ok_def)

text \<open>A connection that last sent its SYN, for the \<open>k\<close>-th time, at its current tick.\<close>

definition waiting :: "nat \<Rightarrow> conn \<Rightarrow> bool" where
  "waiting k c \<longleftrightarrow> c_state c = SynSent \<and> rto_ok (c_rto c)
     \<and> e_max_rto (c_rto c) = max_rto (c_config c)
     \<and> (\<exists>h. c_handshake c = Some h \<and> pc_sent_at h = c_now c \<and> unat (pc_attempts h) = k)"

lemma waiting_tick:
  assumes "waiting k c" and "unat (ticks (c_now c)) + unat (max_rto (c_config c)) \<le> unat (ticks t)"
    and "unat (max_retries (c_config c)) < 2 ^ 32 - 1" and "k \<le> unat (max_retries (c_config c)) \<or> k = 1"
  obtains c' out where "on_tick c t = Some (c', out)" "c_now c' = t" "c_config c' = c_config c"
    "if k < unat (max_retries (c_config c))
     then waiting (Suc k) c' \<and> out = [build_syn c] \<and> build_syn c' = build_syn c
     else failure c' = Some TooManyRetries \<and> out = []"
proof -
  obtain h where h: "c_handshake c = Some h" "pc_sent_at h = c_now c" "unat (pc_attempts h) = k"
    using assms(1) by (auto simp: waiting_def)
  obtain rto where rto: "rto_current (c_rto c) = Some rto" "rto \<le> max_rto (c_config c)"
    using rto_current_le_max [of "c_rto c"] assms(1) by (auto simp: waiting_def)
  note sp = spaced_sub [OF assms(2)]
  have due: "rto \<le> tick_sub t (c_now c)" using rto(2) sp by simp
  have "k < 2 ^ 32 - 1" using assms(3,4) by auto
  then have inc: "unat (pc_attempts h + 1) = Suc k" using h(3) by (simp add: unat_word_ariths)
  define c1 where "c1 = c\<lparr>c_now := t, c_rto := on_timeout (c_rto c),
    c_handshake := Some \<lparr>pc_sent_at = t, pc_attempts = pc_attempts h + 1\<rparr>,
    c_stats := (c_stats c)\<lparr>control_retransmissions := control_retransmissions (c_stats c) + 1\<rparr>\<rparr>"
  have tick: "on_tick c t = (if k < unat (max_retries (c_config c)) then Some (c1, [build_syn c1])
      else Some (c\<lparr>c_now := t, c_state := Failed TooManyRetries, c_handshake := None\<rparr>, []))"
    using assms(1) h rto due sp(2) inc
    by (simp add: on_tick_def handshake_tick_def Let_def waiting_def word_less_nat_alt c1_def)
  show thesis
  proof (cases "k < unat (max_retries (c_config c))")
    case True
    have "waiting (Suc k) c1" using assms(1) inc by (simp add: waiting_def c1_def)
    moreover have "build_syn c1 = build_syn c"
      by (simp add: c1_def build_syn_def header_bytes_def conn_header_def advertised_window_def current_sack_ranges_def)
    ultimately show ?thesis using True that [of c1 "[build_syn c1]"] tick by (simp add: c1_def)
  next
    case False
    with tick show ?thesis
      using that [of "c\<lparr>c_now := t, c_state := Failed TooManyRetries, c_handshake := None\<rparr>" "[]"]
      by (simp add: failure_def)
  qed
qed

lemma waiting_gives_up:
  assumes "waiting k c" and "spaced (max_rto (c_config c)) (c_now c) ts"
    and "unat (max_retries (c_config c)) < 2 ^ 32 - 1" and "k \<le> unat (max_retries (c_config c)) \<or> k = 1"
    and "length ts = Suc (unat (max_retries (c_config c)) - k)"
  shows "\<exists>c' out. tick_all c ts = Some (c', out) \<and> failure c' = Some TooManyRetries
    \<and> out = replicate (unat (max_retries (c_config c)) - k) (build_syn c)"
  using assms
proof (induction ts arbitrary: k c)
  case (Cons t ts)
  let ?m = "unat (max_retries (c_config c))"
  obtain c1 out where t: "on_tick c t = Some (c1, out)" "c_now c1 = t" "c_config c1 = c_config c"
    "if k < ?m then waiting (Suc k) c1 \<and> out = [build_syn c] \<and> build_syn c1 = build_syn c
     else failure c1 = Some TooManyRetries \<and> out = []"
    using waiting_tick [OF Cons.prems(1) _ Cons.prems(3,4)] Cons.prems(2) by auto
  show ?case
  proof (cases "k < ?m")
    case True
    then have "?m - k = Suc (?m - Suc k)" by simp
    moreover have syn: "build_syn c1 = build_syn c" using t(4) True by simp
    moreover have "Suc k \<le> unat (max_retries (c_config c1)) \<or> Suc k = 1" "waiting (Suc k) c1" using t(3,4) True by simp_all
    ultimately obtain c' out' where "tick_all c1 ts = Some (c', out')" "failure c' = Some TooManyRetries"
      "out' = replicate (?m - Suc k) (build_syn c1)"
      using Cons.IH [of "Suc k" c1] Cons.prems(2,3,5) t(2,3) by auto
    with \<open>?m - k = Suc (?m - Suc k)\<close> \<open>build_syn c1 = build_syn c\<close> show ?thesis using t True by simp
  next
    case False
    then show ?thesis using Cons.prems(5) t by simp
  qed
qed simp

text \<open>C32. Connecting to a silent peer ends: a client driven by ticks at least \<open>max_rto\<close> apart sends
  its SYN, unchanged, \<open>max_retries\<close> times in all and nothing else, and the tick after the last of them
  fails it with \<open>TooManyRetries\<close>.\<close>

theorem silent_connect_fails:
  assumes "config_ok cfg" and "conn_connect cfg t = (c, syn)" and "spaced (max_rto cfg) t ts"
    and "0 < max_retries cfg" and "max_retries cfg < - 1" and "length ts = unat (max_retries cfg)"
  shows "\<exists>c' out. tick_all c ts = Some (c', out) \<and> failure c' = Some TooManyRetries
    \<and> syn # out = replicate (unat (max_retries cfg)) (encode_frame 0 FLAG_SYN (header_bytes c))"
proof -
  have c: "c = (blank cfg t SynSent)\<lparr>c_handshake := Some \<lparr>pc_sent_at = t, pc_attempts = 1\<rparr>\<rparr>"
    using assms(2) by (simp add: conn_connect_def Let_def)
  have n: "0 < unat (max_retries cfg)" "unat (max_retries cfg) < 2 ^ 32 - 1"
    using assms(4,5) by (simp_all add: word_less_nat_alt unsigned_minus_1_eq_mask mask_eq_exp_minus_1)
  have "waiting 1 c"
    using assms(1) by (simp add: c waiting_def blank_def rto_new_def rto_ok_def config_ok_def)
  moreover have "c_config c = cfg" "c_now c = t" by (simp_all add: c blank_def)
  ultimately obtain c' out where "tick_all c ts = Some (c', out)" "failure c' = Some TooManyRetries"
    "out = replicate (unat (max_retries cfg) - 1) (build_syn c)"
    using waiting_gives_up [of 1 c ts] assms(3,6) n by auto
  moreover have "syn = build_syn c" using assms(2) by (auto simp: conn_connect_def Let_def)
  moreover have "unat (max_retries cfg) = Suc (unat (max_retries cfg) - 1)" using n(1) by simp
  ultimately show ?thesis by (metis build_syn_def replicate_Suc)
qed

theorem silent_connect_fails_witness:
  "\<exists>c' out. tick_all (fst (conn_connect small_config ZERO)) [Tick 50, Tick 100, Tick 150] = Some (c', out)
     \<and> failure c' = Some TooManyRetries
     \<and> out = [snd (conn_connect small_config ZERO), snd (conn_connect small_config ZERO)]"
proof -
  obtain c syn where c: "conn_connect small_config ZERO = (c, syn)" by fastforce
  have three: "replicate 3 x = [x, x, x]" for x :: bytes by (simp add: numeral_eq_Suc)
  have "\<exists>c' out. tick_all c [Tick 50, Tick 100, Tick 150] = Some (c', out) \<and> failure c' = Some TooManyRetries
      \<and> syn # out = replicate 3 (encode_frame 0 FLAG_SYN (header_bytes c))"
    using silent_connect_fails [OF _ c, of "[Tick 50, Tick 100, Tick 150]"]
    by (simp add: small_config_def config_ok_def ZERO_def del: tick_all.simps)
  then show ?thesis by (auto simp: c three simp del: tick_all.simps)
qed

end
