(* ===== verification/Recovery.thy ===== *)
theory Recovery
  imports Recovery_Inv Transport_Props
begin

text \<open>
  Liveness of the transport. A clean round is one retransmission timeout of the sender, the delivery of
  everything that timeout emitted, and the delivery of the receiver's last datagram. From any reachable
  state, however damaged, each clean round acknowledges all the bytes in flight, and as many rounds as
  there are bytes complete the transfer.
\<close>

section \<open>Clean rounds\<close>

fun feed :: "endpoint \<Rightarrow> tick \<Rightarrow> bytes list \<Rightarrow> endpoint option" where
  "feed e now [] = Some e"
| "feed e now (d # ds) =
    (case ep_exec e (Datagram now d) of None \<Rightarrow> None | Some e' \<Rightarrow> feed e' now ds)"

text \<open>The sender's timer fires at \<open>t\<close>, the receiver is fed at \<open>t'\<close>, the sender gets the ack at \<open>t''\<close>.\<close>

definition clean_round ::
  "endpoint \<Rightarrow> endpoint \<Rightarrow> tick \<Rightarrow> tick \<Rightarrow> tick \<Rightarrow> (endpoint \<times> endpoint) option" where
  "clean_round me peer t t' t'' =
    (case ep_exec me (OnTick t) of
       None \<Rightarrow> None
     | Some me1 \<Rightarrow>
        (case feed peer t' (drop (length (ep_wire me)) (ep_wire me1)) of
           None \<Rightarrow> None
         | Some peer1 \<Rightarrow>
            (case ep_exec me1 (Datagram t'' (last (ep_wire peer1))) of
               None \<Rightarrow> None
             | Some me2 \<Rightarrow> Some (me2, peer1))))"

fun clean_rounds ::
  "endpoint \<Rightarrow> endpoint \<Rightarrow> (tick \<times> tick \<times> tick) list \<Rightarrow> (endpoint \<times> endpoint) option" where
  "clean_rounds me peer [] = Some (me, peer)"
| "clean_rounds me peer ((t, t', t'') # rs) =
    (if c_unacked (ep_conn me) = [] then Some (me, peer)
     else case clean_round me peer t t' t'' of
         None \<Rightarrow> None
       | Some (me', peer') \<Rightarrow> clean_rounds me' peer' rs)"

text \<open>Each round starts at least \<open>gap\<close> after the one before has ended.\<close>

fun paced :: "u64 \<Rightarrow> tick \<Rightarrow> (tick \<times> tick \<times> tick) list \<Rightarrow> bool" where
  "paced gap now [] \<longleftrightarrow> True"
| "paced gap now ((t, t', t'') # rs) \<longleftrightarrow>
     unat (ticks now) + unat gap \<le> unat (ticks t) \<and> t \<le> t'' \<and> paced gap t'' rs"

section \<open>The timeout\<close>

definition is_data :: "bytes \<Rightarrow> bool" where
  "is_data d \<longleftrightarrow> (\<exists>seq data h. data \<noteq> [] \<and> length (h_sack h) \<le> MAX_SACK_RANGES
     \<and> d = build_data_frame seq data (segment_encode h []))"

lemma is_data_frame: "data \<noteq> [] \<Longrightarrow> is_data (build_data_frame seq data (header_bytes c))"
  unfolding is_data_def header_bytes_def
  by (intro exI [of _ seq] exI [of _ data] exI [of _ "conn_header c False"])
    (simp add: conn_header_def length_current_sack_ranges)

lemma try_send_more_data:
  assumes "try_send_more c = Some (c', out)" and "0 < segment_size (c_config c)"
  shows "\<forall>d \<in> set out. is_data d" and "c_unacked c \<noteq> [] \<Longrightarrow> c_unacked c' \<noteq> []"
proof -
  have "(\<forall>d \<in> set out. is_data d) \<and> (c_unacked c \<noteq> [] \<longrightarrow> c_unacked c' \<noteq> [])"
  proof (cases "established c")
    case True
    then have "admit_loop c [] = Some (c', out)" using assms(1) by (auto simp: try_send_more_def)
    then have "((\<forall>d \<in> set (snd (c', out)). is_data d) \<and> same_but_send c (fst (c', out))
        \<and> (c_unacked c \<noteq> [] \<longrightarrow> c_unacked (fst (c', out)) \<noteq> []))
        \<and> (c_send_queue (fst (c', out)) = [] \<or> admission_cap (fst (c', out)) = 0)"
    proof (rule admit_loop_rule [where I = "\<lambda>c' out. (\<forall>d \<in> set out. is_data d) \<and> same_but_send c c'
        \<and> (c_unacked c \<noteq> [] \<longrightarrow> c_unacked c' \<noteq> [])"])
      fix c1 out1
      assume I: "(\<forall>d \<in> set out1. is_data d) \<and> same_but_send c c1 \<and> (c_unacked c \<noteq> [] \<longrightarrow> c_unacked c1 \<noteq> [])"
        and q: "c_send_queue c1 \<noteq> []" "admission_cap c1 \<noteq> 0"
      have "0 < segment_size (c_config c1)" using I assms(2) by (simp add: same_but_send_def)
      then have "take (min (min (segment_size (c_config c1)) (length (c_send_queue c1))) (unat (admission_cap c1)))
          (c_send_queue c1) \<noteq> []"
        using q admission_cap_le [OF q(2)] by (simp add: min_def)
      then have "is_data (snd (admit_chunk c1))" by (simp add: admit_chunk_def Let_def is_data_frame)
      then show "(\<forall>d \<in> set (out1 @ [snd (admit_chunk c1)]). is_data d) \<and> same_but_send c (fst (admit_chunk c1))
          \<and> (c_unacked c \<noteq> [] \<longrightarrow> c_unacked (fst (admit_chunk c1)) \<noteq> [])"
        using I same_but_send_trans [OF _ admit_chunk_same] by (auto simp: admit_chunk_def Let_def)
    qed auto
    then show ?thesis by simp
  next
    case False
    then show ?thesis using assms(1) by (auto simp: try_send_more_def)
  qed
  then show "\<forall>d \<in> set out. is_data d" and "c_unacked c \<noteq> [] \<Longrightarrow> c_unacked c' \<noteq> []" by simp_all
qed

lemma drain_data:
  assumes "drain_and_maybe_fin c = Some (c', out)" and "0 < segment_size (c_config c)"
    and "c_state c = Established" and "c_unacked c \<noteq> []"
  shows "\<forall>d \<in> set out. is_data d" and "c_state c' = Established" and "c_unacked c' \<noteq> []"
    and "c_now c' = c_now c"
proof -
  obtain c1 out1 c2 fin where s: "try_send_more c = Some (c1, out1)" "maybe_send_fin c1 = (c2, fin)"
    and eq: "c' = check_fully_closed c2" "out = out1 @ fin"
    using assms(1) by (auto simp: drain_and_maybe_fin_def split: option.splits prod.splits)
  note D = try_send_more_data [OF s(1) assms(2)]
  have "c_state c1 = Established" "c_now c1 = c_now c"
    using try_send_more_flow(3) [OF s(1)] assms(3) by (simp_all add: same_but_send_def)
  moreover have "c2 = c1 \<and> fin = []" using s(2) D(2) assms(4) by (simp add: maybe_send_fin_def)
  ultimately show "\<forall>d \<in> set out. is_data d" and "c_state c' = Established" and "c_unacked c' \<noteq> []"
    and "c_now c' = c_now c" using D assms(4) by (simp_all add: eq check_fully_closed_def)
qed

text \<open>A connection that may still retransmit every segment in flight.\<close>

definition retriable :: "conn \<Rightarrow> bool" where
  "retriable c \<longleftrightarrow> (\<forall>p \<in> set (c_unacked c). us_retransmit_count (snd p) < max_retries (c_config c))"

lemma data_timeout_data:
  assumes "data_timeout c = (c1, out, failed)" and "\<forall>p \<in> set (c_unacked c). us_data (snd p) \<noteq> []"
  shows "\<forall>d \<in> set out. is_data d" and "retriable c \<Longrightarrow> \<not> failed"
proof -
  show "\<forall>d \<in> set out. is_data d"
    using assms by (fastforce simp: data_timeout_def Let_def intro!: is_data_frame)
  show "\<not> failed" if "retriable c"
    using assms(1) that inc_le [of _ "max_retries (c_config c)"]
    by (fastforce simp: data_timeout_def Let_def retriable_def)
qed

text \<open>A tick at least \<open>max_rto\<close> after the clock of an established connection with data in flight is a
  retransmission timeout.\<close>

lemma due_tick:
  assumes inv: "conn_inv S R P c" and wf: "conn_wf c" "timed c" and st: "c_state c = Established"
    and u: "c_unacked c \<noteq> []"
    and due: "unat (ticks (c_now c)) + unat (max_rto (c_config c)) \<le> unat (ticks t)"
    and d: "data_timeout (c\<lparr>c_now := t\<rparr>) = (c1, out, failed)"
  shows "on_tick c t = (if failed then Some (c1\<lparr>c_state := Failed TooManyRetries, c_unacked := []\<rparr>, out)
    else map_option (\<lambda>(c', out'). (c', out @ out')) (drain_and_maybe_fin c1))"
proof -
  define c0 where "c0 = c\<lparr>c_now := t\<rparr>"
  note sp = spaced_sub [OF due]
  obtain q seg rest where q: "c_unacked c0 = (q, seg) # rest"
    using u by (cases "c_unacked c") (auto simp: c0_def)
  have c0: "max (c_now c) t = t" "c_state c0 = Established" "c_fin_pending c0 = None"
    using sp(2) st wf(1) by (auto simp: c0_def wf_defs)
  obtain rto where rto: "rto_current (c_rto c0) = Some rto" "rto \<le> max_rto (c_config c)"
    using rto_current_le_max [of "c_rto c"] inv wf(2) by (auto simp: c0_def conn_inv_def conn_ok_def timed_def)
  have "us_sent_at seg \<le> c_now c" using wf(2) q by (auto simp: timed_def c0_def)
  then have "max_rto (c_config c) \<le> tick_sub t (us_sent_at seg)"
    using sp due by (simp add: tick_sub_def less_eq_tick_def word_le_nat_alt unat_sat_sub)
  then have "rto \<le> tick_sub (c_now c0) (us_sent_at seg)" using rto(2) by (simp add: c0_def)
  moreover have "data_timeout c0 = (c1, out, failed)" using d by (simp add: c0_def)
  moreover have "c_fin_pending c1 = None" using data_timeout_flow(9) [OF d] c0(3) by (simp add: c0_def)
  ultimately show ?thesis
    using c0 rto(1) q st
    by (simp add: on_tick_def established_tick_def Let_def c0_def [symmetric] fin_tick_def)
qed

lemma tick_resends:
  assumes inv: "conn_inv S R P c" and wf: "conn_wf c" "timed c" and st: "c_state c = Established"
    and u: "c_unacked c \<noteq> []" "retriable c"
    and due: "unat (ticks (c_now c)) + unat (max_rto (c_config c)) \<le> unat (ticks t)"
    and tick: "on_tick c t = Some (c', out)"
  shows "\<forall>d \<in> set out. is_data d" and "c_state c' = Established" and "c_unacked c' \<noteq> []" and "c_now c' = t"
    and "\<forall>p \<in> set (c_unacked c'). us_sacked (snd p) \<or> resent out p"
proof -
  let ?c = "c\<lparr>c_now := t\<rparr>"
  have ne: "\<forall>p \<in> set (c_unacked ?c). us_data (snd p) \<noteq> []" "retriable ?c" "0 < segment_size (c_config c)"
    using u(2) inv by (auto simp: retriable_def conn_inv_def conn_ok_def send_ok_def chunk_ok_def)
  obtain c1 out1 failed where d: "data_timeout ?c = (c1, out1, failed)" by (metis prod_cases3)
  note F = data_timeout_flow [OF d] and D = data_timeout_data [OF d ne(1)]
  obtain out2 where drain: "drain_and_maybe_fin c1 = Some (c', out2)" and out: "out = out1 @ out2"
    using due_tick [OF inv wf st u(1) due d] tick D(2) ne(2) by (cases "drain_and_maybe_fin c1") auto
  have c1: "c_unacked c1 \<noteq> []" "c_state c1 = Established" "0 < segment_size (c_config c1)"
    using F(1,6,7) st u(1) ne(3) by (auto simp: flow_def)
  note G = drain_data [OF drain c1(3,2,1)]
  show "\<forall>d \<in> set out. is_data d" "c_state c' = Established" "c_unacked c' \<noteq> []" "c_now c' = t"
    using G D(1) F(8) by (auto simp: out)
  show "\<forall>p \<in> set (c_unacked c'). us_sacked (snd p) \<or> resent out p"
    using drain_flow(6) [OF drain] F(5) by (auto simp: out resent_def)
qed

section \<open>The receiver\<close>

lemma drain_now:
  assumes "drain_and_maybe_fin c = Some (c', out)"
  shows "c_now c' = c_now c" and "c_send_base c' = c_send_base c"
proof -
  obtain c1 out1 c2 fin where s: "try_send_more c = Some (c1, out1)" "maybe_send_fin c1 = (c2, fin)"
    and eq: "c' = check_fully_closed c2"
    using assms by (auto simp: drain_and_maybe_fin_def split: option.splits prod.splits)
  then show "c_now c' = c_now c" "c_send_base c' = c_send_base c"
    using try_send_more_flow(3) [OF s(1)]
    by (auto simp: same_but_send_def maybe_send_fin_def Let_def split: if_splits)
qed

text \<open>A data segment that reaches an open connection is received, and the last datagram sent in return
  carries the new cumulative ack.\<close>

lemma process_segment_receives:
  assumes inv: "conn_inv S R P c" and cut: "cut_inv K V c" and h: "header_ok (tx S c) h" "cut_header K V h"
    and p: "p \<noteq> []" "chunk_ok P seq p" "piece (v_cuts V) (unat seq) (length p)"
    and step: "process_segment c seq h p True False = Some (c', out)"
  shows "unat seq \<in> rcv_got c'" and "out \<noteq> []" and "acking c' (last out)"
proof -
  have "op_ok S R P c (apply_ack c h)" "op_cut K V c (apply_ack c h)"
    using apply_ack_ok [OF inv h(1)] apply_ack_cut [OF inv cut h] by simp_all
  then obtain c1 out1 K1 where a: "apply_ack c h = Some (c1, out1)" "conn_inv S R P c1" "cut_inv K1 V c1"
    by (fastforce simp: op_ok_def op_cut_def)
  define c4 where "c4 = (deliver_data c1 seq p)\<lparr>c_stats := (c_stats (deliver_data c1 seq p))
    \<lparr>ack_segments_sent := ack_segments_sent (c_stats (deliver_data c1 seq p)) + 1\<rparr>\<rparr>"
  obtain out3 where d: "drain_and_maybe_fin c4 = Some (c', out3)"
    and out: "out = out1 @ [build_pure_ack c4 False] @ out3"
    using step a(1) p(1) by (auto simp: process_segment_def Let_def c4_def)
  note D = drain_flow [OF d]
  have "unat seq \<in> rcv_got (deliver_data c1 seq p)"
    using deliver_data_cut [OF _ p(2) _ p(3), of R c1] a(2,3) by (simp add: conn_inv_def cut_inv_def)
  then show "unat seq \<in> rcv_got c'" by (simp add: rcv_got_def D(4,5)) (simp add: c4_def)
  have "acking c' = acking c4" by (rule acking_cong) (rule D)+
  then show "out \<noteq> []" "acking c' (last out)"
    using D(3) by (auto simp: out)
qed

lemma wire_frame:
  assumes "ep_inv me peer" and "d \<in> set (ep_wire me)" and d: "d = encode_frame seq flgs (segment_encode h [] @ p)"
    and "length (ep_sent me) < 2 ^ 31"
  shows "length p < 2 ^ 31" and "p \<noteq> [] \<Longrightarrow> chunk_ok (ep_tx me) seq p"
proof -
  let ?f = "\<lparr>frame_type = 0, sequence = seq, flags = flgs, payload = segment_encode h [] @ p\<rparr>"
  have tx: "length (ep_tx me) < 2 ^ 31"
    using ep_inv_tx [OF assms(1)] assms(4) prefix_length_le by fastforce
  obtain f where f: "d = frame_encode f" "length (payload f) \<le> length (ep_tx me) + 42"
    and ok: "msg_ok (ep_tx me) (ep_tx peer) d"
    using assms(1,2) by (auto simp: ep_inv_def sent_ok_def)
  have "length (frame_encode f) = length (frame_encode ?f)" using f(1) d by (simp add: encode_frame_def)
  then have "length (segment_encode h [] @ p) < 2 ^ 32" using f(2) tx by simp
  then have "frame_decode d = Inr ?f" by (simp add: d encode_frame_def frame_decode_encode)
  then show chunk: "p \<noteq> [] \<Longrightarrow> chunk_ok (ep_tx me) seq p"
    using ok segment_decode_encode [of h p] by (fastforce simp: msg_ok_def)
  show "length p < 2 ^ 31"
    using chunk chunk_ok_bound [of "ep_tx me" seq p] tx by (cases "p = []") auto
qed

lemma wire_decodes:
  assumes "ep_inv me peer" and "d \<in> set (ep_wire me)" and d: "d = encode_frame seq flgs (segment_encode h [] @ p)"
    and "length (ep_sent me) < 2 ^ 31" and "length (h_sack h) \<le> MAX_SACK_RANGES"
  shows "frame_decode d = Inr \<lparr>frame_type = 0, sequence = seq, flags = flgs, payload = segment_encode h [] @ p\<rparr>"
    and "segment_decode (segment_encode h [] @ p) = Some (h, p)"
    and "on_datagram c now d = on_segment (c\<lparr>c_now := max (c_now c) now\<rparr>)
      \<lparr>frame_type = 0, sequence = seq, flags = flgs, payload = segment_encode h [] @ p\<rparr> h p"
proof -
  note len = wire_frame(1) [OF assms(1-4)]
  then show "frame_decode d = Inr \<lparr>frame_type = 0, sequence = seq, flags = flgs, payload = segment_encode h [] @ p\<rparr>"
    using assms(5) by (simp add: d encode_frame_def frame_decode_encode length_segment_encode segment_consts)
  show "segment_decode (segment_encode h [] @ p) = Some (h, p)"
    using assms(5) by (simp add: segment_decode_encode segment_consts)
  show "on_datagram c now d = on_segment (c\<lparr>c_now := max (c_now c) now\<rparr>)
      \<lparr>frame_type = 0, sequence = seq, flags = flgs, payload = segment_encode h [] @ p\<rparr> h p"
    unfolding d by (rule on_datagram_frame [OF len assms(5)])
qed

text \<open>A connection that takes data segments: its handshake is answered, and it is neither closed nor failed.\<close>

definition receptive :: "conn \<Rightarrow> bool" where
  "receptive c \<longleftrightarrow> c_state c = SynReceived \<or> c_state c = Established \<or> c_state c = Closing"

lemma pair_exec_got:
  assumes "pair_inv me peer" and "enabled me peer ev" and "polite me ev" and "ep_exec me ev = Some me'"
  shows "rcv_got (ep_conn me) \<subseteq> rcv_got (ep_conn me')"
proof -
  obtain K KP where inv: "ep_inv me peer" "ep_inv peer me" "ep_cuts K KP me peer" "ep_cuts KP K peer me"
    using assms(1) by (auto simp: pair_inv_def)
  then show ?thesis using ep_exec_cuts [OF inv assms(2-4)] by (auto simp: view_le_def)
qed

lemma datagram_path:
  assumes "state_path (Datagram now d) s s'" and "s = SynReceived \<or> s = Established \<or> s = Closing"
  shows "s' = SynReceived \<or> s' = Established \<or> s' = Closing \<or> s' = Closed"
  using assms by (induction rule: rtranclp_induct) (auto elim: state_edge.cases)

lemma receptive_exec:
  assumes "pair_inv me peer" and "enabled me peer (Datagram now d)" and "ep_exec me (Datagram now d) = Some me'"
    and "receptive (ep_conn me)" and "\<not> fin_done (ep_conn peer)"
  shows "receptive (ep_conn me')"
proof -
  have inv: "pair_inv me' peer" using pair_exec [OF assms(1,2) _ assms(3)] by simp
  have "conn_wf (ep_conn me)" using assms(1) by (simp add: pair_inv_def healthy_def)
  then have "state_path (Datagram now d) (c_state (ep_conn me)) (c_state (ep_conn me'))"
    using ep_exec_typed [OF _ assms(3)] by blast
  moreover have "c_state (ep_conn me') \<noteq> Closed"
  proof
    assume "c_state (ep_conn me') = Closed"
    moreover obtain K KP where "ep_cuts K KP me' peer" using inv by (auto simp: pair_inv_def)
    ultimately have "fin_done (ep_conn peer)" by (simp add: ep_cuts_def cut_inv_def fin_cuts_def)
    with assms(5) show False by simp
  qed
  ultimately show ?thesis using datagram_path assms(4) unfolding receptive_def by blast
qed

lemma data_received:
  assumes inv: "pair_inv me peer" and "receptive (ep_conn me)" and "length (ep_sent peer) < 2 ^ 31"
    and d: "d \<in> set (ep_wire peer)" "d = build_data_frame seq data (segment_encode h [])"
      "data \<noteq> []" "length (h_sack h) \<le> MAX_SACK_RANGES"
    and step: "ep_exec me (Datagram now d) = Some me'"
  shows "unat seq \<in> rcv_got (ep_conn me')" and "acking (ep_conn me') (last (ep_wire me'))" and "ep_wire me' \<noteq> []"
proof -
  obtain K KP where ep: "ep_inv me peer" "ep_inv peer me" and cuts: "ep_cuts K KP me peer" "ep_cuts KP K peer me"
    using inv by (auto simp: pair_inv_def)
  have enc: "d = encode_frame seq FLAG_ACK (segment_encode h [] @ data)" using d(2) by (simp add: build_data_frame_def)
  note W = wire_decodes [OF ep(2) d(1) enc assms(3) d(4)] and chunk = wire_frame(2) [OF ep(2) d(1) enc assms(3) d(3)]
  define c1 where "c1 = (ep_conn me)\<lparr>c_now := max (c_now (ep_conn me)) now, c_peer_window := h_window h\<rparr>"
  define c2 where "c2 = (if c_state c1 = SynReceived then complete_handshake c1 else c1)"
  let ?V = "view_of KP (ep_conn peer)"
  have c1: "conn_inv (ep_sent me) (ep_recvd me) (ep_tx peer) c1" "cut_inv K ?V c1" "receptive c1"
    "tx (ep_sent me) c1 = ep_tx me" "view_of K c1 = view_of K (ep_conn me)"
    using ep(1) cuts(1) assms(2) by (auto simp: c1_def ep_inv_def ep_cuts_def receptive_def ep_tx_def)
  have c2: "conn_inv (ep_sent me) (ep_recvd me) (ep_tx peer) c2" "cut_inv K ?V c2" "tx (ep_sent me) c2 = ep_tx me"
    using c1 complete_handshake_ok [OF c1(1)] complete_handshake_cut [OF c1(2)]
    by (auto simp: c2_def failure_def)
  have h: "header_ok (ep_tx me) h" "cut_header K ?V h" "piece KP (unat seq) (length data)"
    using ep(2) cuts(2) d(1,3) W(1,2)
    by (fastforce simp: ep_inv_def sent_ok_def msg_ok_def ep_cuts_def cut_msg_def cut_header_def)+
  obtain c' out where r: "on_datagram (ep_conn me) now d = Some (c', out)"
    and me': "ep_conn me' = c'" "ep_wire me' = ep_wire me @ out"
    using step by (auto simp: ep_emit_def)
  have "process_segment c2 seq h data True False = Some (c', out)"
    using r c1(3) unfolding W(3)
    by (auto simp: on_segment_def handshake_dispatch_def flag_defs Let_def c1_def [symmetric] c2_def receptive_def
        complete_handshake_def split: if_splits option.splits)
  note R = process_segment_receives [OF c2(1,2) _ h(2) d(3) chunk _ this]
  show "unat seq \<in> rcv_got (ep_conn me')" "acking (ep_conn me') (last (ep_wire me'))" "ep_wire me' \<noteq> []"
    using R h(1,3) c2(3) by (simp_all add: me')
qed

text \<open>Feeding a receiver all of a list of data segments: they are all received, and the last datagram
  of the receiver acknowledges what it then expects.\<close>

lemma feed_receives:
  assumes "pair_inv me peer" and "receptive (ep_conn me)" and "\<not> fin_done (ep_conn peer)"
    and "length (ep_sent peer) < 2 ^ 31" and "set ds \<subseteq> set (ep_wire peer)" and "\<forall>d \<in> set ds. is_data d"
  shows "\<exists>me'. feed me now ds = Some me' \<and> pair_inv me' peer \<and> receptive (ep_conn me')
    \<and> rcv_got (ep_conn me) \<subseteq> rcv_got (ep_conn me')
    \<and> (\<forall>p. resent ds p \<and> us_data (snd p) \<noteq> [] \<longrightarrow> unat (fst p) \<in> rcv_got (ep_conn me'))
    \<and> ep_sent me' = ep_sent me
    \<and> (ds \<noteq> [] \<longrightarrow> ep_wire me' \<noteq> [] \<and> acking (ep_conn me') (last (ep_wire me')))"
  using assms
proof (induction ds arbitrary: me)
  case Nil
  then show ?case by (simp add: resent_def)
next
  case (Cons d ds)
  have en: "enabled me peer (Datagram now d)" using Cons.prems(5) by simp
  obtain me1 where step: "ep_exec me (Datagram now d) = Some me1" "pair_inv me1 peer"
    using pair_exec_Some [OF Cons.prems(1) en] by auto
  have rec: "receptive (ep_conn me1)" using receptive_exec [OF Cons.prems(1) en step(1) Cons.prems(2,3)] .
  have got: "rcv_got (ep_conn me) \<subseteq> rcv_got (ep_conn me1)"
    using pair_exec_got [OF Cons.prems(1) en _ step(1)] by simp
  have dw: "d \<in> set (ep_wire peer)" using Cons.prems(5) by simp
  note R = data_received [OF Cons.prems(1,2,4) dw _ _ _ step(1)]
  have head: "unat (fst p) \<in> rcv_got (ep_conn me1)" if "resent [d] p" "us_data (snd p) \<noteq> []" for p
    using that R(1) unfolding resent_def by auto
  have ack: "ep_wire me1 \<noteq> [] \<and> acking (ep_conn me1) (last (ep_wire me1))"
  proof -
    obtain seq data h where "data \<noteq> []" "length (h_sack h) \<le> MAX_SACK_RANGES"
      "d = build_data_frame seq data (segment_encode h [])"
      using Cons.prems(6) by (auto simp: is_data_def)
    then show ?thesis using R(2,3) by blast
  qed
  obtain me' where me': "feed me1 now ds = Some me'" "pair_inv me' peer" "receptive (ep_conn me')"
    "rcv_got (ep_conn me1) \<subseteq> rcv_got (ep_conn me')" "ep_sent me' = ep_sent me1"
    "\<forall>p. resent ds p \<and> us_data (snd p) \<noteq> [] \<longrightarrow> unat (fst p) \<in> rcv_got (ep_conn me')"
    "ds \<noteq> [] \<longrightarrow> ep_wire me' \<noteq> [] \<and> acking (ep_conn me') (last (ep_wire me'))"
    using Cons.IH [OF step(2) rec Cons.prems(3,4)] Cons.prems(5,6) by auto
  have "unat (fst p) \<in> rcv_got (ep_conn me')" if "resent (d # ds) p" "us_data (snd p) \<noteq> []" for p
  proof -
    have "resent [d] p \<or> resent ds p" using that(1) by (auto simp: resent_def)
    then show ?thesis using that(2) head me'(4,6) by blast
  qed
  moreover have "ds = [] \<Longrightarrow> me' = me1" using me'(1) by simp
  moreover have "ep_sent me1 = ep_sent me" using step(1) by (auto simp: ep_emit_def)
  ultimately show ?case using step(1) me' got ack by (cases "ds = []") auto
qed

section \<open>The ack\<close>

lemma all_received:
  assumes "pair_inv me peer" and "failure (ep_conn me) = None"
    and got: "\<forall>p \<in> set (c_unacked (ep_conn me)). unat (fst p) \<in> rcv_got (ep_conn peer)"
  shows "c_expected_seq (ep_conn peer) = c_next_seq (ep_conn me)"
proof -
  obtain K KP where "ep_cuts K KP me peer" "ep_cuts KP K peer me" using assms(1) by (auto simp: pair_inv_def)
  then have snd: "snd_cuts K (ep_conn me)" and rcv: "rcv_cuts K (ep_conn peer)"
    and base: "unat (c_send_base (ep_conn me)) \<le> unat (c_expected_seq (ep_conn peer))"
    by (simp_all add: ep_cuts_def cut_inv_def fin_cuts_def)
  let ?e = "unat (c_expected_seq (ep_conn peer))"
  have e: "?e \<in> K" "?e \<le> unat (c_next_seq (ep_conn me))" "?e \<notin> rcv_got (ep_conn peer)"
    using rcv snd expected_not_got [OF rcv] by (auto simp: rcv_cuts_def snd_cuts_def)
  moreover have "?e \<in> rcv_got (ep_conn peer)" if "?e < unat (c_next_seq (ep_conn me))"
  proof -
    have "?e \<in> unat ` fst ` set (c_unacked (ep_conn me))" using snd base e(1) that assms(2) by (simp add: snd_cuts_def)
    then show ?thesis using got by auto
  qed
  ultimately show ?thesis by (metis le_neq_implies_less word_unat_eq_iff)
qed

lemma unacked_nonempty:
  assumes "conn_inv S R P c" and "snd_cuts K c" and "c_unacked c \<noteq> []"
  shows "c_send_base c < c_next_seq c"
proof -
  obtain q where "q \<in> set (c_unacked c)" using assms(3) by (cases "c_unacked c") auto
  then show ?thesis using unacked_below_next [OF assms(1)] assms(2) by (fastforce simp: snd_cuts_def)
qed

lemma ack_progress_all:
  assumes "conn_inv S R P c"
  shows "c_unacked (ack_progress c (c_next_seq c)) = []"
  using unacked_below_next [OF assms] by (simp add: ack_progress_def Let_def remove_acked filter_empty_conv not_le)

lemma apply_ack_all:
  assumes inv: "conn_inv S R P c" and "snd_cuts K c" and "c_unacked c \<noteq> []"
    and h: "header_ok (tx S c) h" "h_ack h = c_next_seq c" and step: "apply_ack c h = Some (c', out)"
  shows "c_unacked c' = []" and "c_send_base c' = c_next_seq c" and "c_now c' = c_now c"
proof -
  have "c_send_base c < h_ack h" using unacked_nonempty [OF inv assms(2,3)] h(2) by simp
  then have s: "apply_sack_fin (ack_progress c (c_next_seq c)) h = Some c'"
    using step h(2) by (auto simp: apply_ack_def)
  have "\<forall>r \<in> set (h_sack h). sr_start r \<le> sr_end r" using h(1) by (simp add: header_ok_def)
  then have "mark_sacked b (h_sack h) [] = Some []" for b using mark_sacked_ok by (metis list.map_disc_iff)
  with s show "c_unacked c' = []" "c_send_base c' = c_next_seq c" "c_now c' = c_now c"
    using ack_progress_all [OF inv]
    by (auto simp: apply_sack_fin_def Let_def split: if_splits) (simp_all add: ack_progress_def Let_def)
qed

lemma final_ack:
  assumes inv: "conn_inv S R P c" and "snd_cuts K c" and "c_state c = Established" and "c_unacked c \<noteq> []"
    and h: "header_ok (tx S c) h" "h_ack h = c_next_seq c"
    and flgs: "flags f = FLAG_ACK \<or> flags f = FLAG_FIN OR FLAG_ACK"
    and step: "on_segment c f h p = Some (c', out)"
  shows "c_send_base c' = c_next_seq c" and "\<forall>q \<in> set (c_unacked c'). us_retransmit_count (snd q) = 0"
    and "c_now c' = c_now c"
proof -
  define c1 where "c1 = c\<lparr>c_peer_window := h_window h\<rparr>"
  have c1: "conn_inv S R P c1" "snd_cuts K c1" "c_unacked c1 \<noteq> []" "header_ok (tx S c1) h" "h_ack h = c_next_seq c1"
    "c_now c1 = c_now c" "c_next_seq c1 = c_next_seq c"
    using assms(1,2,4) h by (auto simp: c1_def snd_cuts_def failure_def)
  let ?fin = "flags f AND FLAG_FIN \<noteq> 0"
  have "process_segment c1 (sequence f) h p True ?fin = Some (c', out)"
  proof -
    have "flags f AND FLAG_SYN = 0" "flags f AND FLAG_ACK \<noteq> 0" using flgs by (auto simp: flag_defs)
    moreover have "handshake_dispatch c1 False True = Inr (c1, [])" "c_state c1 = Established"
      using assms(3) by (simp_all add: handshake_dispatch_def c1_def)
    ultimately show ?thesis
      using step by (auto simp: on_segment_def Let_def c1_def [symmetric])
  qed
  then obtain c2 out1 where a: "apply_ack c1 h = Some (c2, out1)"
    and rest: "\<exists>out3. drain_and_maybe_fin
      (let c2 = if p \<noteq> [] then deliver_data c2 (sequence f) p else c2;
           c3 = if ?fin then c2\<lparr>c_peer_fin_seen := True\<rparr> else c2
       in if p \<noteq> [] \<or> ?fin
          then c3\<lparr>c_stats := (c_stats c3)\<lparr>ack_segments_sent := ack_segments_sent (c_stats c3) + 1\<rparr>\<rparr> else c3)
      = Some (c', out3)"
    by (auto simp: process_segment_def Let_def split: option.splits)
  note A = apply_ack_all [OF c1(1-5) a]
  obtain c4 out3 where d: "drain_and_maybe_fin c4 = Some (c', out3)"
    and c4: "c_unacked c4 = []" "c_send_base c4 = c_next_seq c" "c_now c4 = c_now c"
    using rest A c1(6,7) deliver_data_same [of c2 "sequence f" p]
    by (auto simp: Let_def same_but_recv_def split: if_splits)
  show "c_send_base c' = c_next_seq c" "c_now c' = c_now c" using drain_now [OF d] c4 by simp_all
  show "\<forall>q \<in> set (c_unacked c'). us_retransmit_count (snd q) = 0" using drain_flow(6) [OF d] c4(1) by auto
qed

section \<open>One round\<close>

text \<open>The state between two rounds.\<close>

definition ready :: "endpoint \<Rightarrow> endpoint \<Rightarrow> bool" where
  "ready me peer \<longleftrightarrow> pair_inv me peer \<and> receptive (ep_conn peer) \<and> retriable (ep_conn me)
     \<and> c_state (ep_conn me) \<in> {Established, Closing, Closed}
     \<and> length (ep_sent me) < 2 ^ 31 \<and> length (ep_sent peer) < 2 ^ 31"

lemma pair_inv_unacked:
  assumes "pair_inv me peer"
  shows "c_unacked (ep_conn me) \<noteq> [] \<Longrightarrow> c_send_base (ep_conn me) < c_next_seq (ep_conn me)"
    and "p \<in> set (c_unacked (ep_conn me)) \<Longrightarrow> us_data (snd p) \<noteq> []"
    and "c_unacked (ep_conn me) \<noteq> [] \<Longrightarrow> c_state (ep_conn me) \<noteq> Closing \<and> c_state (ep_conn me) \<noteq> Closed"
proof -
  obtain K KP where K: "ep_cuts K KP me peer" and ep: "ep_inv me peer" using assms by (auto simp: pair_inv_def)
  have inv: "conn_inv (ep_sent me) (ep_recvd me) (ep_tx peer) (ep_conn me)" and snd: "snd_cuts K (ep_conn me)"
    using ep K by (simp_all add: ep_inv_def ep_cuts_def cut_inv_def)
  show lt: "c_unacked (ep_conn me) \<noteq> [] \<Longrightarrow> c_send_base (ep_conn me) < c_next_seq (ep_conn me)"
    using unacked_nonempty [OF inv snd] .
  show "c_unacked (ep_conn me) \<noteq> [] \<Longrightarrow> c_state (ep_conn me) \<noteq> Closing \<and> c_state (ep_conn me) \<noteq> Closed"
    using K lt by (auto simp: ep_cuts_def cut_inv_def fin_cuts_def fin_done_def)
  show "p \<in> set (c_unacked (ep_conn me)) \<Longrightarrow> us_data (snd p) \<noteq> []"
    using inv by (auto simp: conn_inv_def send_ok_def chunk_ok_def)
qed

lemma oldest_unacked:
  assumes "pair_inv me peer" and "c_unacked (ep_conn me) \<noteq> []" and "failure (ep_conn me) = None"
  obtains p where "p \<in> set (c_unacked (ep_conn me))" "fst p = c_send_base (ep_conn me)"
proof -
  obtain K KP where "ep_cuts K KP me peer" using assms(1) by (auto simp: pair_inv_def)
  then have "unat (c_send_base (ep_conn me)) \<in> unat ` fst ` set (c_unacked (ep_conn me))"
    using pair_inv_unacked(1) [OF assms(1,2)] assms(3)
    by (simp add: ep_cuts_def cut_inv_def snd_cuts_def word_less_nat_alt)
  then show thesis using that by (metis imageE word_unat_eq_iff)
qed

lemma timeout_covers:
  assumes "pair_inv me peer" and "c_state (ep_conn me) = Established" and "c_unacked (ep_conn me) \<noteq> []"
    and "retriable (ep_conn me)"
    and due: "unat (ticks (c_now (ep_conn me))) + unat (max_rto (c_config (ep_conn me))) \<le> unat (ticks t)"
  obtains me1 out where "ep_exec me (OnTick t) = Some me1" "pair_inv me1 peer" "ep_wire me1 = ep_wire me @ out"
    "\<forall>d \<in> set out. is_data d" "out \<noteq> []" "c_state (ep_conn me1) = Established" "c_now (ep_conn me1) = t"
    "c_unacked (ep_conn me1) \<noteq> []" "ep_sent me1 = ep_sent me" "c_next_seq (ep_conn me) \<le> c_next_seq (ep_conn me1)"
    "\<forall>p \<in> set (c_unacked (ep_conn me1)). unat (fst p) \<in> rcv_got (ep_conn peer) \<or> resent out p"
    "c_config (ep_conn me1) = c_config (ep_conn me)"
proof -
  obtain me1 where me1: "ep_exec me (OnTick t) = Some me1" "pair_inv me1 peer"
    using pair_exec_Some [OF assms(1), of "OnTick t"] by auto
  obtain c out where c: "on_tick (ep_conn me) t = Some (c, out)" "ep_conn me1 = c" "ep_wire me1 = ep_wire me @ out"
    "ep_sent me1 = ep_sent me"
    using me1(1) by (auto simp: ep_emit_def)
  have inv: "conn_inv (ep_sent me) (ep_recvd me) (ep_tx peer) (ep_conn me)" and h: "healthy me"
    using assms(1) by (simp_all add: pair_inv_def ep_inv_def)
  have wf: "conn_wf (ep_conn me)" "timed (ep_conn me)" "pumped (ep_conn me)" using h by (simp_all add: healthy_def)
  note T = tick_resends [OF inv wf(1,2) assms(2-4) due c(1)]
  obtain K KP where K: "ep_cuts K KP me1 peer" "told K me1 peer"
    using me1(2) by (auto simp: pair_inv_def)
  have cover: "\<forall>p \<in> set (c_unacked (ep_conn me1)). unat (fst p) \<in> rcv_got (ep_conn peer) \<or> resent out p"
    using T(5) sacked_received(1) [OF K(2,1)] c(2) by auto
  have "out \<noteq> []"
  proof -
    obtain q where q: "q \<in> set (c_unacked c)" "fst q = c_send_base c"
      using oldest_unacked [OF me1(2)] T(2,3) c(2) by (auto simp: failure_def)
    then have "\<not> us_sacked (snd q)" using sacked_received(2) [OF K(2,1), of q] c(2) by auto
    then show ?thesis using T(5) q(1) by (auto simp: resent_def)
  qed
  moreover have "c_next_seq (ep_conn me) \<le> c_next_seq (ep_conn me1)"
    using on_tick_ok [OF inv, of t] c by (auto simp: op_ok_def)
  moreover have "c_config (ep_conn me1) = c_config (ep_conn me)"
    using on_tick_flow [OF wf(3), of "{}" "{}" t] c by (auto simp: op_flow_def flow_def)
  ultimately show thesis using that [OF me1 c(3) T(1)] T(2-4) c(2,4) cover by simp
qed

lemma ack_settles:
  assumes inv: "pair_inv me peer" and "c_state (ep_conn me) = Established" and "c_unacked (ep_conn me) \<noteq> []"
    and exp: "c_expected_seq (ep_conn peer) = c_next_seq (ep_conn me)" and "length (ep_sent peer) < 2 ^ 31"
    and d: "d \<in> set (ep_wire peer)" "acking (ep_conn peer) d"
  obtains me' where "ep_exec me (Datagram t d) = Some me'" "pair_inv me' peer" "ep_sent me' = ep_sent me"
    "c_send_base (ep_conn me') = c_next_seq (ep_conn me)" "c_now (ep_conn me') = max (c_now (ep_conn me)) t"
    "\<forall>q \<in> set (c_unacked (ep_conn me')). us_retransmit_count (snd q) = 0"
    "c_config (ep_conn me') = c_config (ep_conn me)"
    "c_state (ep_conn me') \<in> {Established, Closing, Closed}"
proof -
  have en: "enabled me peer (Datagram t d)" using d(1) by simp
  obtain me' where me': "ep_exec me (Datagram t d) = Some me'" "pair_inv me' peer"
    using pair_exec_Some [OF inv en] by auto
  obtain h seq flgs p where enc: "d = encode_frame seq flgs (segment_encode h [] @ p)"
    and h: "h_ack h = c_next_seq (ep_conn me)" "length (h_sack h) \<le> MAX_SACK_RANGES"
    and flgs: "flgs = FLAG_ACK \<or> flgs = FLAG_FIN OR FLAG_ACK"
    using d(2) exp length_current_sack_ranges [of "ep_conn peer"] unfolding acking_def by metis
  obtain K KP where ep: "ep_inv me peer" "ep_inv peer me" and cuts: "ep_cuts K KP me peer" and wf: "healthy me"
    using inv by (auto simp: pair_inv_def)
  note W = wire_decodes [OF ep(2) d(1) enc assms(5) h(2)]
  obtain c out where c: "on_datagram (ep_conn me) t d = Some (c, out)" "ep_conn me' = c" "ep_sent me' = ep_sent me"
    using me'(1) by (auto simp: ep_emit_def)
  define c0 where "c0 = (ep_conn me)\<lparr>c_now := max (c_now (ep_conn me)) t\<rparr>"
  have c0: "conn_inv (ep_sent me) (ep_recvd me) (ep_tx peer) c0" "snd_cuts K c0" "c_state c0 = Established"
    "c_unacked c0 \<noteq> []" "h_ack h = c_next_seq c0"
    using ep(1) cuts assms(2,3) h(1) by (auto simp: c0_def ep_inv_def ep_cuts_def cut_inv_def snd_cuts_def failure_def)
  have "header_ok (ep_tx me) h"
    using ep(2) d(1) W(1,2) by (fastforce simp: ep_inv_def sent_ok_def msg_ok_def)
  then have hok: "header_ok (tx (ep_sent me) c0) h" by (simp add: c0_def ep_tx_def)
  note F = final_ack [OF c0(1-4) hok c0(5) _ c(1) [unfolded W(3), folded c0_def]]
  have "state_path (Datagram t d) Established (c_state c)"
    using ep_exec_typed [OF _ me'(1)] wf assms(2) c(2) by (simp add: healthy_def)
  then have st: "c_state c = Established \<or> c_state c = Closing \<or> c_state c = Closed"
  proof (induction rule: rtranclp_induct)
    case (step s s')
    then show ?case by (auto elim: state_edge.cases)
  qed simp
  have "c_config c = c_config (ep_conn me)"
    using on_datagram_flow [of "ep_conn me" d t] wf c(1) by (auto simp: healthy_def op_flow_def flow_def)
  then show thesis
    using that [OF me' c(3)] F flgs c(2) st by (auto simp: c0_def)
qed

lemma clean_round_settles:
  assumes r: "ready me peer" and u: "c_unacked (ep_conn me) \<noteq> []" and "0 < max_retries (c_config (ep_conn me))"
    and due: "unat (ticks (c_now (ep_conn me))) + unat (max_rto (c_config (ep_conn me))) \<le> unat (ticks t)"
    and le: "t \<le> t''"
  shows "\<exists>me' peer'. clean_round me peer t t' t'' = Some (me', peer') \<and> ready me' peer'
    \<and> c_next_seq (ep_conn me) \<le> c_send_base (ep_conn me') \<and> c_now (ep_conn me') = t''
    \<and> c_config (ep_conn me') = c_config (ep_conn me) \<and> ep_sent me' = ep_sent me"
proof -
  note R = r [unfolded ready_def]
  have inv: "pair_inv me peer" and st: "c_state (ep_conn me) = Established" and ret: "retriable (ep_conn me)"
    using R u pair_inv_unacked(3) [of me peer] by auto
  obtain me1 out where me1: "ep_exec me (OnTick t) = Some me1" "pair_inv me1 peer" "ep_wire me1 = ep_wire me @ out"
    and out: "\<forall>d \<in> set out. is_data d" "out \<noteq> []"
    and c1: "c_state (ep_conn me1) = Established" "c_now (ep_conn me1) = t" "c_unacked (ep_conn me1) \<noteq> []"
      "ep_sent me1 = ep_sent me" "c_next_seq (ep_conn me) \<le> c_next_seq (ep_conn me1)"
      "\<forall>p \<in> set (c_unacked (ep_conn me1)). unat (fst p) \<in> rcv_got (ep_conn peer) \<or> resent out p"
      "c_config (ep_conn me1) = c_config (ep_conn me)"
    using timeout_covers [OF inv st u ret due] by metis
  have nd: "\<not> fin_done (ep_conn me1)"
    using pair_inv_unacked(1) [OF me1(2) c1(3)] by (auto simp: fin_done_def)
  obtain peer1 where peer1: "feed peer t' out = Some peer1" "pair_inv peer1 me1" "receptive (ep_conn peer1)"
    "rcv_got (ep_conn peer) \<subseteq> rcv_got (ep_conn peer1)" "ep_sent peer1 = ep_sent peer"
    "\<forall>p. resent out p \<and> us_data (snd p) \<noteq> [] \<longrightarrow> unat (fst p) \<in> rcv_got (ep_conn peer1)"
    "ep_wire peer1 \<noteq> [] \<and> acking (ep_conn peer1) (last (ep_wire peer1))"
    using feed_receives [OF pair_inv_sym [OF me1(2)] _ nd, of out t'] R out me1(3) c1(4) by auto
  have inv1: "pair_inv me1 peer1" using peer1(2) by (rule pair_inv_sym)
  have "\<forall>p \<in> set (c_unacked (ep_conn me1)). unat (fst p) \<in> rcv_got (ep_conn peer1)"
    using c1(6) peer1(4,6) pair_inv_unacked(2) [OF inv1] by blast
  then have exp: "c_expected_seq (ep_conn peer1) = c_next_seq (ep_conn me1)"
    using all_received [OF inv1] c1(1) by (simp add: failure_def)
  have len: "length (ep_sent peer1) < 2 ^ 31" using R peer1(5) by simp
  have lst: "last (ep_wire peer1) \<in> set (ep_wire peer1)" using peer1(7) by simp
  obtain me2 where me2: "ep_exec me1 (Datagram t'' (last (ep_wire peer1))) = Some me2" "pair_inv me2 peer1"
    "ep_sent me2 = ep_sent me1" "c_send_base (ep_conn me2) = c_next_seq (ep_conn me1)"
    "c_now (ep_conn me2) = max t t''" "\<forall>q \<in> set (c_unacked (ep_conn me2)). us_retransmit_count (snd q) = 0"
    "c_config (ep_conn me2) = c_config (ep_conn me)"
    "c_state (ep_conn me2) \<in> {Established, Closing, Closed}"
    using ack_settles [OF inv1 c1(1,3) exp len lst, of t''] peer1(7) c1(2,7) by metis
  have "ready me2 peer1"
    using me2 peer1(3) R c1(4) len assms(3) by (auto simp: ready_def retriable_def)
  moreover have "clean_round me peer t t' t'' = Some (me2, peer1)"
    using me1(1,3) peer1(1) me2(1) by (simp add: clean_round_def)
  ultimately show ?thesis using me2 c1(4,5) le by (auto simp: max_def)
qed

section \<open>Completion\<close>

lemma drained_complete:
  assumes "ready me peer" and "c_unacked (ep_conn me) = []"
  shows "ep_recvd peer @ c_delivered (ep_conn peer) = ep_sent me"
proof -
  obtain K KP where K: "ep_cuts K KP me peer" and ep: "ep_inv me peer" "ep_inv peer me" and h: "healthy me"
    using assms(1) by (auto simp: ready_def pair_inv_def)
  have snd: "send_ok (ep_sent me) (ep_conn me)" and cut: "snd_cuts K (ep_conn me)" "fin_cuts (view_of KP (ep_conn peer)) (ep_conn me)"
    using ep(1) K by (simp_all add: ep_inv_def conn_inv_def ep_cuts_def cut_inv_def)
  have st: "c_state (ep_conn me) \<in> {Established, Closing, Closed}" using assms(1) by (simp add: ready_def)
  then have "c_send_queue (ep_conn me) = []"
    using h assms(2) cut(2) by (auto simp: healthy_def pumped_def fin_cuts_def fin_done_def)
  moreover have "c_send_base (ep_conn me) = c_next_seq (ep_conn me)"
    using all_acked [OF cut(1) snd] assms(2) st by (auto simp: failure_def)
  ultimately have "length (ep_sent me) \<le> unat (c_expected_seq (ep_conn peer))"
    using snd cut(2) by (simp add: send_ok_def fin_cuts_def)
  moreover have "prefix (ep_recvd peer @ c_delivered (ep_conn peer)) (ep_sent me)"
    using ep_inv_received [OF ep(2,1)] .
  moreover have "length (ep_recvd peer @ c_delivered (ep_conn peer)) = unat (c_expected_seq (ep_conn peer))"
    using ep(2) unfolding ep_inv_def conn_inv_def recv_ok_def by (metis length_take min_absorb2)
  ultimately have "length (ep_sent me) \<le> length (ep_recvd peer @ c_delivered (ep_conn peer))"
    and "prefix (ep_recvd peer @ c_delivered (ep_conn peer)) (ep_sent me)" by simp_all
  then show ?thesis by (metis append_eq_conv_conj prefix_def take_all)
qed

lemma clean_rounds_complete:
  assumes "ready me peer" and "0 < max_retries (c_config (ep_conn me))"
    and "paced (max_rto (c_config (ep_conn me))) (c_now (ep_conn me)) rs"
    and "length (ep_sent me) \<le> unat (c_send_base (ep_conn me)) + length rs"
  shows "\<exists>me' peer'. clean_rounds me peer rs = Some (me', peer') \<and> c_unacked (ep_conn me') = []
    \<and> ep_sent me' = ep_sent me \<and> ep_recvd peer' @ c_delivered (ep_conn peer') = ep_sent me"
  using assms
proof (induction me peer rs rule: clean_rounds.induct)
  case (1 me peer)
  have inv: "pair_inv me peer" using "1.prems"(1) by (simp add: ready_def)
  then have "unat (c_next_seq (ep_conn me)) \<le> length (ep_sent me)"
    by (simp add: pair_inv_def ep_inv_def conn_inv_def send_ok_def)
  then have "c_unacked (ep_conn me) = []"
    using "1.prems"(4) pair_inv_unacked(1) [OF inv] by (auto simp: word_less_nat_alt)
  then show ?case using drained_complete [OF "1.prems"(1)] by simp
next
  case (2 me peer t t' t'' rs)
  show ?case
  proof (cases "c_unacked (ep_conn me) = []")
    case True
    then show ?thesis using drained_complete [OF "2.prems"(1)] by simp
  next
    case False
    obtain me1 peer1 where r: "clean_round me peer t t' t'' = Some (me1, peer1)" "ready me1 peer1"
      "c_next_seq (ep_conn me) \<le> c_send_base (ep_conn me1)" "c_now (ep_conn me1) = t''"
      "c_config (ep_conn me1) = c_config (ep_conn me)" "ep_sent me1 = ep_sent me"
      using clean_round_settles [OF "2.prems"(1) False "2.prems"(2), of t t'' t'] "2.prems"(3) by auto
    have "pair_inv me peer" using "2.prems"(1) by (simp add: ready_def)
    then have "c_send_base (ep_conn me) < c_next_seq (ep_conn me)" using pair_inv_unacked(1) False by blast
    then have "length (ep_sent me1) \<le> unat (c_send_base (ep_conn me1)) + length rs"
      using "2.prems"(4) r(3,6) by (simp add: word_less_nat_alt word_le_nat_alt)
    then show ?thesis
      using "2.IH" [OF False r(1) refl r(2)] "2.prems"(2,3) r False by simp
  qed
qed

text \<open>A run that damages a transfer: of the first two segments only the second arrives, and the sender
  learns of it by a selective ack.\<close>

definition damage_run :: "(bool \<times> action) list" where
  "damage_run =
    [(False, Deliver (Tick 3) 0), (True, Deliver (Tick 5) 0),
     (True, Call (Send (Tick 5) [1, 2, 3, 4, 5, 6])), (False, Deliver (Tick 8) 3), (True, Deliver (Tick 11) 1)]"

lemma damage_run_Some:
  "\<exists>l. polite_run (start small_config) damage_run = Some l \<and> c_state (ep_conn (client l)) = Established
     \<and> receptive (ep_conn (server l)) \<and> retriable (ep_conn (client l))
     \<and> ep_sent (client l) = [1, 2, 3, 4, 5, 6] \<and> ep_sent (server l) = []
     \<and> c_config (ep_conn (client l)) = small_config \<and> c_now (ep_conn (client l)) = Tick 11
     \<and> (\<exists>seg. (2, seg) \<in> set (c_unacked (ep_conn (client l))) \<and> us_sacked seg)
     \<and> c_expected_seq (ep_conn (server l)) = 0"
  by (simp add: run_simps damage_run_def small_config_def receptive_def retriable_def)

lemma damage_run_reachable:
  obtains l seg where "polite_reachable small_config small_config l" "c_state (ep_conn (client l)) = Established"
    "receptive (ep_conn (server l))" "retriable (ep_conn (client l))"
    "ep_sent (client l) = [1, 2, 3, 4, 5, 6]" "ep_sent (server l) = []"
    "c_config (ep_conn (client l)) = small_config" "c_now (ep_conn (client l)) = Tick 11"
    "(2, seg) \<in> set (c_unacked (ep_conn (client l)))" "us_sacked seg" "c_expected_seq (ep_conn (server l)) = 0"
proof -
  have "config_ok small_config" by (simp add: config_ok_def small_config_def)
  then have "polite_reachable small_config small_config (start small_config)"
    by (intro reachable_init) (auto simp: link_init_def start_def)
  then show thesis using damage_run_Some polite_run_reachable that by blast
qed

definition six_rounds :: "(tick \<times> tick \<times> tick) list" where
  "six_rounds = map (\<lambda>n. (Tick (word_of_nat (100 * n)), Tick (word_of_nat (100 * n + 1)), Tick (word_of_nat (100 * n + 2))))
     [1..<7]"

text \<open>C3. Transfers complete. Take any state that the hostile network and the applications can bring
  about (no application sending after its own \<open>close\<close>) in which the sender is still \<open>Established\<close>, the
  receiver takes data (\<open>receptive\<close>: \<open>SynReceived\<close>, \<open>Established\<close> or \<open>Closing\<close>), no segment in
  flight has used up its retries (and \<open>max_retries\<close> is not 0), and each application has sent fewer than
  \<open>2 ^ 31\<close> bytes. Then as many clean rounds as there are bytes (each one retransmission timeout, the
  delivery of what it emitted, and the delivery of the receiver's last datagram), at least \<open>max_rto\<close>
  apart, bring every byte the sending application has sent to the receiver, and the acknowledgement of
  all of them to the sender. What the network lost, reordered or duplicated before does not matter; a
  connection that has already failed is not covered.\<close>

theorem transfer_completes:
  assumes "polite_reachable cfg cfg' l"
    and "(me, peer) = (client l, server l) \<or> (me, peer) = (server l, client l)"
    and "c_state (ep_conn me) = Established" and "receptive (ep_conn peer)" and "retriable (ep_conn me)"
    and "length (ep_sent me) < 2 ^ 31" and "length (ep_sent peer) < 2 ^ 31"
    and "0 < max_retries (c_config (ep_conn me))"
    and "paced (max_rto (c_config (ep_conn me))) (c_now (ep_conn me)) rs"
    and "length (ep_sent me) \<le> length rs"
  shows "\<exists>me' peer'. clean_rounds me peer rs = Some (me', peer') \<and> c_unacked (ep_conn me') = []
    \<and> ep_recvd peer' @ c_delivered (ep_conn peer') = ep_sent me"
proof -
  have "pair_inv (client l) (server l)"
    using recovery.reachable_inv [OF assms(1)] by (simp add: recovery_inv_def)
  then have "ready me peer" using assms(2-7) pair_inv_sym by (auto simp: ready_def)
  moreover have "length (ep_sent me) \<le> unat (c_send_base (ep_conn me)) + length rs" using assms(10) by simp
  ultimately show ?thesis using clean_rounds_complete [OF _ assms(8,9)] by blast
qed

theorem transfer_completes_witness:
  "\<exists>l me' peer'. polite_reachable small_config small_config l \<and> ep_sent (client l) = [1, 2, 3, 4, 5, 6]
     \<and> c_expected_seq (ep_conn (server l)) = 0
     \<and> clean_rounds (client l) (server l) six_rounds = Some (me', peer')
     \<and> ep_recvd peer' @ c_delivered (ep_conn peer') = [1, 2, 3, 4, 5, 6]"
proof -
  obtain l seg where l: "polite_reachable small_config small_config l" "c_state (ep_conn (client l)) = Established"
    "receptive (ep_conn (server l))" "retriable (ep_conn (client l))"
    "ep_sent (client l) = [1, 2, 3, 4, 5, 6]" "ep_sent (server l) = []"
    "c_config (ep_conn (client l)) = small_config" "c_now (ep_conn (client l)) = Tick 11"
    "c_expected_seq (ep_conn (server l)) = 0"
    by (rule damage_run_reachable)
  moreover have "paced (max_rto small_config) (Tick 11) six_rounds" "length six_rounds = 6"
    by (simp_all add: six_rounds_def small_config_def upt_rec less_eq_tick_def)
  moreover have "0 < max_retries small_config" by (simp add: small_config_def)
  ultimately have "\<exists>me' peer'. clean_rounds (client l) (server l) six_rounds = Some (me', peer')
      \<and> c_unacked (ep_conn me') = [] \<and> ep_recvd peer' @ c_delivered (ep_conn peer') = ep_sent (client l)"
    by (intro transfer_completes [OF l(1)]) auto
  with l show ?thesis by auto
qed

text \<open>A segment in flight and what the peer's receiver holds are cut at the same offsets of the same
  stream, so a segment whose start is held is held whole.\<close>

lemma segment_held:
  assumes ep: "ep_inv me peer" "ep_inv peer me" and K: "ep_cuts K KP me peer" "ep_cuts KP K peer me"
    and seg: "(seq, seg) \<in> set (c_unacked (ep_conn me))" and got: "unat seq \<in> rcv_got (ep_conn peer)"
  shows "unat seq + length (us_data seg) \<le> unat (c_expected_seq (ep_conn peer))
    \<or> (seq, us_data seg) \<in> set (c_recv_buffer (ep_conn peer))"
proof -
  have pc: "piece K (unat seq) (length (us_data seg))" and ck: "chunk_ok (ep_tx me) seq (us_data seg)"
    using K(1) ep(1) seg
    by (fastforce simp: ep_cuts_def cut_inv_def snd_cuts_def ep_inv_def conn_inv_def send_ok_def ep_tx_def)+
  have rcv: "rcv_cuts K (ep_conn peer)" and ok: "recv_ok (ep_recvd peer) (ep_tx me) (ep_conn peer)"
    using K(2) ep(2) by (simp_all add: ep_cuts_def cut_inv_def ep_inv_def conn_inv_def)
  consider "unat seq < unat (c_expected_seq (ep_conn peer))"
    | v where "(seq, v) \<in> set (c_recv_buffer (ep_conn peer))"
    using got by (auto simp: rcv_got_def dest: word_unat_eq_iff [THEN iffD2])
  then show ?thesis
  proof cases
    case 1
    then show ?thesis using pc rcv by (fastforce simp: piece_def rcv_cuts_def)
  next
    case 2
    then have pv: "piece K (unat seq) (length v)" and cv: "chunk_ok (ep_tx me) seq v"
      using rcv ok by (fastforce simp: rcv_cuts_def recv_ok_def)+
    have "length v = length (us_data seg)" using piece_length [OF pv pc] .
    then have "v = us_data seg" using ck cv by (simp add: chunk_ok_def slice_at_def)
    with 2 show ?thesis by simp
  qed
qed

text \<open>The oldest byte in flight starts a segment that is not marked, so a retransmission timeout
  resends it.\<close>

lemma timeout_resends_oldest:
  assumes "pair_inv me peer" and "c_unacked (ep_conn me) \<noteq> []" and "failure (ep_conn me) = None"
    and d: "data_timeout ((ep_conn me)\<lparr>c_now := t\<rparr>) = (c, out, failed)"
  obtains seg h where "(c_send_base (ep_conn me), seg) \<in> set (c_unacked (ep_conn me))" "\<not> us_sacked seg"
    "build_data_frame (c_send_base (ep_conn me)) (us_data seg) h \<in> set out"
proof -
  obtain p where p: "p \<in> set (c_unacked (ep_conn me))" "fst p = c_send_base (ep_conn me)"
    using oldest_unacked [OF assms(1-3)] .
  obtain K KP where K: "told K me peer" "ep_cuts K KP me peer" using assms(1) by (auto simp: pair_inv_def)
  have "\<not> us_sacked (snd p)" using sacked_received(2) [OF K p(1)] p(2) by auto
  moreover obtain h where "build_data_frame (fst p) (us_data (snd p)) h \<in> set out"
    using d p(1) calculation by (force simp: data_timeout_def Let_def)
  ultimately show thesis using that [of "snd p" h] p by (metis prod.collapse)
qed

text \<open>C14. Selective acks are sound: however the network behaves (as long as no application sends after
  its own \<open>close\<close>), every byte of a segment that a sender marks as selectively acked is held by its
  peer: the peer has delivered past the segment's end, or the segment is in its reassembly buffer, at
  the same offset and with the same bytes. The marked segment is not the oldest in flight: while the
  connection has not failed, the segment at the send base is in flight, is not marked, and is among
  the frames that any retransmission timeout sends.\<close>

theorem sack_sound:
  assumes "polite_reachable cfg cfg' l"
    and "(me, peer) = (client l, server l) \<or> (me, peer) = (server l, client l)"
    and "(seq, seg) \<in> set (c_unacked (ep_conn me))" and "us_sacked seg"
  shows "(unat seq + length (us_data seg) \<le> unat (c_expected_seq (ep_conn peer))
      \<or> (seq, us_data seg) \<in> set (c_recv_buffer (ep_conn peer)))
    \<and> seq \<noteq> c_send_base (ep_conn me)
    \<and> (failure (ep_conn me) = None \<longrightarrow>
        (\<forall>t c out failed. data_timeout ((ep_conn me)\<lparr>c_now := t\<rparr>) = (c, out, failed) \<longrightarrow>
          (\<exists>oldest h. (c_send_base (ep_conn me), oldest) \<in> set (c_unacked (ep_conn me)) \<and> \<not> us_sacked oldest
            \<and> build_data_frame (c_send_base (ep_conn me)) (us_data oldest) h \<in> set out)))"
proof -
  have "pair_inv (client l) (server l)"
    using recovery.reachable_inv [OF assms(1)] by (simp add: recovery_inv_def)
  then have inv: "pair_inv me peer" using assms(2) pair_inv_sym by auto
  then obtain K KP where K: "ep_inv me peer" "ep_inv peer me" "ep_cuts K KP me peer" "ep_cuts KP K peer me"
    "told K me peer" by (auto simp: pair_inv_def)
  have got: "unat seq \<in> rcv_got (ep_conn peer)" and base: "seq \<noteq> c_send_base (ep_conn me)"
    using sacked_received [OF K(5,3) assms(3)] assms(4) by simp_all
  have "c_unacked (ep_conn me) \<noteq> []" using assms(3) by auto
  then show ?thesis
    using segment_held [OF K(1-4) assms(3) got] base timeout_resends_oldest [OF inv] by blast
qed

theorem sack_sound_witness:
  "\<exists>l seg (oldest :: unacked_segment) h. polite_reachable small_config small_config l
     \<and> (2, seg) \<in> set (c_unacked (ep_conn (client l))) \<and> us_sacked seg
     \<and> (2, us_data seg) \<in> set (c_recv_buffer (ep_conn (server l))) \<and> \<not> us_sacked oldest
     \<and> build_data_frame (c_send_base (ep_conn (client l))) (us_data oldest) h
         \<in> set (fst (snd (data_timeout ((ep_conn (client l))\<lparr>c_now := Tick 99\<rparr>))))"
proof -
  obtain l seg where l: "polite_reachable small_config small_config l" "c_state (ep_conn (client l)) = Established"
    "(2, seg) \<in> set (c_unacked (ep_conn (client l)))" "us_sacked seg" "c_expected_seq (ep_conn (server l)) = 0"
    by (rule damage_run_reachable)
  obtain c out failed where d: "data_timeout ((ep_conn (client l))\<lparr>c_now := Tick 99\<rparr>) = (c, out, failed)"
    by (metis prod_cases3)
  have f: "failure (ep_conn (client l)) = None" using l(2) by (simp add: failure_def)
  note S = sack_sound [OF l(1) disjI1 [OF refl] l(3,4)]
  from S [THEN conjunct2, THEN conjunct2, rule_format, OF f d] obtain oldest :: unacked_segment and h
    where "\<not> us_sacked oldest" "build_data_frame (c_send_base (ep_conn (client l))) (us_data oldest) h \<in> set out" by (elim exE conjE)
  moreover have "(2, us_data seg) \<in> set (c_recv_buffer (ep_conn (server l)))" using S l(5) by simp
  ultimately show ?thesis
    using l by (intro exI [of _ l] exI [of _ seg] exI [of _ oldest] exI [of _ h]) (simp add: d)
qed

end
