(* ===== verification/Silence.thy ===== *)
theory Silence
  imports Recovery
begin

text \<open>
  Giving up on a peer that falls silent in the middle of a transfer or of the close: the
  retransmissions of the data in flight, and those of the FIN, are bounded by \<open>max_retries\<close>, after
  which the connection has failed for good.
\<close>

lemma drain_keeps_unacked:
  assumes "conn_inv S R P c" and "drain_and_maybe_fin c = Some (c', out)"
  shows "set (c_unacked c) \<subseteq> set (c_unacked c')"
proof -
  obtain c1 out1 c2 fin where s: "try_send_more c = Some (c1, out1)" "maybe_send_fin c1 = (c2, fin)"
    and eq: "c' = check_fully_closed c2"
    using assms(2) by (auto simp: drain_and_maybe_fin_def split: option.splits prod.splits)
  have "set (c_unacked c) \<subseteq> set (c_unacked c1)"
  proof (cases "established c")
    case True
    then have "admit_loop c [] = Some (c1, out1)" using s(1) by (auto simp: try_send_more_def)
    then have "(conn_inv S R P (fst (c1, out1)) \<and> set (c_unacked c) \<subseteq> set (c_unacked (fst (c1, out1))))
        \<and> (c_send_queue (fst (c1, out1)) = [] \<or> admission_cap (fst (c1, out1)) = 0)"
    proof (rule admit_loop_rule [where I = "\<lambda>c' _. conn_inv S R P c' \<and> set (c_unacked c) \<subseteq> set (c_unacked c')"])
      fix c' and out :: "bytes list"
      assume I: "conn_inv S R P c' \<and> set (c_unacked c) \<subseteq> set (c_unacked c')"
        and q: "c_send_queue c' \<noteq> []" "admission_cap c' \<noteq> 0"
      obtain c2 d where a: "admit_chunk c' = (c2, d)" by fastforce
      have "bt_ok (c_unacked c')" using I by (simp add: conn_inv_def send_ok_def)
      then have "set (c_unacked c') \<subseteq> set (c_unacked c2)"
        using a unacked_below_next [of S R P c'] I by (fastforce simp: admit_chunk_def Let_def set_bt_insert)
      then show "conn_inv S R P (fst (admit_chunk c')) \<and> set (c_unacked c) \<subseteq> set (c_unacked (fst (admit_chunk c')))"
        using admit_chunk_inv(1) [OF _ q a] I by (auto simp: a)
    qed (use assms(1) in auto)
    then show ?thesis by simp
  next
    case False
    then show ?thesis using s(1) by (auto simp: try_send_more_def)
  qed
  then show ?thesis using maybe_send_fin_flow(2) [OF s(2)] by (simp add: eq)
qed

text \<open>A connection with a segment in flight that is not selectively acked and has been
  retransmitted \<open>j\<close> times.\<close>

definition retried :: "nat \<Rightarrow> conn \<Rightarrow> bool" where
  "retried j c \<longleftrightarrow> c_state c = Established \<and> conn_wf c \<and> timed c
     \<and> (\<exists>p \<in> set (c_unacked c). \<not> us_sacked (snd p) \<and> unat (us_retransmit_count (snd p)) = j)"

lemma data_timeout_retried:
  assumes "data_timeout c = (c1, out, failed)" and "p \<in> set (c_unacked c)" and "\<not> us_sacked (snd p)"
    and "unat (us_retransmit_count (snd p)) = j" and "Suc j < 2 ^ 32"
  shows "\<exists>q \<in> set (c_unacked c1). \<not> us_sacked (snd q) \<and> unat (us_retransmit_count (snd q)) = Suc j"
    and "unat (max_retries (c_config c)) \<le> j \<Longrightarrow> failed"
proof -
  have inc: "unat (us_retransmit_count (snd p) + 1) = Suc j" using assms(4,5) by (simp add: unat_word_ariths)
  have "(fst p, resend_segment (c_now c) (snd p)) \<in> set (c_unacked c1)"
    using assms(1,2) by (force simp: data_timeout_def Let_def)
  then show "\<exists>q \<in> set (c_unacked c1). \<not> us_sacked (snd q) \<and> unat (us_retransmit_count (snd q)) = Suc j"
    using inc assms(3) by (intro bexI) (auto simp: resend_segment_def)
  show failed if "unat (max_retries (c_config c)) \<le> j"
  proof -
    have "max_retries (c_config c) < us_retransmit_count (snd p) + 1" using inc that by (simp add: word_less_nat_alt)
    moreover have "failed = (\<exists>(seq, seg) \<in> set (filter (\<lambda>(_, seg). \<not> us_sacked seg) (c_unacked c)).
        max_retries (c_config c) < us_retransmit_count seg + 1)"
      using assms(1) by (simp add: data_timeout_def Let_def)
    ultimately show ?thesis using assms(2,3) by (cases p) auto
  qed
qed

lemma silent_tick:
  assumes inv: "conn_inv S R P c" and r: "retried j c" and j: "Suc j < 2 ^ 32"
    and due: "unat (ticks (c_now c)) + unat (max_rto (c_config c)) \<le> unat (ticks t)"
  obtains c' out where "on_tick c t = Some (c', out)" "c_config c' = c_config c"
    "failure c' = Some TooManyRetries
     \<or> j < unat (max_retries (c_config c)) \<and> conn_inv S R P c' \<and> c_now c' = t \<and> retried (Suc j) c'"
proof -
  define c0 where "c0 = c\<lparr>c_now := t\<rparr>"
  obtain p where p: "p \<in> set (c_unacked c)" "\<not> us_sacked (snd p)" "unat (us_retransmit_count (snd p)) = j"
    and wf: "c_state c = Established" "conn_wf c" "timed c" using r by (auto simp: retried_def)
  then have u: "c_unacked c \<noteq> []" by auto
  obtain c1 out1 failed where d: "data_timeout c0 = (c1, out1, failed)" by (metis prod_cases3)
  note F = data_timeout_flow [OF d] and D = data_timeout_retried [OF d, of p j]
  have c0: "c_unacked c0 = c_unacked c" "c_state c0 = Established" "c_now c \<le> t"
    using wf(1) spaced_sub(2) [OF due] by (auto simp: c0_def max_def split: if_splits)
  have tick: "on_tick c t = (if failed then Some (c1\<lparr>c_state := Failed TooManyRetries, c_unacked := []\<rparr>, out1)
      else map_option (\<lambda>(c', out'). (c', out1 @ out')) (drain_and_maybe_fin c1))"
    using due_tick [OF inv wf(2,3,1) u due d [unfolded c0_def]] .
  show thesis
  proof (cases failed)
    case True
    then show ?thesis using that [of "c1\<lparr>c_state := Failed TooManyRetries, c_unacked := []\<rparr>" out1] tick F(1)
      by (simp add: failure_def flow_def c0_def)
  next
    case False
    have "conn_inv S R P c0" using inv by (simp add: c0_def)
    then have inv1: "conn_inv S R P c1" using data_timeout_ok [OF _ d] by blast
    then obtain c' out' where dr: "drain_and_maybe_fin c1 = Some (c', out')" "conn_inv S R P c'"
      using drain_and_maybe_fin_ok [OF inv1] by (auto simp: op_ok_def)
    have c1: "c_unacked c1 \<noteq> []" "c_state c1 = Established" "0 < segment_size (c_config c1)"
      using F(6,7) c0 u inv1 by (auto simp: conn_inv_def conn_ok_def)
    note G = drain_data [OF dr(1) c1(3,2,1)]
    have fl: "flow {} {} c c'"
      using flow_same [of c0 c "{}" "{}"] F(1) [of "{}" "{}"] drain_flow(1) [OF dr(1), of "{}" "{}"] c0(3)
      by (auto simp: c0_def intro: flow_trans)
    have on: "on_tick c t = Some (c', out1 @ out')" using tick False dr(1) by simp
    then have "conn_wf c'" using on_tick_typed [OF wf(2), of t] by (simp add: typed_step_def)
    moreover have "timed c'" "c_config c' = c_config c" using fl wf(3) by (auto simp: flow_def)
    moreover have "\<exists>q \<in> set (c_unacked c'). \<not> us_sacked (snd q) \<and> unat (us_retransmit_count (snd q)) = Suc j"
      using D(1) p c0(1) j drain_keeps_unacked [OF inv1 dr(1)] by auto
    moreover have "j < unat (max_retries (c_config c))"
      using D(2) p c0(1) j False by (force simp: c0_def)
    ultimately show ?thesis
      using that [OF on] dr(2) G(2,4) F(8) by (simp add: retried_def c0_def)
  qed
qed

text \<open>A connection that waits for the acknowledgement of its FIN, sent \<open>j\<close> times.\<close>

definition fin_retried :: "nat \<Rightarrow> conn \<Rightarrow> bool" where
  "fin_retried j c \<longleftrightarrow> c_state c = Closing \<and> conn_wf c \<and> timed c \<and> c_unacked c = [] \<and> c_send_queue c = []
     \<and> (\<exists>f. c_fin_pending c = Some f \<and> unat (pc_attempts f) = j)"

lemma idle_drain:
  assumes "c_state c = Closing" and "c_send_queue c = []" and "\<not> c_fin_acked c"
  shows "drain_and_maybe_fin c = Some (c, [])"
proof -
  have "admit_loop c [] = Some (c, [])" using assms(2) by (subst admit_loop.simps) simp
  then show ?thesis
    using assms by (simp add: drain_and_maybe_fin_def try_send_more_def maybe_send_fin_def check_fully_closed_def)
qed

lemma silent_fin_tick:
  assumes inv: "conn_inv S R P c" and r: "fin_retried j c" and j: "Suc j < 2 ^ 32"
    and due: "unat (ticks (c_now c)) + unat (max_rto (c_config c)) \<le> unat (ticks t)"
  obtains c' out where "on_tick c t = Some (c', out)" "c_config c' = c_config c"
    "failure c' = Some TooManyRetries
     \<or> j < unat (max_retries (c_config c)) \<and> conn_inv S R P c' \<and> c_now c' = t \<and> fin_retried (Suc j) c'"
proof -
  note sp = spaced_sub [OF due]
  obtain f where f: "c_fin_pending c = Some f" "unat (pc_attempts f) = j"
    and wf: "c_state c = Closing" "conn_wf c" "timed c" "c_unacked c = []" "c_send_queue c = []"
    using r by (auto simp: fin_retried_def)
  have na: "\<not> c_fin_acked c" using wf(1,2) f(1) by (auto simp: wf_defs)
  have n: "unat (pc_attempts f + 1) = Suc j" using f(2) j by (simp add: unat_word_ariths)
  obtain rto where rto: "rto_current (c_rto c) = Some rto" "rto \<le> max_rto (c_config c)"
    using rto_current_le_max [of "c_rto c"] inv wf(3) by (auto simp: conn_inv_def conn_ok_def timed_def)
  have "pc_sent_at f \<le> c_now c" using wf(3) f(1) by (simp add: timed_def)
  then have late: "rto \<le> tick_sub t (pc_sent_at f)"
    using sp due rto(2) by (simp add: tick_sub_def less_eq_tick_def word_le_nat_alt unat_sat_sub)
  define c1 where "c1 = c\<lparr>c_now := t, c_rto := on_timeout (c_rto c),
    c_fin_pending := Some \<lparr>pc_sent_at = t, pc_attempts = pc_attempts f + 1\<rparr>,
    c_stats := (c_stats c)\<lparr>control_retransmissions := control_retransmissions (c_stats c) + 1\<rparr>\<rparr>"
  have "drain_and_maybe_fin c1 = Some (c1, [])"
    using wf na by (intro idle_drain) (simp_all add: c1_def)
  then have tick: "on_tick c t = (if max_retries (c_config c) < pc_attempts f + 1
      then Some (c\<lparr>c_now := t, c_state := Failed TooManyRetries, c_fin_pending := None\<rparr>, [])
      else Some (c1, [build_fin c1]))"
    using wf f(1) rto(1) late sp(2)
    by (simp add: on_tick_def established_tick_def fin_tick_def Let_def c1_def)
  show thesis
  proof (cases "max_retries (c_config c) < pc_attempts f + 1")
    case True
    then show ?thesis using that [OF tick [unfolded if_P [OF True]]] by (simp add: failure_def)
  next
    case False
    have on: "on_tick c t = Some (c1, [build_fin c1])" using tick False by simp
    have "conn_inv S R P c1" using on_tick_ok [OF inv, of t] on by (simp add: op_ok_def)
    moreover have "conn_wf c1" using on_tick_typed [OF wf(2), of t] on by (simp add: typed_step_def)
    moreover have "timed c1" using wf(3,4) by (simp add: timed_def c1_def on_timeout_def)
    moreover have "j < unat (max_retries (c_config c))" using False n by (simp add: word_less_nat_alt)
    ultimately show ?thesis
      using that [OF on] wf(1,4,5) n by (simp add: fin_retried_def) (simp add: c1_def)
  qed
qed

lemma failed_stays: "failure c = Some r \<Longrightarrow> \<exists>c'. tick_all c ts = Some (c', []) \<and> failure c' = Some r"
proof (induction ts arbitrary: c)
  case (Cons t ts)
  have st: "c_state c = Failed r" using Cons.prems by (cases "c_state c") (auto simp: failure_def)
  then have "failure (c\<lparr>c_now := max (c_now c) t\<rparr>) = Some r" by (simp add: failure_def)
  then obtain c' where "tick_all (c\<lparr>c_now := max (c_now c) t\<rparr>) ts = Some (c', [])" "failure c' = Some r"
    using Cons.IH by blast
  then show ?case using st by (simp add: on_tick_def Let_def)
qed simp

text \<open>Data or a FIN: either is retransmitted at every tick until the retries are used up.\<close>

lemma fin_waiting_gives_up:
  assumes "conn_inv S R P c" and "retried j c \<or> fin_retried j c" and "Suc j < 2 ^ 32"
    and "unat (max_retries (c_config c)) < 2 ^ 32 - 1" and "spaced (max_rto (c_config c)) (c_now c) ts"
    and "unat (max_retries (c_config c)) - j < length ts"
  shows "\<exists>c' out. tick_all c ts = Some (c', out) \<and> failure c' = Some TooManyRetries"
  using assms
proof (induction ts arbitrary: j c)
  case (Cons t ts)
  have due: "unat (ticks (c_now c)) + unat (max_rto (c_config c)) \<le> unat (ticks t)"
    using Cons.prems(5) by simp
  obtain c1 out where t: "on_tick c t = Some (c1, out)" "c_config c1 = c_config c"
    "failure c1 = Some TooManyRetries
     \<or> j < unat (max_retries (c_config c)) \<and> conn_inv S R P c1 \<and> c_now c1 = t
       \<and> (retried (Suc j) c1 \<or> fin_retried (Suc j) c1)"
    using silent_tick [OF Cons.prems(1) _ Cons.prems(3) due]
      silent_fin_tick [OF Cons.prems(1) _ Cons.prems(3) due] Cons.prems(2) by metis
  have "\<exists>c' out. tick_all c1 ts = Some (c', out) \<and> failure c' = Some TooManyRetries"
  proof (cases "failure c1 = Some TooManyRetries")
    case True
    then show ?thesis using failed_stays by blast
  next
    case False
    then show ?thesis using t(2,3) Cons.prems(4-6) by (intro Cons.IH [of c1 "Suc j"]) auto
  qed
  then show ?case using t(1) by auto
qed simp

text \<open>An endpoint with data or a FIN outstanding is in one of the two situations, or has failed.\<close>

lemma outstanding_cases:
  assumes inv: "pair_inv me peer"
    and out: "c_unacked (ep_conn me) \<noteq> [] \<or> c_fin_pending (ep_conn me) \<noteq> None"
  obtains "failure (ep_conn me) = Some TooManyRetries"
  | p where "p \<in> set (c_unacked (ep_conn me))" "retried (unat (us_retransmit_count (snd p))) (ep_conn me)"
  | f where "c_fin_pending (ep_conn me) = Some f" "fin_retried (unat (pc_attempts f)) (ep_conn me)"
proof -
  let ?c = "ep_conn me"
  obtain K KP where K: "ep_cuts K KP me peer" "told K me peer" and ep: "ep_inv me peer"
    and h: "conn_wf ?c" "timed ?c" using inv by (auto simp: pair_inv_def healthy_def)
  have closed: "c_unacked ?c = []" "c_send_queue ?c = []" if "c_state ?c = Closing \<or> c_state ?c = Closed"
  proof -
    have fd: "fin_done ?c" using K(1) that by (auto simp: ep_cuts_def cut_inv_def fin_cuts_def)
    then show "c_send_queue ?c = []" by (simp add: fin_done_def)
    show "c_unacked ?c = []" using pair_inv_unacked(3) [OF inv] that by blast
  qed
  show thesis
  proof (cases "c_state ?c")
    case Established
    then have u: "c_unacked ?c \<noteq> []" "failure ?c = None" using h(1) out by (auto simp: wf_defs failure_def)
    then obtain p where p: "p \<in> set (c_unacked ?c)" "fst p = c_send_base ?c"
      using oldest_unacked [OF inv] by blast
    have "\<not> us_sacked (snd p)" using sacked_received(2) [OF K(2,1) p(1)] p(2) by auto
    then have "retried (unat (us_retransmit_count (snd p))) ?c" using p(1) h Established by (auto simp: retried_def)
    with p(1) show ?thesis by (rule that(2))
  next
    case Closing
    then obtain f where "c_fin_pending ?c = Some f" using closed out by auto
    moreover from this have "fin_retried (unat (pc_attempts f)) ?c"
      using Closing closed h by (auto simp: fin_retried_def)
    ultimately show ?thesis by (rule that(3))
  next
    case (Failed r)
    then show ?thesis using that(1) by (cases r) (simp add: failure_def)
  qed (use h(1) out closed in \<open>auto simp: wf_defs\<close>)
qed

text \<open>C33. A peer that falls silent is given up on, in the middle of a transfer and in the middle of the
  close: from any state reachable without a \<open>send\<close> after the same side's \<open>close\<close>, with data in flight or
  a FIN unacknowledged (and neither a retransmission counter nor \<open>max_retries\<close> at the 32-bit limit),
  \<open>max_retries + 1\<close> timer ticks at least \<open>max_rto\<close> apart without a datagram end in the failure
  \<open>TooManyRetries\<close>; whatever is called and whatever arrives afterwards, no call panics and the connection
  stays failed.\<close>

theorem silent_peer_fails:
  assumes "polite_reachable cfg cfg' l"
    and "(me, peer) = (client l, server l) \<or> (me, peer) = (server l, client l)"
    and "c_unacked (ep_conn me) \<noteq> [] \<or> c_fin_pending (ep_conn me) \<noteq> None"
    and "\<forall>p \<in> set (c_unacked (ep_conn me)). us_retransmit_count (snd p) < - 1"
    and "\<forall>f. c_fin_pending (ep_conn me) = Some f \<longrightarrow> pc_attempts f < - 1"
    and "max_retries (c_config (ep_conn me)) < - 1"
    and "spaced (max_rto (c_config (ep_conn me))) (c_now (ep_conn me)) ts"
    and "unat (max_retries (c_config (ep_conn me))) < length ts"
  shows "\<exists>c out. tick_all (ep_conn me) ts = Some (c, out) \<and> failure c = Some TooManyRetries
    \<and> (\<forall>evs. \<exists>e. ep_run (me\<lparr>ep_conn := c\<rparr>) evs = Some e \<and> failure (ep_conn e) = Some TooManyRetries)"
proof -
  have final: "\<exists>e. ep_run (me\<lparr>ep_conn := c\<rparr>) evs = Some e \<and> failure (ep_conn e) = Some TooManyRetries"
    if "failure c = Some TooManyRetries" for c evs
    using ended_run [of "me\<lparr>ep_conn := c\<rparr>" evs] that by (auto simp: ended_def failure_def)
  have "pair_inv (client l) (server l)"
    using recovery.reachable_inv [OF assms(1)] by (simp add: recovery_inv_def)
  then have inv: "pair_inv me peer" using assms(2) pair_inv_sym by auto
  have lim: "unat n < 2 ^ 32 - 1" if "n < (- 1 :: u32)" for n
    using that by (simp add: word_less_nat_alt unsigned_minus_1_eq_mask mask_eq_exp_minus_1)
  have ok: "conn_inv (ep_sent me) (ep_recvd me) (ep_tx peer) (ep_conn me)"
    using inv by (simp add: pair_inv_def ep_inv_def)
  have up: "\<exists>c out. tick_all (ep_conn me) ts = Some (c, out) \<and> failure c = Some TooManyRetries"
    if "retried j (ep_conn me) \<or> fin_retried j (ep_conn me)" "j < 2 ^ 32 - 1" for j
    using fin_waiting_gives_up [OF ok that(1) _ lim [OF assms(6)] assms(7)] that(2) assms(8) by simp
  from inv assms(3) have "\<exists>c out. tick_all (ep_conn me) ts = Some (c, out) \<and> failure c = Some TooManyRetries"
  proof (rule outstanding_cases)
    assume "failure (ep_conn me) = Some TooManyRetries"
    then show ?thesis using failed_stays by blast
  next
    fix p assume "p \<in> set (c_unacked (ep_conn me))" "retried (unat (us_retransmit_count (snd p))) (ep_conn me)"
    then show ?thesis using up lim assms(4) by blast
  next
    fix f assume "c_fin_pending (ep_conn me) = Some f" "fin_retried (unat (pc_attempts f)) (ep_conn me)"
    then show ?thesis using up lim assms(5) by blast
  qed
  then show ?thesis using final by blast
qed

theorem silent_peer_fails_witness:
  "\<exists>l c out. polite_reachable small_config small_config l
     \<and> tick_all (ep_conn (client l)) [Tick 100, Tick 200, Tick 300, Tick 400] = Some (c, out)
     \<and> failure c = Some TooManyRetries"
proof -
  obtain l seg where l: "polite_reachable small_config small_config l" "c_state (ep_conn (client l)) = Established"
    "retriable (ep_conn (client l))" "c_config (ep_conn (client l)) = small_config"
    "c_now (ep_conn (client l)) = Tick 11" "(2, seg) \<in> set (c_unacked (ep_conn (client l)))"
    by (rule damage_run_reachable)
  have "us_retransmit_count (snd p) < - 1" if "p \<in> set (c_unacked (ep_conn (client l)))" for p
    using l(3,4) that by (force simp: retriable_def small_config_def intro: less_trans)
  moreover have "c_fin_pending (ep_conn (client l)) = None"
    using recovery.reachable_inv [OF l(1)] l(2)
    by (simp add: recovery_inv_def pair_inv_def healthy_def wf_defs)
  moreover have "spaced (max_rto small_config) (Tick 11) [Tick 100, Tick 200, Tick 300, Tick 400]"
    "unat (max_retries small_config) < length [Tick 100, Tick 200, Tick 300, Tick 400]"
    "max_retries small_config < - 1" by (simp_all add: small_config_def)
  ultimately show ?thesis
    using silent_peer_fails [OF l(1), of "client l" "server l" "[Tick 100, Tick 200, Tick 300, Tick 400]"] l
    by (metis empty_iff empty_set option.distinct(1))
qed

end
