(* ===== verification/Framing.thy ===== *)
theory Framing
  imports Prelude
begin

text \<open>
  The length-prefixed framing of \<^verbatim>\<open>crates/rpc/src/framing.rs\<close>: \<open>frame\<close> and the \<open>FrameReader\<close>
  that cuts the byte stream back into frames, however it arrives chunked. The locale
  \<open>message_codec\<close> is what a message format owes to travel over such a stream.
\<close>

section \<open>Operations\<close>

definition LEN_PREFIX :: nat where "LEN_PREFIX = 4"

definition rpc_frame :: "bytes \<Rightarrow> bytes" where
  "rpc_frame p = le32 (word_of_nat (length p)) @ p"

record frame_reader =
  buf :: bytes

definition reader_new :: frame_reader where
  "reader_new = \<lparr>buf = []\<rparr>"

definition feed :: "frame_reader \<Rightarrow> bytes \<Rightarrow> frame_reader" where
  "feed r bs = r\<lparr>buf := buf r @ bs\<rparr>"

text \<open>The loop of \<open>drain_frames\<close> on the buffer: the frames cut off, and the bytes left.\<close>

function drain_loop :: "bytes \<Rightarrow> bytes list \<times> bytes" where
  "drain_loop b =
    (if length b < LEN_PREFIX then ([], b)
     else let len = unat (from_le (take LEN_PREFIX b) :: u32) in
       if length b < LEN_PREFIX + len then ([], b)
       else let b1 = drop LEN_PREFIX b; (frames, rest) = drain_loop (drop len b1)
            in (take len b1 # frames, rest))"
  by pat_completeness auto
termination by (relation "measure length") (auto simp: LEN_PREFIX_def)

declare drain_loop.simps [simp del]

definition drain_frames :: "frame_reader \<Rightarrow> bytes list \<times> frame_reader" where
  "drain_frames r = (case drain_loop (buf r) of (frames, rest) \<Rightarrow> (frames, r\<lparr>buf := rest\<rparr>))"

section \<open>Cutting a stream\<close>

lemma drain_loop_short: "length b < 4 \<Longrightarrow> drain_loop b = ([], b)"
  by (subst drain_loop.simps) (simp add: LEN_PREFIX_def)

lemma drain_loop_partial:
  "4 \<le> length b \<Longrightarrow> length b < 4 + unat (from_le (take 4 b) :: u32) \<Longrightarrow> drain_loop b = ([], b)"
  by (subst drain_loop.simps) (simp add: LEN_PREFIX_def)

lemma drain_loop_frame:
  assumes "4 \<le> length b" and "n = unat (from_le (take 4 b) :: u32)" and "4 + n \<le> length b"
  shows "drain_loop b = (take n (drop 4 b) # fst (drain_loop (drop (n + 4) b)),
    snd (drain_loop (drop (n + 4) b)))"
  unfolding drain_loop.simps [of b] LEN_PREFIX_def Let_def assms(2) [symmetric]
  using assms(1,3) by (simp add: case_prod_beta)

text \<open>More input only appends: what was cut stays cut, and the rest is resumed from.\<close>

lemma drain_loop_append:
  "drain_loop (xs @ ys) = (fst (drain_loop xs) @ fst (drain_loop (snd (drain_loop xs) @ ys)),
     snd (drain_loop (snd (drain_loop xs) @ ys)))"
proof (induction xs rule: drain_loop.induct)
  case (1 xs)
  let ?n = "unat (from_le (take 4 xs) :: u32)"
  show ?case
  proof (cases "4 \<le> length xs \<and> 4 + ?n \<le> length xs")
    case True
    then have n: "unat (from_le (take 4 (xs @ ys)) :: u32) = ?n" by simp
    note step = drain_loop_frame [of xs ?n] and step' = drain_loop_frame [of "xs @ ys" ?n]
    have "drain_loop (drop (?n + 4) xs @ ys) =
        (fst (drain_loop (drop (?n + 4) xs)) @ fst (drain_loop (snd (drain_loop (drop (?n + 4) xs)) @ ys)),
         snd (drain_loop (snd (drain_loop (drop (?n + 4) xs)) @ ys)))"
      using 1 True by (simp add: LEN_PREFIX_def)
    then show ?thesis using True n step step' by simp
  next
    case False
    then have "drain_loop xs = ([], xs)"
      by (cases "length xs < 4") (auto intro: drain_loop_short drain_loop_partial)
    then show ?thesis by simp
  qed
qed

lemma drain_loop_one:
  assumes "length p < 2 ^ 32"
  shows "drain_loop (rpc_frame p @ rest) = (p # fst (drain_loop rest), snd (drain_loop rest))"
proof -
  have "take 4 (rpc_frame p @ rest) = le32 (word_of_nat (length p))" by (simp add: rpc_frame_def)
  then have "unat (from_le (take 4 (rpc_frame p @ rest)) :: u32) = length p"
    using assms by (simp add: unat_of_nat)
  then have "drain_loop (rpc_frame p @ rest) = (take (length p) (drop 4 (rpc_frame p @ rest))
      # fst (drain_loop (drop (length p + 4) (rpc_frame p @ rest))),
      snd (drain_loop (drop (length p + 4) (rpc_frame p @ rest))))"
    by (intro drain_loop_frame) (simp_all add: rpc_frame_def)
  then show ?thesis by (simp add: rpc_frame_def)
qed

lemma drain_loop_frames:
  assumes "list_all (\<lambda>p. length p < 2 ^ 32) ps"
  shows "drain_loop (concat (map rpc_frame ps) @ rest) = (ps @ fst (drain_loop rest), snd (drain_loop rest))"
  using assms by (induction ps) (simp_all add: drain_loop_one)

lemma drain_loop_prefix:
  assumes "prefix b (concat (map rpc_frame ps))" and "list_all (\<lambda>p. length p < 2 ^ 32) ps"
  shows "prefix (fst (drain_loop b)) ps"
proof -
  obtain ys where "concat (map rpc_frame ps) = b @ ys" using assms(1) by (auto simp: prefix_def)
  moreover have "drain_loop (concat (map rpc_frame ps)) = (ps, [])"
    using drain_loop_frames [OF assms(2), of "[]"] by (simp add: drain_loop_short)
  ultimately have "ps = fst (drain_loop b) @ fst (drain_loop (snd (drain_loop b) @ ys))"
    using drain_loop_append [of b ys] by simp
  then show ?thesis by (metis prefixI)
qed

text \<open>Nothing is lost or invented: the frames and the rest are the input again.\<close>

lemma drain_loop_rejoin: "concat (map rpc_frame (fst (drain_loop b))) @ snd (drain_loop b) = b"
proof (induction b rule: drain_loop.induct)
  case (1 b)
  let ?n = "unat (from_le (take 4 b) :: u32)"
  show ?case
  proof (cases "4 \<le> length b \<and> 4 + ?n \<le> length b")
    case True
    have "concat (map rpc_frame (fst (drain_loop (drop (?n + 4) b)))) @ snd (drain_loop (drop (?n + 4) b))
        = drop (?n + 4) b"
      using 1 True by (simp add: LEN_PREFIX_def)
    moreover have "rpc_frame (take ?n (drop 4 b)) = take (4 + ?n) b"
    proof -
      have "le32 (word_of_nat ?n) = take 4 b" using True by (simp add: to_le_from_le)
      moreover have "length (take ?n (drop 4 b)) = ?n" using True by (auto simp: min_def)
      ultimately show ?thesis using True by (simp only: rpc_frame_def take_add)
    qed
    ultimately show ?thesis
      using drain_loop_frame [of b ?n] True by (simp add: add.commute)
  next
    case False
    then have "drain_loop b = ([], b)"
      by (cases "length b < 4") (auto intro: drain_loop_short drain_loop_partial)
    then show ?thesis by simp
  qed
qed

section \<open>The reader over a chunked stream\<close>

fun read_chunks :: "frame_reader \<Rightarrow> bytes list \<Rightarrow> bytes list \<times> frame_reader" where
  "read_chunks r [] = ([], r)"
| "read_chunks r (c # cs) =
    (let (frames, r') = drain_frames (feed r c); (frames', r'') = read_chunks r' cs
     in (frames @ frames', r''))"

lemma drain_loop_rest: "drain_loop (snd (drain_loop b)) = ([], snd (drain_loop b))"
  using drain_loop_append [of b "[]"] by (metis append_Nil2 fst_conv self_append_conv snd_conv prod.collapse)

lemma read_chunks_drain:
  "drain_loop (buf r) = ([], buf r) \<Longrightarrow>
   read_chunks r cs = (fst (drain_loop (buf r @ concat cs)), r\<lparr>buf := snd (drain_loop (buf r @ concat cs))\<rparr>)"
proof (induction cs arbitrary: r)
  case Nil
  then show ?case by simp
next
  case (Cons c cs)
  let ?r = "r\<lparr>buf := snd (drain_loop (buf r @ c))\<rparr>"
  have "drain_frames (feed r c) = (fst (drain_loop (buf r @ c)), ?r)"
    by (simp add: drain_frames_def feed_def case_prod_beta)
  moreover have "read_chunks ?r cs = (fst (drain_loop (buf ?r @ concat cs)),
      ?r\<lparr>buf := snd (drain_loop (buf ?r @ concat cs))\<rparr>)"
    by (rule Cons.IH) (simp add: drain_loop_rest)
  ultimately show ?case
    using drain_loop_append [of "buf r @ c" "concat cs"] by simp
qed

section \<open>Message codecs\<close>

locale message_codec =
  fixes enc :: "'m \<Rightarrow> bytes" and dec :: "bytes \<Rightarrow> 'm option" and fits :: "'m \<Rightarrow> bool"
  assumes dec_enc: "dec (enc m) = Some m"
    and enc_fits: "fits m \<Longrightarrow> length (enc m) < 2 ^ 32"
begin

lemma inj_enc: "enc m = enc m' \<Longrightarrow> m = m'"
  by (metis dec_enc option.inject)

lemma decode_encoded: "List.map_filter dec (map enc ms) = ms"
  by (induction ms) (simp_all add: List.map_filter_simps dec_enc)

text \<open>A stream of encoded messages is read back, and a prefix of it as a prefix.\<close>

lemma read_messages:
  assumes "list_all fits ms"
  shows "List.map_filter dec (fst (drain_loop (concat (map (\<lambda>m. rpc_frame (enc m)) ms)))) = ms"
proof -
  have "list_all (\<lambda>p. length p < 2 ^ 32) (map enc ms)"
    using assms enc_fits by (simp add: list_all_iff)
  then have "fst (drain_loop (concat (map rpc_frame (map enc ms)))) = map enc ms"
    using drain_loop_frames [of "map enc ms" "[]"] by (simp add: drain_loop_short)
  then show ?thesis using decode_encoded [of ms] by (simp add: comp_def)
qed

lemma read_prefix:
  assumes "prefix b (concat (map (\<lambda>m. rpc_frame (enc m)) ms))" and "list_all fits ms"
  shows "prefix (List.map_filter dec (fst (drain_loop b))) ms"
proof -
  have "list_all (\<lambda>p. length p < 2 ^ 32) (map enc ms)"
    using assms(2) enc_fits by (simp add: list_all_iff)
  then have "prefix (fst (drain_loop b)) (map enc ms)"
    using drain_loop_prefix [of b "map enc ms"] assms(1) by (simp add: comp_def)
  then obtain ns where "map enc ms = fst (drain_loop b) @ ns" by (auto simp: prefix_def)
  then obtain k where "fst (drain_loop b) = map enc (take k ms)"
    by (metis append_eq_conv_conj take_map)
  then show ?thesis by (simp add: decode_encoded take_is_prefix)
qed

end

section \<open>Properties\<close>

text \<open>C26. Reassembly does not depend on chunking: however the stream of framed messages, followed by part
  of a further frame, is cut into pieces, the reader yields exactly the messages, in order, and keeps the
  unfinished tail.\<close>

theorem framing_chunk_independent:
  assumes "concat chunks = concat (map rpc_frame ps) @ rest" and "list_all (\<lambda>p. length p < 2 ^ 32) ps"
    and "length rest < 4 \<or> length rest < 4 + unat (from_le (take 4 rest) :: u32)"
  shows "read_chunks reader_new chunks = (ps, \<lparr>buf = rest\<rparr>)"
proof -
  have "drain_loop rest = ([], rest)"
    using assms(3) by (cases "length rest < 4") (auto intro: drain_loop_short drain_loop_partial)
  then have "drain_loop (concat chunks) = (ps, rest)"
    using drain_loop_frames [OF assms(2), of rest] assms(1) by simp
  then show ?thesis
    using read_chunks_drain [of reader_new chunks] by (simp add: reader_new_def drain_loop_short)
qed

theorem framing_chunk_independent_witness:
  "read_chunks reader_new [[2, 0, 0], [0, 7], [8, 1, 0, 0, 0, 9, 5]] = ([[7, 8], [9]], \<lparr>buf = [5]\<rparr>)"
  by (rule framing_chunk_independent [of _ "[[7, 8], [9]]"])
    (simp_all add: rpc_frame_def le_eval)

text \<open>The reader neither loses nor invents bytes: the frames it cut off, framed again, followed by what
  it still buffers, are the bytes it was fed.\<close>

theorem framing_lossless:
  "concat (map rpc_frame (fst (read_chunks reader_new chunks))) @ buf (snd (read_chunks reader_new chunks))
     = concat chunks"
  using read_chunks_drain [of reader_new chunks] drain_loop_rejoin [of "concat chunks"]
  by (simp add: reader_new_def drain_loop_short)

end
