(* ===== verification/Message.thy ===== *)
theory Message
  imports Framing
begin

text \<open>
  Requests and responses, \<^verbatim>\<open>crates/rpc/src/message.rs\<close>: both a 64-bit id, one byte and a payload.
  Each codec is an interpretation of \<open>message_codec\<close>, so a stream of either is read back by the
  frame reader.
\<close>

record request =
  rq_id :: u64
  rq_method :: u8
  rq_payload :: bytes

record response =
  rs_id :: u64
  rs_ok :: bool
  rs_payload :: bytes

definition request_encode :: "request \<Rightarrow> bytes" where
  "request_encode r = le64 (rq_id r) @ [rq_method r] @ rq_payload r"

definition request_decode :: "bytes \<Rightarrow> request option" where
  "request_decode bs =
    (if length bs < 9 then None
     else Some \<lparr>rq_id = from_le (slice_of 0 8 bs), rq_method = bs ! 8, rq_payload = drop 9 bs\<rparr>)"

definition response_encode :: "response \<Rightarrow> bytes" where
  "response_encode r = le64 (rs_id r) @ [of_bool (rs_ok r)] @ rs_payload r"

definition response_decode :: "bytes \<Rightarrow> response option" where
  "response_decode bs =
    (if length bs < 9 then None
     else Some \<lparr>rs_id = from_le (slice_of 0 8 bs), rs_ok = (bs ! 8 \<noteq> 0), rs_payload = drop 9 bs\<rparr>)"

lemma length_request_encode [simp, codec]: "length (request_encode r) = 9 + length (rq_payload r)"
  by (simp add: request_encode_def)

lemma length_response_encode [simp, codec]: "length (response_encode r) = 9 + length (rs_payload r)"
  by (simp add: response_encode_def)

lemma request_decode_encode [simp, codec]: "request_decode (request_encode r) = Some r"
  by (simp add: request_decode_def request_encode_def slice_of_def nth_append)

lemma response_decode_encode [simp, codec]: "response_decode (response_encode r) = Some r"
  by (simp add: response_decode_def response_encode_def slice_of_def nth_append)

lemma id_bytes: "9 \<le> length bs \<Longrightarrow> le64 (from_le (slice_of 0 8 bs)) @ bs ! 8 # drop 9 bs = bs"
proof -
  assume len: "9 \<le> length bs"
  then have "le64 (from_le (slice_of 0 8 bs)) = take 8 bs"
    by (subst to_le_from_le) (simp_all add: slice_of_def)
  moreover have "take 8 bs @ bs ! 8 # drop (Suc 8) bs = bs"
    using len by (intro id_take_nth_drop [symmetric]) simp
  ultimately show ?thesis by (simp add: eval_nat_numeral)
qed

text \<open>A request is determined by its bytes; a response up to the encoding of its flag.\<close>

lemma request_encode_decode: "request_decode bs = Some r \<Longrightarrow> request_encode r = bs"
  using id_bytes [of bs] by (auto simp: request_decode_def request_encode_def split: if_splits)

lemma response_encode_decode:
  "response_decode bs = Some r \<Longrightarrow> bs ! 8 \<in> {0, 1} \<Longrightarrow> response_encode r = bs"
  using id_bytes [of bs] by (auto simp: response_decode_def response_encode_def split: if_splits)

definition request_fits :: "request \<Rightarrow> bool" where
  "request_fits r \<longleftrightarrow> length (rq_payload r) + 9 < 2 ^ 32"

definition response_fits :: "response \<Rightarrow> bool" where
  "response_fits r \<longleftrightarrow> length (rs_payload r) + 9 < 2 ^ 32"

interpretation requests: message_codec request_encode request_decode request_fits
  by unfold_locales (simp_all add: request_fits_def)

interpretation responses: message_codec response_encode response_decode response_fits
  by unfold_locales (simp_all add: response_fits_def)

section \<open>Properties\<close>

text \<open>Requests and responses survive the wire: decoding the frames of a stream of encoded messages
  gives the messages back, in order.\<close>

theorem messages_survive_stream:
  assumes "list_all request_fits qs" and "list_all response_fits as"
  shows "List.map_filter request_decode (fst (drain_loop (concat (map (\<lambda>q. rpc_frame (request_encode q)) qs)))) = qs
    \<and> List.map_filter response_decode (fst (drain_loop (concat (map (\<lambda>a. rpc_frame (response_encode a)) as)))) = as"
  using requests.read_messages [OF assms(1)] responses.read_messages [OF assms(2)] by simp

theorem messages_survive_stream_witness:
  "List.map_filter request_decode (fst (drain_loop (concat (map (\<lambda>q. rpc_frame (request_encode q))
     [\<lparr>rq_id = 1, rq_method = 2, rq_payload = [3]\<rparr>, \<lparr>rq_id = 4, rq_method = 5, rq_payload = []\<rparr>]))))
   = [\<lparr>rq_id = 1, rq_method = 2, rq_payload = [3]\<rparr>, \<lparr>rq_id = 4, rq_method = 5, rq_payload = []\<rparr>]"
  using messages_survive_stream [of "[\<lparr>rq_id = 1, rq_method = 2, rq_payload = [3]\<rparr>,
      \<lparr>rq_id = 4, rq_method = 5, rq_payload = []\<rparr>]" "[]"]
  by (simp add: request_fits_def)

end
