(* ===== verification/Rpc_Client.thy ===== *)
theory Rpc_Client
  imports Message Connection "HOL-Library.Monad_Syntax" "HOL-Library.Multiset"
begin

text \<open>
  The RPC client, \<^verbatim>\<open>crates/rpc/src/client.rs\<close>. The pending calls are a \<open>HashMap\<close>, whose iteration
  order the standard library leaves unspecified: \<open>client_on_tick\<close> takes the order in which the map
  is visited as an argument, and what is proved of it holds for every order.
\<close>

record pending_call =
  pk_request :: request
  pk_sent_at :: tick
  pk_attempts :: u32

record rpc_client =
  cl_conn :: conn
  cl_reader :: frame_reader
  cl_next_id :: u64
  cl_pending :: "u64 \<rightharpoonup> pending_call"
  cl_completed :: "(u64 \<times> response) list"
  cl_retry_deadline :: u64
  cl_max_attempts :: u32
  cl_failed :: "u64 list"

definition client_new :: "conn \<Rightarrow> u64 \<Rightarrow> u32 \<Rightarrow> rpc_client" where
  "client_new c retry_deadline max_attempts =
    \<lparr>cl_conn = c, cl_reader = reader_new, cl_next_id = 0, cl_pending = Map.empty, cl_completed = [],
     cl_retry_deadline = retry_deadline, cl_max_attempts = max_attempts, cl_failed = []\<rparr>"

definition client_call ::
  "rpc_client \<Rightarrow> tick \<Rightarrow> u8 \<Rightarrow> bytes \<Rightarrow> (u64 \<times> rpc_client \<times> bytes list) option" where
  "client_call c now method p =
    (let id = cl_next_id c;
         req = \<lparr>rq_id = id, rq_method = method, rq_payload = p\<rparr>
     in map_option (\<lambda>(cn, out).
          (id, c\<lparr>cl_next_id := id + 1, cl_conn := cn,
                 cl_pending := (cl_pending c)(id \<mapsto>
                   \<lparr>pk_request = req, pk_sent_at = now, pk_attempts = 1\<rparr>)\<rparr>, out))
        (conn_send (cl_conn c) now (rpc_frame (request_encode req))))"

text \<open>The loop over the frames read: a response to a pending call completes it.\<close>

definition take_response :: "bytes \<Rightarrow> rpc_client \<Rightarrow> rpc_client" where
  "take_response f c =
    (case response_decode f of
       None \<Rightarrow> c
     | Some r \<Rightarrow>
        (case cl_pending c (rs_id r) of
           None \<Rightarrow> c
         | Some _ \<Rightarrow> c\<lparr>cl_pending := (cl_pending c)(rs_id r := None),
                       cl_completed := cl_completed c @ [(rs_id r, r)]\<rparr>))"

definition client_on_datagram ::
  "rpc_client \<Rightarrow> tick \<Rightarrow> bytes \<Rightarrow> (rpc_client \<times> bytes list) option" where
  "client_on_datagram c now datagram = do {
     (cn, out) \<leftarrow> on_datagram (cl_conn c) now datagram;
     let (cn, bytes) = conn_recv cn;
     let (frames, reader) = drain_frames (feed (cl_reader c) bytes);
     Some (fold take_response frames (c\<lparr>cl_conn := cn, cl_reader := reader\<rparr>), out)
   }"

text \<open>The loop of \<open>on_tick\<close> over the pending calls, in the order \<open>ids\<close>.\<close>

fun retry_loop :: "tick \<Rightarrow> u64 list \<Rightarrow> rpc_client \<Rightarrow> bytes list \<Rightarrow> u64 list
    \<Rightarrow> (rpc_client \<times> bytes list \<times> u64 list) option" where
  "retry_loop now [] c out to_fail = Some (c, out, to_fail)"
| "retry_loop now (i # ids) c out to_fail =
    (case cl_pending c i of
       None \<Rightarrow> retry_loop now ids c out to_fail
     | Some call \<Rightarrow>
        if cl_retry_deadline c \<le> tick_sub now (pk_sent_at call)
        then let call = call\<lparr>pk_attempts := pk_attempts call + 1\<rparr> in
          if cl_max_attempts c < pk_attempts call
          then retry_loop now ids (c\<lparr>cl_pending := (cl_pending c)(i \<mapsto> call)\<rparr>) out (to_fail @ [i])
          else do {
            (cn, out') \<leftarrow> conn_send (cl_conn c) now (rpc_frame (request_encode (pk_request call)));
            retry_loop now ids
              (c\<lparr>cl_conn := cn, cl_pending := (cl_pending c)(i \<mapsto> call\<lparr>pk_sent_at := now\<rparr>)\<rparr>)
              (out @ out') to_fail
          }
        else retry_loop now ids c out to_fail)"

definition fail_call :: "u64 \<Rightarrow> rpc_client \<Rightarrow> rpc_client" where
  "fail_call i c = c\<lparr>cl_pending := (cl_pending c)(i := None), cl_failed := cl_failed c @ [i]\<rparr>"

definition client_on_tick ::
  "u64 list \<Rightarrow> rpc_client \<Rightarrow> tick \<Rightarrow> (rpc_client \<times> bytes list) option" where
  "client_on_tick ids c now = do {
     (cn, out) \<leftarrow> on_tick (cl_conn c) now;
     (c, out, to_fail) \<leftarrow> retry_loop now ids (c\<lparr>cl_conn := cn\<rparr>) out [];
     Some (fold fail_call to_fail c, out)
   }"

definition poll_completed :: "rpc_client \<Rightarrow> (u64 \<times> response) list \<times> rpc_client" where
  "poll_completed c = (cl_completed c, c\<lparr>cl_completed := []\<rparr>)"

definition poll_failed :: "rpc_client \<Rightarrow> u64 list \<times> rpc_client" where
  "poll_failed c = (cl_failed c, c\<lparr>cl_failed := []\<rparr>)"

definition pending_count :: "rpc_client \<Rightarrow> nat" where
  "pending_count c = card (dom (cl_pending c))"

text \<open>What the map may hand an iterator: every key once.\<close>

definition visits :: "u64 list \<Rightarrow> rpc_client \<Rightarrow> bool" where
  "visits ids c \<longleftrightarrow> distinct ids \<and> set ids = dom (cl_pending c)"

section \<open>Retries\<close>

text \<open>The loop of \<open>on_tick\<close> without its connection: the requests resent and the calls given up.\<close>

fun retry_plan :: "tick \<Rightarrow> u64 list \<Rightarrow> rpc_client \<Rightarrow> u64 list \<Rightarrow> request list \<times> rpc_client \<times> u64 list" where
  "retry_plan now [] c to_fail = ([], c, to_fail)"
| "retry_plan now (i # ids) c to_fail =
    (case cl_pending c i of
       None \<Rightarrow> retry_plan now ids c to_fail
     | Some call \<Rightarrow>
        if cl_retry_deadline c \<le> tick_sub now (pk_sent_at call)
        then let call = call\<lparr>pk_attempts := pk_attempts call + 1\<rparr> in
          if cl_max_attempts c < pk_attempts call
          then retry_plan now ids (c\<lparr>cl_pending := (cl_pending c)(i \<mapsto> call)\<rparr>) (to_fail @ [i])
          else case retry_plan now ids
              (c\<lparr>cl_pending := (cl_pending c)(i \<mapsto> call\<lparr>pk_sent_at := now\<rparr>)\<rparr>) to_fail of
            (rs, r) \<Rightarrow> (pk_request call # rs, r)
        else retry_plan now ids c to_fail)"

lemma conn_pending_swap: "c\<lparr>cl_conn := cn, cl_pending := m\<rparr> = c\<lparr>cl_pending := m, cl_conn := cn\<rparr>"
  by simp

lemma retry_plan_frame:
  "retry_plan now ids (c\<lparr>cl_conn := cn\<rparr>) tf =
     (case retry_plan now ids c tf of (rs, c', tf') \<Rightarrow> (rs, c'\<lparr>cl_conn := cn\<rparr>, tf'))"
  by (induction ids arbitrary: c tf)
    (auto simp: Let_def conn_pending_swap case_prod_beta split: option.split)

definition calls :: "rpc_client \<Rightarrow> u64 \<rightharpoonup> request" where
  "calls c i = map_option pk_request (cl_pending c i)"

lemma dom_calls [simp]: "dom (calls c) = dom (cl_pending c)"
  by (auto simp: calls_def dom_def)

text \<open>A sweep changes neither which calls are pending nor what they ask for.\<close>

lemma calls_update:
  "cl_pending c i = Some call \<Longrightarrow> pk_request call' = pk_request call \<Longrightarrow>
     calls (c\<lparr>cl_pending := (cl_pending c)(i \<mapsto> call')\<rparr>) = calls c"
  by (auto simp: calls_def fun_eq_iff)

text \<open>What the sweep does to one call, and the whole sweep as one function of the map.\<close>

definition overdue :: "tick \<Rightarrow> rpc_client \<Rightarrow> pending_call \<Rightarrow> bool" where
  "overdue now c call \<longleftrightarrow> cl_retry_deadline c \<le> tick_sub now (pk_sent_at call)"

definition exhausted :: "rpc_client \<Rightarrow> pending_call \<Rightarrow> bool" where
  "exhausted c call \<longleftrightarrow> cl_max_attempts c < pk_attempts call + 1"

definition swept :: "tick \<Rightarrow> rpc_client \<Rightarrow> pending_call \<Rightarrow> pending_call" where
  "swept now c call =
    (if overdue now c call
     then call\<lparr>pk_attempts := pk_attempts call + 1,
            pk_sent_at := if exhausted c call then pk_sent_at call else now\<rparr>
     else call)"

definition calls_where :: "rpc_client \<Rightarrow> (pending_call \<Rightarrow> bool) \<Rightarrow> u64 list \<Rightarrow> u64 list" where
  "calls_where c P ids = filter (\<lambda>i. \<exists>k. cl_pending c i = Some k \<and> P k) ids"

definition asked :: "rpc_client \<Rightarrow> u64 \<Rightarrow> request" where
  "asked c i = pk_request (the (cl_pending c i))"

lemma swept_request [simp]: "pk_request (swept now c call) = pk_request call"
  by (simp add: swept_def)

lemma sweep_frame [simp]:
  "overdue now (c\<lparr>cl_pending := m\<rparr>) = overdue now c" "exhausted (c\<lparr>cl_pending := m\<rparr>) = exhausted c"
  "swept now (c\<lparr>cl_pending := m\<rparr>) = swept now c"
  by (simp_all add: overdue_def exhausted_def swept_def fun_eq_iff)

lemma visit_other:
  assumes "i \<notin> set ids"
  shows "calls_where (c\<lparr>cl_pending := (cl_pending c)(i \<mapsto> k)\<rparr>) P ids = calls_where c P ids"
    and "map (asked (c\<lparr>cl_pending := (cl_pending c)(i \<mapsto> k)\<rparr>)) (calls_where c P ids) = map (asked c) (calls_where c P ids)"
proof -
  have "j \<noteq> i" if "j \<in> set ids" for j using assms that by blast
  then show "calls_where (c\<lparr>cl_pending := (cl_pending c)(i \<mapsto> k)\<rparr>) P ids = calls_where c P ids"
    and "map (asked (c\<lparr>cl_pending := (cl_pending c)(i \<mapsto> k)\<rparr>)) (calls_where c P ids) = map (asked c) (calls_where c P ids)"
    by (auto simp: calls_where_def asked_def intro!: filter_cong)
qed

lemma retry_plan_sweep:
  "distinct ids \<Longrightarrow> retry_plan now ids c tf =
    (map (asked c) (calls_where c (\<lambda>k. overdue now c k \<and> \<not> exhausted c k) ids),
     c\<lparr>cl_pending := \<lambda>i. if i \<in> set ids then map_option (swept now c) (cl_pending c i) else cl_pending c i\<rparr>,
     tf @ calls_where c (\<lambda>k. overdue now c k \<and> exhausted c k) ids)"
proof (induction ids arbitrary: c tf)
  case (Cons i ids)
  have i: "i \<notin> set ids" "distinct ids" using Cons.prems by simp_all
  show ?case
  proof (cases "cl_pending c i")
    case None
    then have "(\<lambda>j. if j \<in> set ids then map_option (swept now c) (cl_pending c j) else cl_pending c j)
        = (\<lambda>j. if j \<in> set (i # ids) then map_option (swept now c) (cl_pending c j) else cl_pending c j)"
      by (auto simp: fun_eq_iff)
    then show ?thesis using Cons.IH [OF i(2)] None by (simp add: calls_where_def)
  next
    case (Some call)
    let ?c = "c\<lparr>cl_pending := (cl_pending c)(i \<mapsto> swept now c call)\<rparr>"
    have map: "(\<lambda>j. if j \<in> set ids then map_option (swept now c) (cl_pending ?c j) else cl_pending ?c j)
        = (\<lambda>j. if j \<in> set (i # ids) then map_option (swept now c) (cl_pending c j) else cl_pending c j)"
      (is "_ = ?m") using i(1) Some by (auto simp: fun_eq_iff)
    have IH: "retry_plan now ids ?c tf =
        (map (asked c) (calls_where c (\<lambda>k. overdue now c k \<and> \<not> exhausted c k) ids),
         c\<lparr>cl_pending := ?m\<rparr>, tf @ calls_where c (\<lambda>k. overdue now c k \<and> exhausted c k) ids)" for tf
      unfolding Cons.IH [OF i(2), of ?c tf] sweep_frame visit_other [OF i(1)] map by simp
    have same: "\<not> overdue now c call \<Longrightarrow> ?c = c" using Some by (simp add: swept_def fun_upd_idem)
    have "retry_plan now (i # ids) c tf =
        (if overdue now c call \<and> \<not> exhausted c call
         then case retry_plan now ids ?c tf of (rs, r) \<Rightarrow> (pk_request call # rs, r)
         else retry_plan now ids ?c (if overdue now c call then tf @ [i] else tf))"
      using Some same by (auto simp: Let_def overdue_def exhausted_def swept_def)
    moreover have "calls_where c P (i # ids) = (if P call then [i] else []) @ calls_where c P ids" for P
      using Some by (simp add: calls_where_def)
    ultimately show ?thesis using Some by (simp add: IH asked_def del: retry_plan.simps)
  qed
qed (simp add: calls_where_def)

lemma retry_plan_ok:
  assumes "retry_plan now ids c tf = (rs, c', tf')" and "distinct ids"
  shows "\<exists>m new. c' = c\<lparr>cl_pending := m\<rparr> \<and> calls c' = calls c \<and> tf' = tf @ new
    \<and> distinct new \<and> set new \<subseteq> set ids \<and> set new \<subseteq> dom (calls c) \<and> set rs \<subseteq> ran (calls c)"
proof -
  let ?m = "\<lambda>i. if i \<in> set ids then map_option (swept now c) (cl_pending c i) else cl_pending c i"
  let ?new = "calls_where c (\<lambda>k. overdue now c k \<and> exhausted c k) ids"
  have r: "rs = map (asked c) (calls_where c (\<lambda>k. overdue now c k \<and> \<not> exhausted c k) ids)"
    "c' = c\<lparr>cl_pending := ?m\<rparr>" "tf' = tf @ ?new"
    using retry_plan_sweep [OF assms(2)] assms(1) by simp_all
  have "calls c' = calls c"
    by (auto simp: r(2) calls_def fun_eq_iff option.map_comp comp_def)
  moreover have "set rs \<subseteq> ran (calls c)"
    by (force simp: r(1) calls_where_def asked_def calls_def ran_def)
  ultimately show ?thesis
    using assms(2) r(2,3) by (intro exI [of _ ?m] exI [of _ ?new]) (auto simp: calls_where_def)
qed

section \<open>Bookkeeping of calls\<close>

text \<open>
  \<open>Q\<close> is the list of requests put on the stream, retries included; \<open>D\<close> and \<open>F\<close> are the
  completions and failures already polled.
\<close>

definition outcomes :: "(u64 \<times> response) list \<Rightarrow> u64 list \<Rightarrow> rpc_client \<Rightarrow> u64 list" where
  "outcomes D F c = map fst D @ map fst (cl_completed c) @ F @ cl_failed c"

text \<open>Every id issued is either pending or has exactly one outcome, and names one request.\<close>

definition ledger :: "request list \<Rightarrow> u64 \<Rightarrow> u64 list \<Rightarrow> (u64 \<rightharpoonup> request) \<Rightarrow> bool" where
  "ledger Q n os m \<longleftrightarrow>
     (\<forall>i r. m i = Some r \<longrightarrow> r \<in> set Q \<and> rq_id r = i)
     \<and> (\<forall>r \<in> set Q. rq_id r < n) \<and> inj_on rq_id (set Q) \<and> unat n \<le> length Q
     \<and> distinct os \<and> set os \<inter> dom m = {} \<and> rq_id ` set Q = set os \<union> dom m"

lemma ledger_perm: "ledger Q n os m \<Longrightarrow> mset os = mset os' \<Longrightarrow> ledger Q n os' m"
  using mset_eq_setD [of os os'] mset_eq_imp_distinct_iff [of os os'] by (simp add: ledger_def)

lemma ledger_call:
  assumes "ledger Q (rq_id r) os m" and "Suc (length Q) < 2 ^ 64"
  shows "ledger (Q @ [r]) (rq_id r + 1) os (m(rq_id r \<mapsto> r))"
proof -
  note I = assms(1) [unfolded ledger_def]
  have n: "unat (rq_id r + 1) = unat (rq_id r) + 1"
    using I assms(2) by (simp add: unat_word_ariths)
  have less: "\<forall>q \<in> set (Q @ [r]). rq_id q < rq_id r + 1"
    using I n by (auto simp: word_less_nat_alt less_Suc_eq)
  have new: "rq_id r \<notin> rq_id ` set Q" using I by force
  then have "rq_id r \<notin> set os" using I by blast
  moreover have "inj_on rq_id (insert r (set Q))" using I new unfolding inj_on_insert by blast
  then have "inj_on rq_id (set (Q @ [r]))" by simp
  moreover have "rq_id ` set (Q @ [r]) = set os \<union> dom (m(rq_id r \<mapsto> r))" using I by simp
  ultimately show ?thesis using I less n unfolding ledger_def by auto
qed

lemma ledger_resolve:
  assumes "ledger Q n os m" and "i \<in> dom m"
  shows "ledger Q n (i # os) (m(i := None))"
proof -
  note I = assms(1) [unfolded ledger_def]
  have "i \<notin> set os" using I assms(2) by blast
  moreover have "set (i # os) \<union> dom (m(i := None)) = set os \<union> dom m" using assms(2) by auto
  ultimately show ?thesis using I unfolding ledger_def by auto
qed

lemma ledger_retry:
  assumes "ledger Q n os m" and "set rs \<subseteq> ran m"
  shows "ledger (Q @ rs) n os m"
proof -
  have "set rs \<subseteq> set Q" using assms by (force simp: ledger_def ran_def)
  then have "set (Q @ rs) = set Q" by auto
  with assms(1) show ?thesis unfolding ledger_def by simp
qed

definition client_ok :: "request list \<Rightarrow> (u64 \<times> response) list \<Rightarrow> u64 list \<Rightarrow> rpc_client \<Rightarrow> bool" where
  "client_ok Q D F c \<longleftrightarrow> ledger Q (cl_next_id c) (outcomes D F c) (calls c)"

lemma client_ok_new: "client_ok [] [] [] (client_new c deadline attempts)"
  by (simp add: client_ok_def ledger_def client_new_def outcomes_def calls_def)

lemma calls_frame [simp]:
  "calls (c\<lparr>cl_conn := cn\<rparr>) = calls c" "calls (c\<lparr>cl_reader := rd\<rparr>) = calls c"
  "calls (c\<lparr>cl_completed := co\<rparr>) = calls c" "calls (c\<lparr>cl_failed := fa\<rparr>) = calls c"
  "calls (c\<lparr>cl_next_id := n\<rparr>) = calls c"
  "calls (c\<lparr>cl_pending := (cl_pending c)(i := None)\<rparr>) = (calls c)(i := None)"
  "calls (c\<lparr>cl_pending := (cl_pending c)(i \<mapsto> k)\<rparr>) = (calls c)(i \<mapsto> pk_request k)"
  by (auto simp: calls_def fun_eq_iff)

lemma client_ok_frame [simp]:
  "client_ok Q D F (c\<lparr>cl_conn := cn\<rparr>) = client_ok Q D F c"
  "client_ok Q D F (c\<lparr>cl_reader := rd\<rparr>) = client_ok Q D F c"
  by (simp_all add: client_ok_def outcomes_def)

lemma client_ok_call:
  assumes ok: "client_ok Q D F c" and call: "client_call c now m p = Some (i, c', out)"
    and room: "Suc (length Q) < 2 ^ 64"
  shows "client_ok (Q @ [\<lparr>rq_id = i, rq_method = m, rq_payload = p\<rparr>]) D F c'"
proof -
  let ?r = "\<lparr>rq_id = i, rq_method = m, rq_payload = p\<rparr>"
  have i: "i = cl_next_id c" and "cl_next_id c' = i + 1" "outcomes D F c' = outcomes D F c"
    and "calls c' = (calls c)(i \<mapsto> ?r)"
    using call by (auto simp: client_call_def Let_def outcomes_def calls_def fun_eq_iff)
  then show ?thesis
    using ledger_call [of Q ?r "outcomes D F c" "calls c"] ok room by (simp add: client_ok_def)
qed

lemma client_ok_take_response:
  assumes "client_ok Q D F c"
  shows "client_ok Q D F (take_response f c)"
proof (cases "take_response f c = c")
  case False
  then obtain r where r: "rs_id r \<in> dom (calls c)" "take_response f c =
      c\<lparr>cl_pending := (cl_pending c)(rs_id r := None), cl_completed := cl_completed c @ [(rs_id r, r)]\<rparr>"
    by (auto simp: take_response_def split: option.splits)
  have "ledger Q (cl_next_id c) (rs_id r # outcomes D F c) ((calls c)(rs_id r := None))"
    using assms r(1) ledger_resolve by (simp add: client_ok_def)
  then have "ledger Q (cl_next_id c) (outcomes D F (take_response f c)) ((calls c)(rs_id r := None))"
    by (rule ledger_perm) (simp add: r(2) outcomes_def)
  then show ?thesis by (simp add: client_ok_def r(2))
qed (use assms in simp)

lemma client_ok_fold_responses: "client_ok Q D F c \<Longrightarrow> client_ok Q D F (fold take_response fs c)"
  by (induction fs arbitrary: c) (simp_all add: client_ok_take_response)

lemma client_ok_poll:
  assumes "client_ok Q D F c" and "poll_completed c = (ds, c1)" and "poll_failed c1 = (fs, c')"
  shows "client_ok Q (D @ ds) (F @ fs) c'"
  using assms by (auto simp: client_ok_def outcomes_def poll_completed_def poll_failed_def)

lemma client_ok_fail:
  assumes "client_ok Q D F c" and "distinct xs" and "set xs \<subseteq> dom (cl_pending c)"
  shows "client_ok Q D F (fold fail_call xs c)"
  using assms
proof (induction xs arbitrary: c)
  case (Cons i xs)
  have "ledger Q (cl_next_id c) (i # outcomes D F c) ((calls c)(i := None))"
    using Cons.prems ledger_resolve by (simp add: client_ok_def)
  then have "ledger Q (cl_next_id c) (outcomes D F (fail_call i c)) ((calls c)(i := None))"
    by (rule ledger_perm) (simp add: fail_call_def outcomes_def)
  then have "client_ok Q D F (fail_call i c)"
    by (simp add: client_ok_def fail_call_def)
  moreover have "set xs \<subseteq> dom (cl_pending (fail_call i c))"
    using Cons.prems by (auto simp: fail_call_def)
  ultimately show ?case using Cons by simp
qed simp

lemma client_ok_retry:
  assumes "client_ok Q D F c" and "visits ids c" and "retry_plan now ids c [] = (rs, c', to_fail)"
  shows "client_ok (Q @ rs) D F (fold fail_call to_fail c')"
proof -
  obtain m where m: "c' = c\<lparr>cl_pending := m\<rparr>" "calls c' = calls c" "distinct to_fail"
    "set to_fail \<subseteq> dom (calls c)" "set rs \<subseteq> ran (calls c)"
    using retry_plan_ok [OF assms(3)] assms(2) by (auto simp: visits_def)
  then have "client_ok (Q @ rs) D F c'"
    using assms(1) ledger_retry by (simp add: client_ok_def outcomes_def)
  moreover have "set to_fail \<subseteq> dom (cl_pending c')" using m(2,4) by (metis dom_calls)
  ultimately show ?thesis using m(3) by (intro client_ok_fail)
qed

end
