(* ===== verification/Rpc_Server.thy ===== *)
theory Rpc_Server
  imports Message Connection "HOL-Library.Monad_Syntax"
begin

text \<open>
  The RPC server of one connection, \<^verbatim>\<open>crates/rpc/src/server.rs\<close>. The handler is an argument of the
  operations: the closure's captured state is the type variable \<open>'st\<close>, and a run of the handler maps
  state, method and payload to an answer and the new state. The table \<open>seen\<close> makes every handler run
  at most once per request id.
\<close>

section \<open>Operations\<close>

type_synonym 'st handler = "'st \<Rightarrow> u8 \<Rightarrow> bytes \<Rightarrow> (bool \<times> bytes) \<times> 'st"

record 'st rpc_server =
  sv_conn :: conn
  sv_reader :: frame_reader
  sv_state :: 'st
  sv_seen :: "u64 \<rightharpoonup> response"
  sv_executions :: u64

definition server_new :: "conn \<Rightarrow> 'st \<Rightarrow> 'st rpc_server" where
  "server_new c st =
    \<lparr>sv_conn = c, sv_reader = reader_new, sv_state = st, sv_seen = Map.empty, sv_executions = 0\<rparr>"

text \<open>The answer to one request: the cached response, or one run of the handler.\<close>

definition answer :: "'st handler \<Rightarrow> 'st rpc_server \<Rightarrow> request \<Rightarrow> response \<times> 'st rpc_server" where
  "answer h s r =
    (case sv_seen s (rq_id r) of
       Some cached \<Rightarrow> (cached, s)
     | None \<Rightarrow>
        (case h (sv_state s) (rq_method r) (rq_payload r) of ((ok, p), st) \<Rightarrow>
           let resp = \<lparr>rs_id = rq_id r, rs_ok = ok, rs_payload = p\<rparr>
           in (resp, s\<lparr>sv_state := st, sv_executions := sv_executions s + 1,
                       sv_seen := (sv_seen s)(rq_id r \<mapsto> resp)\<rparr>)))"

text \<open>The loop over the frames read; a malformed frame is skipped.\<close>

fun serve_frames :: "'st handler \<Rightarrow> tick \<Rightarrow> bytes list \<Rightarrow> 'st rpc_server \<Rightarrow> bytes list
    \<Rightarrow> ('st rpc_server \<times> bytes list) option" where
  "serve_frames h now [] s out = Some (s, out)"
| "serve_frames h now (f # fs) s out =
    (case request_decode f of
       None \<Rightarrow> serve_frames h now fs s out
     | Some r \<Rightarrow>
        (case answer h s r of (resp, s) \<Rightarrow> do {
           (c, out') \<leftarrow> conn_send (sv_conn s) now (rpc_frame (response_encode resp));
           serve_frames h now fs (s\<lparr>sv_conn := c\<rparr>) (out @ out')
         }))"

definition server_on_datagram ::
  "'st handler \<Rightarrow> 'st rpc_server \<Rightarrow> tick \<Rightarrow> bytes \<Rightarrow> ('st rpc_server \<times> bytes list) option" where
  "server_on_datagram h s now datagram = do {
     (c, out) \<leftarrow> on_datagram (sv_conn s) now datagram;
     let (c, bytes) = conn_recv c;
     let (frames, reader) = drain_frames (feed (sv_reader s) bytes);
     serve_frames h now frames (s\<lparr>sv_conn := c, sv_reader := reader\<rparr>) out
   }"

definition server_on_tick :: "'st rpc_server \<Rightarrow> tick \<Rightarrow> ('st rpc_server \<times> bytes list) option" where
  "server_on_tick s now =
     map_option (\<lambda>(c, out). (s\<lparr>sv_conn := c\<rparr>, out)) (on_tick (sv_conn s) now)"

section \<open>At most once\<close>

text \<open>
  The specification: of a list of requests, the first of each id is executed, in order; every
  request is answered with what the execution of its id produced.
\<close>

fun fresh :: "u64 set \<Rightarrow> request list \<Rightarrow> request list" where
  "fresh X [] = []"
| "fresh X (r # rs) = (if rq_id r \<in> X then fresh X rs else r # fresh (insert (rq_id r) X) rs)"

definition exec :: "'st handler \<Rightarrow> request \<Rightarrow> 'st \<Rightarrow> 'st" where
  "exec h r st = snd (h st (rq_method r) (rq_payload r))"

definition respond :: "'st handler \<Rightarrow> 'st \<Rightarrow> request \<Rightarrow> response" where
  "respond h st r = (case fst (h st (rq_method r) (rq_payload r)) of (ok, p) \<Rightarrow>
     \<lparr>rs_id = rq_id r, rs_ok = ok, rs_payload = p\<rparr>)"

fun answers :: "'st handler \<Rightarrow> 'st rpc_server \<Rightarrow> request list \<Rightarrow> response list \<times> 'st rpc_server" where
  "answers h s [] = ([], s)"
| "answers h s (r # rs) =
    (case answer h s r of (a, s1) \<Rightarrow> case answers h s1 rs of (as, s2) \<Rightarrow> (a # as, s2))"

lemma fresh_append: "fresh X (xs @ ys) = fresh X xs @ fresh (X \<union> rq_id ` set xs) ys"
  by (induction xs arbitrary: X) (auto simp: insert_absorb)

lemma set_fresh: "rq_id ` set (fresh X rs) = rq_id ` set rs - X"
  by (induction rs arbitrary: X) auto

lemma distinct_fresh: "distinct (map rq_id (fresh X rs))"
proof (induction rs arbitrary: X)
  case (Cons r rs)
  have "rq_id r \<notin> rq_id ` set (fresh (insert (rq_id r) X) rs)" by (simp only: set_fresh) simp
  with Cons show ?case by simp
qed simp

lemma fresh_sub: "set (fresh X rs) \<subseteq> set rs"
  by (induction rs arbitrary: X) auto

text \<open>
  The invariant of the table, for the requests \<open>rs\<close> handled so far: the state is what the fresh
  requests made of the initial one, and the entry of an id is what its execution answered.
\<close>

definition table_ok :: "'st handler \<Rightarrow> 'st \<Rightarrow> request list \<Rightarrow> 'st rpc_server \<Rightarrow> bool" where
  "table_ok h st0 rs s \<longleftrightarrow>
     sv_state s = fold (exec h) (fresh {} rs) st0
     \<and> dom (sv_seen s) = rq_id ` set rs
     \<and> sv_executions s = word_of_nat (length (fresh {} rs))
     \<and> (\<forall>pre r post. fresh {} rs = pre @ r # post \<longrightarrow>
          sv_seen s (rq_id r) = Some (respond h (fold (exec h) pre st0) r))"

lemma table_ok_new: "table_ok h st [] (server_new c st)"
  by (simp add: table_ok_def server_new_def)

lemma table_ok_conn [simp]:
  "table_ok h st rs (s\<lparr>sv_conn := c\<rparr>) = table_ok h st rs s"
  "table_ok h st rs (s\<lparr>sv_reader := rd\<rparr>) = table_ok h st rs s"
  by (simp_all add: table_ok_def)

lemma answer_ok:
  assumes "table_ok h st0 rs s" and "answer h s r = (a, s')"
  shows "table_ok h st0 (rs @ [r]) s'"
proof -
  note I = assms(1) [unfolded table_ok_def]
  show "table_ok h st0 (rs @ [r]) s'"
  proof (cases "sv_seen s (rq_id r)")
    case (Some c)
    then have "rq_id r \<in> rq_id ` set rs" using I by blast
    moreover have "s' = s" using Some assms(2) by (simp add: answer_def)
    ultimately show ?thesis using I by (simp add: table_ok_def fresh_append insert_absorb)
  next
    case None
    then have new: "rq_id r \<notin> rq_id ` set rs" using I by blast
    let ?a = "respond h (sv_state s) r"
    have s': "s' = s\<lparr>sv_state := exec h r (sv_state s), sv_executions := sv_executions s + 1,
        sv_seen := (sv_seen s)(rq_id r \<mapsto> ?a)\<rparr>"
      using None assms(2) by (auto simp: answer_def Let_def exec_def respond_def split: prod.splits)
    have f: "fresh {} (rs @ [r]) = fresh {} rs @ [r]" using new by (simp add: fresh_append)
    have "sv_seen s' (rq_id q) = Some (respond h (fold (exec h) pre st0) q)"
      if split: "fresh {} rs @ [r] = pre @ q # post" for pre q post
    proof (cases post rule: rev_cases)
      case Nil
      with split I show ?thesis by (simp add: s')
    next
      case (snoc post' z)
      with split have eq: "fresh {} rs = pre @ q # post'" by simp
      then have "q \<in> set rs" using fresh_sub [of "{}" rs] by auto
      then have "rq_id q \<noteq> rq_id r" using new by (metis imageI)
      with eq I show ?thesis by (auto simp: s')
    qed
    then show ?thesis using I by (simp add: table_ok_def f) (simp add: s')
  qed
qed

text \<open>What the table records, whatever the handler's state is.\<close>

lemma answer_seen:
  assumes "answer h s r = (a, s')"
  shows "sv_seen s' (rq_id r) = Some a" and "sv_seen s \<subseteq>\<^sub>m sv_seen s'"
    and "dom (sv_seen s') = insert (rq_id r) (dom (sv_seen s))"
  using assms by (auto simp: answer_def Let_def map_le_def split: option.splits prod.splits)

lemma answers_seen:
  assumes "answers h s qs = (as, s')"
  shows "as = map (\<lambda>q. the (sv_seen s' (rq_id q))) qs \<and> sv_seen s \<subseteq>\<^sub>m sv_seen s'
    \<and> dom (sv_seen s') = rq_id ` set qs \<union> dom (sv_seen s)"
  using assms
proof (induction qs arbitrary: s as)
  case (Cons q qs)
  obtain a s1 as' where s: "answer h s q = (a, s1)" "answers h s1 qs = (as', s')" "as = a # as'"
    using Cons.prems by (auto split: prod.splits)
  note A = answer_seen [OF s(1)] and IH = Cons.IH [OF s(2)]
  have "sv_seen s' (rq_id q) = Some a" using A(1) IH by (auto simp: map_le_def dom_def)
  moreover have "sv_seen s \<subseteq>\<^sub>m sv_seen s'" using A(2) IH map_le_trans by blast
  ultimately show ?case using A(3) IH s(3) by auto
qed simp

lemma answers_ok:
  "table_ok h st0 rs s \<Longrightarrow> answers h s qs = (as, s') \<Longrightarrow> table_ok h st0 (rs @ qs) s'"
proof (induction qs arbitrary: s rs as)
  case (Cons q qs)
  obtain a s1 as' where s: "answer h s q = (a, s1)" "answers h s1 qs = (as', s')"
    using Cons.prems(2) by (auto split: prod.splits)
  then show ?case using Cons.IH [OF answer_ok [OF Cons.prems(1) s(1)] s(2)] by simp
qed simp

end
