(* ===== verification/Rpc_System.thy ===== *)
theory Rpc_System
  imports Link Rpc_Client Rpc_Server
begin

text \<open>
  One RPC client and one RPC server over the hostile link: the composition of
  \<^verbatim>\<open>crates/rpc/src/client.rs\<close> and \<^verbatim>\<open>crates/rpc/src/server.rs\<close> with the transport. The network is
  that of the theory \<open>Link\<close>; ghost fields record the requests put on the stream, the requests the
  server handled and its answers.
\<close>

section \<open>Runs of one endpoint\<close>

definition sends :: "tick \<Rightarrow> bytes list \<Rightarrow> event list" where
  "sends now ds = map (Send now) ds"

lemma ep_exec_send_fields:
  "ep_exec e (Send now d) = Some e' \<Longrightarrow> ep_sent e' = ep_sent e @ d \<and> ep_recvd e' = ep_recvd e"
  by (auto simp: ep_emit_def)

lemma ep_run_sends_ok:
  assumes "ep_inv me peer" and "ep_inv peer me" and "length (ep_sent me @ concat ds) < 2 ^ 32"
  shows "\<exists>me'. ep_run me (sends now ds) = Some me' \<and> ep_inv me' peer \<and> ep_inv peer me'
    \<and> ep_sent me' = ep_sent me @ concat ds \<and> ep_recvd me' = ep_recvd me"
  using assms
proof (induction ds arbitrary: me)
  case (Cons d ds)
  have "enabled me peer (Send now d)" using Cons.prems(3) by simp
  then obtain me1 where e: "ep_exec me (Send now d) = Some me1" "ep_inv me1 peer" "ep_inv peer me1"
    using ep_exec_ok [OF Cons.prems(1,2)] by blast
  note f = ep_exec_send_fields [OF e(1)]
  have "length (ep_sent me1 @ concat ds) < 2 ^ 32" using Cons.prems(3) f by simp
  then show ?case using Cons.IH [OF e(2,3)] e(1) f by (simp add: sends_def)
qed (simp add: sends_def)

lemma ep_run_sends_prefix:
  "ep_run e (sends now ds) = Some e' \<Longrightarrow> \<exists>out. ep_wire e' = ep_wire e @ out"
proof (induction ds arbitrary: e)
  case (Cons d ds)
  then obtain e1 where "ep_exec e (Send now d) = Some e1" "ep_run e1 (sends now ds) = Some e'"
    by (auto simp: sends_def split: option.splits)
  then show ?case using Cons.IH [of e1] by (auto simp: ep_emit_def)
qed (simp add: sends_def)

section \<open>The server as a run of its endpoint\<close>

lemma answer_frame:
  "answer h (s\<lparr>sv_conn := c\<rparr>) r = (case answer h s r of (a, s') \<Rightarrow> (a, s'\<lparr>sv_conn := c\<rparr>))"
  by (simp add: answer_def Let_def split: option.split prod.split)

lemma answers_frame:
  "answers h (s\<lparr>sv_conn := c\<rparr>) rs = (case answers h s rs of (as, s') \<Rightarrow> (as, s'\<lparr>sv_conn := c\<rparr>))"
  by (induction rs arbitrary: s) (auto simp: answer_frame split: prod.splits)

lemma answers_reader_frame:
  "answers h (s\<lparr>sv_reader := rd\<rparr>) rs = (case answers h s rs of (as, s') \<Rightarrow> (as, s'\<lparr>sv_reader := rd\<rparr>))"
proof (induction rs arbitrary: s)
  case (Cons r rs)
  have "answer h (s\<lparr>sv_reader := rd\<rparr>) r = (case answer h s r of (a, s') \<Rightarrow> (a, s'\<lparr>sv_reader := rd\<rparr>))"
    by (simp add: answer_def Let_def split: option.split prod.split)
  then show ?case using Cons.IH by (auto split: prod.splits)
qed simp

lemma answer_conn: "answer h s r = (a, s') \<Longrightarrow> sv_conn s' = sv_conn s \<and> sv_reader s' = sv_reader s"
  by (auto simp: answer_def Let_def split: option.splits prod.splits)

abbreviation response_frame :: "response \<Rightarrow> bytes" where
  "response_frame a \<equiv> rpc_frame (response_encode a)"

abbreviation request_frame :: "request \<Rightarrow> bytes" where
  "request_frame r \<equiv> rpc_frame (request_encode r)"

text \<open>A send at the head of a run, as the connection's own result.\<close>

lemma run_sendE:
  obtains (stuck) "conn_send (ep_conn e) now f = None" "\<And>fs. ep_run e (sends now (f # fs)) = None"
    | (sent) e' out where "conn_send (ep_conn e) now f = Some (ep_conn e', out)" "ep_wire e' = ep_wire e @ out"
        "\<And>fs. ep_run e (sends now (f # fs)) = ep_run e' (sends now fs)"
proof (cases "conn_send (ep_conn e) now f")
  case None
  then show ?thesis by (intro stuck) (simp_all add: sends_def ep_emit_def)
next
  case (Some x)
  then show ?thesis
    by (cases x) (rule sent [of "e\<lparr>ep_sent := ep_sent e @ f, ep_conn := fst x, ep_wire := ep_wire e @ snd x\<rparr>"],
        simp_all add: sends_def ep_emit_def)
qed

lemma serve_frames_run:
  assumes "ep_conn e = sv_conn s"
  shows "serve_frames h now fs s (ep_wire e) =
    (case answers h s (List.map_filter request_decode fs) of (as, s1) \<Rightarrow>
       map_option (\<lambda>e'. (s1\<lparr>sv_conn := ep_conn e'\<rparr>, ep_wire e'))
         (ep_run e (sends now (map response_frame as))))"
  using assms
proof (induction fs arbitrary: s e)
  case Nil
  then show ?case by (simp add: List.map_filter_simps sends_def)
next
  case (Cons f fs)
  show ?case
  proof (cases "request_decode f")
    case None
    then show ?thesis using Cons by (simp add: List.map_filter_simps)
  next
    case (Some r)
    obtain a s1 where a: "answer h s r = (a, s1)" by fastforce
    note ac = answer_conn [OF a]
    show ?thesis
    proof (cases rule: run_sendE [of e now "response_frame a"])
      case stuck
      then show ?thesis using Some a ac Cons.prems by (simp add: List.map_filter_simps split: prod.split)
    next
      case (sent e' out)
      then have "serve_frames h now (f # fs) s (ep_wire e)
          = serve_frames h now fs (s1\<lparr>sv_conn := ep_conn e'\<rparr>) (ep_wire e')"
        using Some a ac Cons.prems by simp
      then show ?thesis
        using Some a sent(3) Cons.IH [of e' "s1\<lparr>sv_conn := ep_conn e'\<rparr>"]
        by (simp add: List.map_filter_simps answers_frame split: prod.split)
    qed
  qed
qed

section \<open>The client's retries as a run of its endpoint\<close>

lemma retry_loop_run:
  assumes "ep_conn e = cl_conn c"
  shows "retry_loop now ids c (ep_wire e) tf =
    (case retry_plan now ids c tf of (rs, c', tf') \<Rightarrow>
       map_option (\<lambda>e'. (c'\<lparr>cl_conn := ep_conn e'\<rparr>, ep_wire e', tf'))
         (ep_run e (sends now (map request_frame rs))))"
  using assms
proof (induction ids arbitrary: c e tf)
  case Nil
  then show ?case by (simp add: sends_def)
next
  case (Cons i ids)
  show ?case
  proof (cases "cl_pending c i")
    case None
    then show ?thesis using Cons by simp
  next
    case (Some call)
    let ?call = "call\<lparr>pk_attempts := pk_attempts call + 1\<rparr>"
    let ?c = "c\<lparr>cl_pending := (cl_pending c)(i \<mapsto> ?call\<lparr>pk_sent_at := now\<rparr>)\<rparr>"
    show ?thesis
    proof (cases "cl_retry_deadline c \<le> tick_sub now (pk_sent_at call)
        \<and> \<not> cl_max_attempts c < pk_attempts ?call")
      case False
      then show ?thesis using Cons Some by (auto simp: Let_def)
    next
      case True
      show ?thesis
      proof (cases rule: run_sendE [of e now "request_frame (pk_request call)"])
        case stuck
        then show ?thesis using Some True Cons.prems by (auto simp: Let_def split: prod.split)
      next
        case (sent e' out)
        then have "retry_loop now (i # ids) c (ep_wire e) tf
            = retry_loop now ids (?c\<lparr>cl_conn := ep_conn e'\<rparr>) (ep_wire e') tf"
          using Some True Cons.prems by (simp add: Let_def conn_pending_swap)
        then show ?thesis
          using Some True sent(3) Cons.IH [of e' "?c\<lparr>cl_conn := ep_conn e'\<rparr>"]
          by (simp add: Let_def retry_plan_frame split: prod.split)
      qed
    qed
  qed
qed

section \<open>The system\<close>

record 'st rpc_sys =
  sy_client :: rpc_client
  sy_server :: "'st rpc_server"
  sy_link :: link
  sy_issued :: "request list"
  sy_handled :: "request list"
  sy_answers :: "response list"
  sy_done :: "(u64 \<times> response) list"
  sy_lost :: "u64 list"

text \<open>Ghost: the bytes a datagram releases, the frames they complete, an endpoint after an operation.\<close>

definition released :: "conn \<Rightarrow> tick \<Rightarrow> bytes \<Rightarrow> bytes" where
  "released c now d = (case on_datagram c now d of None \<Rightarrow> [] | Some (c', _) \<Rightarrow> c_delivered c')"

definition new_frames :: "frame_reader \<Rightarrow> conn \<Rightarrow> tick \<Rightarrow> bytes \<Rightarrow> bytes list" where
  "new_frames r c now d = fst (drain_frames (feed r (released c now d)))"

definition ep_after :: "endpoint \<Rightarrow> conn \<Rightarrow> bytes list \<Rightarrow> bytes list \<Rightarrow> bytes \<Rightarrow> endpoint" where
  "ep_after e c out frames bs = e\<lparr>ep_conn := c, ep_wire := ep_wire e @ out,
     ep_sent := ep_sent e @ concat frames, ep_recvd := ep_recvd e @ bs\<rparr>"

definition small :: "endpoint \<Rightarrow> bool" where
  "small e \<longleftrightarrow> length (ep_sent e) < 2 ^ 32"

text \<open>What happens in one move: a datagram handed to the client or to the server, or neither.\<close>

datatype sys_event =
    ToClient tick bytes
  | ToServer tick bytes
  | Internal

inductive sys_move :: "'st handler \<Rightarrow> sys_event \<Rightarrow> 'st rpc_sys \<Rightarrow> 'st rpc_sys \<Rightarrow> bool" for h where
  call: "client_call (sy_client s) now m p = Some (i, c, out) \<Longrightarrow>
     r = \<lparr>rq_id = i, rq_method = m, rq_payload = p\<rparr> \<Longrightarrow>
     e = ep_after (client (sy_link s)) (cl_conn c) out [request_frame r] [] \<Longrightarrow> small e \<Longrightarrow>
     sys_move h Internal s
       (s\<lparr>sy_client := c, sy_link := (sy_link s)\<lparr>client := e\<rparr>, sy_issued := sy_issued s @ [r]\<rparr>)"
| client_datagram: "client_on_datagram (sy_client s) now d = Some (c, out) \<Longrightarrow>
     e = ep_after (client (sy_link s)) (cl_conn c) out [] (released (cl_conn (sy_client s)) now d) \<Longrightarrow>
     sys_move h (ToClient now d) s (s\<lparr>sy_client := c, sy_link := (sy_link s)\<lparr>client := e\<rparr>\<rparr>)"
| client_tick: "visits ids (sy_client s) \<Longrightarrow>
     client_on_tick ids (sy_client s) now = Some (c, out) \<Longrightarrow>
     rs = fst (retry_plan now ids (sy_client s) []) \<Longrightarrow>
     e = ep_after (client (sy_link s)) (cl_conn c) out (map request_frame rs) [] \<Longrightarrow> small e \<Longrightarrow>
     sys_move h Internal s
       (s\<lparr>sy_client := c, sy_link := (sy_link s)\<lparr>client := e\<rparr>, sy_issued := sy_issued s @ rs\<rparr>)"
| poll: "poll_completed (sy_client s) = (ds, c1) \<Longrightarrow> poll_failed c1 = (fs, c) \<Longrightarrow>
     sys_move h Internal s
       (s\<lparr>sy_client := c, sy_done := sy_done s @ ds, sy_lost := sy_lost s @ fs\<rparr>)"
| server_datagram: "server_on_datagram h (sy_server s) now d = Some (v, out) \<Longrightarrow>
     qs = List.map_filter request_decode (new_frames (sv_reader (sy_server s)) (sv_conn (sy_server s)) now d) \<Longrightarrow>
     as = fst (answers h (sy_server s) qs) \<Longrightarrow>
     e = ep_after (server (sy_link s)) (sv_conn v) out (map response_frame as)
           (released (sv_conn (sy_server s)) now d) \<Longrightarrow> small e \<Longrightarrow>
     sys_move h (ToServer now d) s (s\<lparr>sy_server := v, sy_link := (sy_link s)\<lparr>server := e\<rparr>,
       sy_handled := sy_handled s @ qs, sy_answers := sy_answers s @ as\<rparr>)"
| server_tick: "server_on_tick (sy_server s) now = Some (v, out) \<Longrightarrow>
     e = ep_after (server (sy_link s)) (sv_conn v) out [] [] \<Longrightarrow>
     sys_move h Internal s (s\<lparr>sy_server := v, sy_link := (sy_link s)\<lparr>server := e\<rparr>\<rparr>)"

inductive_cases sys_moveE: "sys_move h ev s s'"

text \<open>The network of \<open>Link\<close>: it may hand over what the peer has emitted, or garbage.\<close>

fun may_arrive :: "'st rpc_sys \<Rightarrow> sys_event \<Rightarrow> bool" where
  "may_arrive s (ToClient now d) \<longleftrightarrow> enabled (client (sy_link s)) (server (sy_link s)) (Datagram now d)"
| "may_arrive s (ToServer now d) \<longleftrightarrow> enabled (server (sy_link s)) (client (sy_link s)) (Datagram now d)"
| "may_arrive s Internal \<longleftrightarrow> True"

inductive sys_step :: "'st handler \<Rightarrow> 'st rpc_sys \<Rightarrow> 'st rpc_sys \<Rightarrow> bool" for h where
  move: "sys_move h ev s s' \<Longrightarrow> may_arrive s ev \<Longrightarrow> sys_step h s s'"

inductive_cases sys_stepE: "sys_step h s s'"

definition sys_init :: "config \<Rightarrow> config \<Rightarrow> 'st \<Rightarrow> 'st rpc_sys \<Rightarrow> bool" where
  "sys_init cfg cfg' st0 s \<longleftrightarrow> (\<exists>l deadline attempts. link_init cfg cfg' l \<and>
     s = \<lparr>sy_client = client_new (ep_conn (client l)) deadline attempts,
          sy_server = server_new (ep_conn (server l)) st0, sy_link = l,
          sy_issued = [], sy_handled = [], sy_answers = [], sy_done = [], sy_lost = []\<rparr>)"

abbreviation sys_reachable where
  "sys_reachable h cfg cfg' st0 \<equiv> reachable (sys_init cfg cfg' st0) (sys_step h)"

section \<open>Operations as endpoint runs\<close>

lemma ep_run_append:
  "ep_run e (as @ bs) = (case ep_run e as of None \<Rightarrow> None | Some e' \<Rightarrow> ep_run e' bs)"
  by (induction as arbitrary: e) (auto split: option.split)

lemma ep_run_sends_shift:
  "ep_run (e\<lparr>ep_wire := w @ ep_wire e\<rparr>) (sends now ds) =
     map_option (\<lambda>e'. e'\<lparr>ep_wire := w @ ep_wire e'\<rparr>) (ep_run e (sends now ds))"
proof (induction ds arbitrary: e)
  case (Cons d ds)
  have "ep_exec (e\<lparr>ep_wire := w @ ep_wire e\<rparr>) (Send now d) =
      map_option (\<lambda>e'. e'\<lparr>ep_wire := w @ ep_wire e'\<rparr>) (ep_exec e (Send now d))"
    by (cases "conn_send (ep_conn e) now d") (auto simp: ep_emit_def)
  then show ?case
    using Cons.IH by (cases "ep_exec e (Send now d)") (simp_all add: sends_def)
qed (simp add: sends_def)

lemma ep_run_sends_fields:
  "ep_run e (sends now ds) = Some e' \<Longrightarrow> ep_sent e' = ep_sent e @ concat ds \<and> ep_recvd e' = ep_recvd e"
proof (induction ds arbitrary: e)
  case (Cons d ds)
  then obtain e1 where "ep_exec e (Send now d) = Some e1" "ep_run e1 (sends now ds) = Some e'"
    by (auto simp: sends_def split: option.splits)
  then show ?case using Cons.IH [of e1] ep_exec_send_fields [of e now d e1] by simp
qed (simp add: sends_def)

text \<open>Sending frames from a state whose pending output is \<open>out\<close>.\<close>

lemma run_sends_after:
  assumes "ep_run (e1\<lparr>ep_wire := out\<rparr>) (sends now ds) = Some e2" and "ep_wire e1 = ep_wire e @ out"
    and "ep_sent e1 = ep_sent e" and "ep_recvd e1 = ep_recvd e @ bs"
  shows "ep_run e1 (sends now ds) = Some (ep_after e (ep_conn e2) (ep_wire e2) ds bs)"
proof -
  have "e1\<lparr>ep_wire := ep_wire e @ out\<rparr> = e1" by (simp flip: assms(2))
  then have "ep_run e1 (sends now ds) = Some (e2\<lparr>ep_wire := ep_wire e @ ep_wire e2\<rparr>)"
    using ep_run_sends_shift [where e = "e1\<lparr>ep_wire := out\<rparr>" and w = "ep_wire e"] assms(1) by simp
  moreover have "ep_sent e2 = ep_sent e @ concat ds" "ep_recvd e2 = ep_recvd e @ bs"
    using ep_run_sends_fields [OF assms(1)] assms(3,4) by simp_all
  ultimately show ?thesis by (simp add: ep_after_def)
qed

lemma datagram_recv_run:
  assumes "on_datagram (ep_conn e) now d = Some (c, out)"
  shows "ep_run e [Datagram now d, Recv] =
    Some (ep_after e (fst (conn_recv c)) out [] (released (ep_conn e) now d))"
  using assms by (simp add: ep_emit_def ep_after_def released_def conn_recv_def)

lemma reader_step:
  assumes "buf r = snd (drain_loop R)"
  shows "drain_loop (R @ bs) =
    (fst (drain_loop R) @ fst (drain_frames (feed r bs)), buf (snd (drain_frames (feed r bs))))"
  using assms drain_loop_append [of R bs] by (simp add: drain_frames_def feed_def case_prod_beta)

lemma fold_take_response_frame [simp]:
  "cl_conn (fold take_response fs c) = cl_conn c" "cl_reader (fold take_response fs c) = cl_reader c"
  by (induction fs arbitrary: c) (simp_all add: take_response_def split: option.split)

lemma client_datagram_run:
  assumes "client_on_datagram c now d = Some (c', out)" and "ep_conn e = cl_conn c"
  shows "ep_run e [Datagram now d, Recv] = Some (ep_after e (cl_conn c') out [] (released (cl_conn c) now d))"
    and "c' = fold take_response (new_frames (cl_reader c) (cl_conn c) now d)
      (c\<lparr>cl_conn := cl_conn c', cl_reader := snd (drain_frames (feed (cl_reader c) (released (cl_conn c) now d)))\<rparr>)"
proof -
  obtain cn where s: "on_datagram (cl_conn c) now d = Some (cn, out)"
    and c': "c' = fold take_response (fst (drain_frames (feed (cl_reader c) (c_delivered cn))))
      (c\<lparr>cl_conn := fst (conn_recv cn), cl_reader := snd (drain_frames (feed (cl_reader c) (c_delivered cn)))\<rparr>)"
    using assms(1) by (auto simp: client_on_datagram_def conn_recv_def split: bind_splits prod.splits)
  then show "ep_run e [Datagram now d, Recv] = Some (ep_after e (cl_conn c') out [] (released (cl_conn c) now d))"
    using datagram_recv_run [of e now d cn out] assms(2) by simp
  show "c' = fold take_response (new_frames (cl_reader c) (cl_conn c) now d)
      (c\<lparr>cl_conn := cl_conn c', cl_reader := snd (drain_frames (feed (cl_reader c) (released (cl_conn c) now d)))\<rparr>)"
    using c' s by (simp add: new_frames_def released_def)
qed

lemma client_tick_run:
  assumes "client_on_tick ids c now = Some (c', out)" and "ep_conn e = cl_conn c"
    and "retry_plan now ids c [] = (rs, c1, to_fail)"
  shows "ep_run e (OnTick now # sends now (map request_frame rs)) =
      Some (ep_after e (cl_conn c') out (map request_frame rs) [])"
    and "c' = fold fail_call to_fail (c1\<lparr>cl_conn := cl_conn c'\<rparr>)"
proof -
  obtain cn out1 c2 tf where s: "on_tick (cl_conn c) now = Some (cn, out1)"
    "retry_loop now ids (c\<lparr>cl_conn := cn\<rparr>) out1 [] = Some (c2, out, tf)" "c' = fold fail_call tf c2"
    using assms(1) by (auto simp: client_on_tick_def split: bind_splits)
  have fc: "cl_conn (fold fail_call xs x) = cl_conn x" for xs x
    by (induction xs arbitrary: x) (simp_all add: fail_call_def)
  let ?e1 = "e\<lparr>ep_conn := cn, ep_wire := ep_wire e @ out1\<rparr>"
  have "Some (c2, out, tf) = map_option (\<lambda>e'. (c1\<lparr>cl_conn := ep_conn e'\<rparr>, ep_wire e', to_fail))
      (ep_run (?e1\<lparr>ep_wire := out1\<rparr>) (sends now (map request_frame rs)))"
    using s(2) retry_loop_run [of "?e1\<lparr>ep_wire := out1\<rparr>" "c\<lparr>cl_conn := cn\<rparr>" now ids "[]"]
    by (simp add: retry_plan_frame assms(3))
  then obtain e2 where e2: "ep_run (?e1\<lparr>ep_wire := out1\<rparr>) (sends now (map request_frame rs)) = Some e2"
    "c2 = c1\<lparr>cl_conn := ep_conn e2\<rparr>" "out = ep_wire e2" "tf = to_fail"
    by (auto dest!: sym [of "Some _"])
  have "ep_run ?e1 (sends now (map request_frame rs)) = Some (ep_after e (ep_conn e2) (ep_wire e2) (map request_frame rs) [])"
    by (rule run_sends_after [OF e2(1)]) simp_all
  moreover have "ep_exec e (OnTick now) = Some ?e1" using s(1) assms(2) by (simp add: ep_emit_def)
  ultimately show "ep_run e (OnTick now # sends now (map request_frame rs)) =
      Some (ep_after e (cl_conn c') out (map request_frame rs) [])"
    by (simp add: s(3) fc e2)
  show "c' = fold fail_call to_fail (c1\<lparr>cl_conn := cl_conn c'\<rparr>)" by (simp add: s(3) fc e2)
qed

lemma server_datagram_run:
  assumes "server_on_datagram h s now d = Some (v, out)" and "ep_conn e = sv_conn s"
    and "qs = List.map_filter request_decode (new_frames (sv_reader s) (sv_conn s) now d)"
    and "answers h s qs = (as, s1)"
  shows "ep_run e ([Datagram now d, Recv] @ sends now (map response_frame as)) =
      Some (ep_after e (sv_conn v) out (map response_frame as) (released (sv_conn s) now d))"
    and "v = s1\<lparr>sv_conn := sv_conn v,
      sv_reader := snd (drain_frames (feed (sv_reader s) (released (sv_conn s) now d)))\<rparr>"
proof -
  let ?bs = "released (sv_conn s) now d"
  obtain c out1 where g: "on_datagram (sv_conn s) now d = Some (c, out1)"
    using assms(1) by (auto simp: server_on_datagram_def split: bind_splits)
  define e1 where "e1 = ep_after e (fst (conn_recv c)) out1 [] ?bs"
  define s0 where "s0 = s\<lparr>sv_conn := fst (conn_recv c),
    sv_reader := snd (drain_frames (feed (sv_reader s) ?bs))\<rparr>"
  have run1: "ep_run e [Datagram now d, Recv] = Some e1"
    using datagram_recv_run [of e now d c out1] g assms(2) by (simp add: e1_def)
  have "serve_frames h now (new_frames (sv_reader s) (sv_conn s) now d) s0 out1 = Some (v, out)"
    using assms(1) g by (simp add: server_on_datagram_def conn_recv_def new_frames_def released_def
        s0_def case_prod_beta)
  moreover have "answers h s0 qs = (as, s1\<lparr>sv_conn := sv_conn s0, sv_reader := sv_reader s0\<rparr>)"
    using assms(4) by (simp add: s0_def answers_frame answers_reader_frame)
  ultimately have "Some (v, out) = map_option (\<lambda>e'. (s1\<lparr>sv_reader := sv_reader s0, sv_conn := ep_conn e'\<rparr>, ep_wire e'))
      (ep_run (e1\<lparr>ep_wire := out1\<rparr>) (sends now (map response_frame as)))"
    using serve_frames_run [of "e1\<lparr>ep_wire := out1\<rparr>" s0 h now "new_frames (sv_reader s) (sv_conn s) now d"]
    by (simp add: assms(3) e1_def ep_after_def s0_def)
  then obtain e2 where e2: "ep_run (e1\<lparr>ep_wire := out1\<rparr>) (sends now (map response_frame as)) = Some e2"
    "v = s1\<lparr>sv_reader := sv_reader s0, sv_conn := ep_conn e2\<rparr>" "out = ep_wire e2"
    by (auto dest!: sym [of "Some _"])
  have "ep_run e1 (sends now (map response_frame as)) =
      Some (ep_after e (ep_conn e2) (ep_wire e2) (map response_frame as) ?bs)"
    by (rule run_sends_after [OF e2(1)]) (simp_all add: e1_def ep_after_def)
  then show "ep_run e ([Datagram now d, Recv] @ sends now (map response_frame as)) =
      Some (ep_after e (sv_conn v) out (map response_frame as) ?bs)"
    by (simp only: ep_run_append run1 option.case e2) simp
  show "v = s1\<lparr>sv_conn := sv_conn v, sv_reader := snd (drain_frames (feed (sv_reader s) ?bs))\<rparr>"
    by (simp add: e2(2) s0_def)
qed

end
