(* ===== verification/Rpc_Correct.thy ===== *)
theory Rpc_Correct
  imports Rpc_System
begin

text \<open>
  End-to-end correctness of the RPC layer over the hostile link: the server handles a prefix of the
  requests the client issued, runs the handler once per request id, and every call the client
  completes is completed with the answer of that one run.
\<close>

section \<open>Runs keep the link invariant\<close>

fun is_send :: "event \<Rightarrow> bool" where
  "is_send (Send _ _) = True"
| "is_send _ = False"

lemma ep_exec_sent: "ep_exec e ev = Some e' \<Longrightarrow> \<not> is_send ev \<Longrightarrow> ep_sent e' = ep_sent e"
  by (cases ev) (auto simp: ep_emit_def)

lemma enabled_other: "\<not> is_send ev \<Longrightarrow> enabled me' peer ev = enabled me peer ev"
  by (cases ev) auto

lemma ep_run_ok:
  assumes "ep_inv me peer" and "ep_inv peer me" and "\<forall>ev \<in> set evs. \<not> is_send ev \<and> enabled me peer ev"
  shows "\<exists>me'. ep_run me evs = Some me' \<and> ep_inv me' peer \<and> ep_inv peer me' \<and> ep_sent me' = ep_sent me"
  using assms
proof (induction evs arbitrary: me)
  case (Cons ev evs)
  obtain me1 where e: "ep_exec me ev = Some me1" "ep_inv me1 peer" "ep_inv peer me1"
    using ep_exec_ok [OF Cons.prems(1,2)] Cons.prems(3) by auto
  have "\<forall>ev \<in> set evs. \<not> is_send ev \<and> enabled me1 peer ev"
    using Cons.prems(3) enabled_other by (metis list.set_intros(2))
  then show ?case using Cons.IH [OF e(2,3)] e(1) ep_exec_sent [OF e(1)] Cons.prems(3) by auto
qed simp

lemma run_sends_ok:
  assumes "ep_inv me peer" and "ep_inv peer me" and "\<forall>ev \<in> set evs. \<not> is_send ev \<and> enabled me peer ev"
    and "length (ep_sent me @ concat ds) < 2 ^ 32"
  shows "\<exists>me'. ep_run me (evs @ sends now ds) = Some me' \<and> ep_inv me' peer \<and> ep_inv peer me'"
proof -
  obtain me1 where r: "ep_run me evs = Some me1" "ep_inv me1 peer" "ep_inv peer me1" "ep_sent me1 = ep_sent me"
    using ep_run_ok [OF assms(1-3)] by blast
  then show ?thesis using ep_run_sends_ok [OF r(2,3), of ds now] assms(4) by (auto simp: ep_run_append)
qed

section \<open>The invariant of the system\<close>

definition got :: "endpoint \<Rightarrow> response list" where
  "got e = List.map_filter response_decode (fst (drain_loop (ep_recvd e)))"

definition client_side :: "'st rpc_sys \<Rightarrow> bool" where
  "client_side s \<longleftrightarrow> (let e = client (sy_link s); c = sy_client s in
     ep_conn e = cl_conn c
     \<and> ep_sent e = concat (map request_frame (sy_issued s))
     \<and> buf (cl_reader c) = snd (drain_loop (ep_recvd e))
     \<and> client_ok (sy_issued s) (sy_done s) (sy_lost s) c
     \<and> (\<forall>(i, a) \<in> set (sy_done s @ cl_completed c). rs_id a = i \<and> a \<in> set (got e)))"

definition server_side :: "'st rpc_sys \<Rightarrow> bool" where
  "server_side s \<longleftrightarrow> (let e = server (sy_link s); v = sy_server s in
     ep_conn e = sv_conn v
     \<and> ep_sent e = concat (map response_frame (sy_answers s))
     \<and> buf (sv_reader v) = snd (drain_loop (ep_recvd e))
     \<and> sy_handled s = List.map_filter request_decode (fst (drain_loop (ep_recvd e)))
     \<and> dom (sv_seen v) = rq_id ` set (sy_handled s)
     \<and> sy_answers s = map (\<lambda>q. the (sv_seen v (rq_id q))) (sy_handled s))"

text \<open>The part that does not mention the handler's state, and the whole.\<close>

definition sys_core :: "'st rpc_sys \<Rightarrow> bool" where
  "sys_core s \<longleftrightarrow> link_inv (sy_link s) \<and> client_side s \<and> server_side s"

definition sys_inv :: "'st handler \<Rightarrow> 'st \<Rightarrow> 'st rpc_sys \<Rightarrow> bool" where
  "sys_inv h st0 s \<longleftrightarrow> sys_core s \<and> table_ok h st0 (sy_handled s) (sy_server s)"

lemma sys_inv_init:
  assumes "sys_init cfg cfg' st0 s"
  shows "sys_inv h st0 s"
proof -
  obtain l deadline attempts where l: "link_init cfg cfg' l"
    and s: "s = \<lparr>sy_client = client_new (ep_conn (client l)) deadline attempts,
          sy_server = server_new (ep_conn (server l)) st0, sy_link = l,
          sy_issued = [], sy_handled = [], sy_answers = [], sy_done = [], sy_lost = []\<rparr>"
    using assms by (auto simp: sys_init_def)
  have "ep_sent (client l) = []" "ep_recvd (client l) = []" "ep_sent (server l) = []" "ep_recvd (server l) = []"
    using l by (auto simp: link_init_def ep_client_def ep_server_def split: prod.split)
  then show ?thesis
    using link.init_inv [OF l] client_ok_new table_ok_new [of h st0]
    by (auto simp: sys_inv_def sys_core_def client_side_def server_side_def s client_new_def server_new_def
        reader_new_def drain_loop_short List.map_filter_simps Let_def)
qed

lemma length_frames: "13 * length Q \<le> length (concat (map request_frame Q))"
  by (induction Q) (simp_all add: rpc_frame_def)

lemma issued_room:
  assumes "sys_core s"
  shows "length (sy_issued s) < 2 ^ 32"
proof -
  have "length (ep_sent (client (sy_link s))) < 2 ^ 32"
    using assms by (simp add: sys_core_def link_inv_def ep_inv_def conn_inv_def send_ok_def)
  then have "length (concat (map request_frame (sy_issued s))) < 2 ^ 32"
    using assms by (simp add: sys_core_def client_side_def Let_def)
  then show ?thesis using length_frames [of "sy_issued s"] by linarith
qed

text \<open>Each side reads its own half of the system only.\<close>

lemma server_side_cong:
  "server (sy_link s') = server (sy_link s) \<Longrightarrow> sy_server s' = sy_server s \<Longrightarrow>
   sy_handled s' = sy_handled s \<Longrightarrow> sy_answers s' = sy_answers s \<Longrightarrow>
   server_side s' = server_side s"
  by (simp add: server_side_def)

lemma client_side_cong:
  "client (sy_link s') = client (sy_link s) \<Longrightarrow> sy_client s' = sy_client s \<Longrightarrow>
   sy_issued s' = sy_issued s \<Longrightarrow> sy_done s' = sy_done s \<Longrightarrow> sy_lost s' = sy_lost s \<Longrightarrow>
   client_side s' = client_side s"
  by (simp add: client_side_def)

lemma core_client_step:
  assumes "sys_core s" and "ep_run (client (sy_link s)) (evs @ sends now ds) = Some e"
    and "\<forall>ev \<in> set evs. \<not> is_send ev \<and> enabled (client (sy_link s)) (server (sy_link s)) ev"
    and "length (ep_sent (client (sy_link s)) @ concat ds) < 2 ^ 32"
  shows "link_inv ((sy_link s)\<lparr>client := e\<rparr>)"
  using run_sends_ok [of "client (sy_link s)" "server (sy_link s)" evs ds now] assms
  by (auto simp: sys_core_def link_inv_def)

lemma core_server_step:
  assumes "sys_core s" and "ep_run (server (sy_link s)) (evs @ sends now ds) = Some e"
    and "\<forall>ev \<in> set evs. \<not> is_send ev \<and> enabled (server (sy_link s)) (client (sy_link s)) ev"
    and "length (ep_sent (server (sy_link s)) @ concat ds) < 2 ^ 32"
  shows "link_inv ((sy_link s)\<lparr>server := e\<rparr>)"
  using run_sends_ok [of "server (sy_link s)" "client (sy_link s)" evs ds now] assms
  by (auto simp: sys_core_def link_inv_def)

lemma client_call_run:
  assumes "client_call c now m p = Some (i, c', out)" and "ep_conn e = cl_conn c"
  shows "ep_run e (sends now [request_frame \<lparr>rq_id = i, rq_method = m, rq_payload = p\<rparr>]) =
      Some (ep_after e (cl_conn c') out [request_frame \<lparr>rq_id = i, rq_method = m, rq_payload = p\<rparr>] [])"
    and "cl_reader c' = cl_reader c" and "cl_completed c' = cl_completed c"
  using assms by (auto simp: client_call_def Let_def sends_def ep_emit_def ep_after_def)

lemma ep_after_fields [simp]:
  "ep_conn (ep_after e c out fs bs) = c" "ep_sent (ep_after e c out fs bs) = ep_sent e @ concat fs"
  "ep_recvd (ep_after e c out fs bs) = ep_recvd e @ bs"
  by (simp_all add: ep_after_def)

lemma core_call:
  assumes inv: "sys_core s" and call: "client_call (sy_client s) now m p = Some (i, c, out)"
    and r: "r = \<lparr>rq_id = i, rq_method = m, rq_payload = p\<rparr>"
    and e: "e = ep_after (client (sy_link s)) (cl_conn c) out [request_frame r] []" and "small e"
  shows "sys_core (s\<lparr>sy_client := c, sy_link := (sy_link s)\<lparr>client := e\<rparr>, sy_issued := sy_issued s @ [r]\<rparr>)"
proof -
  have cs: "client_side s" and ss: "server_side s" using inv by (simp_all add: sys_core_def)
  then have conn: "ep_conn (client (sy_link s)) = cl_conn (sy_client s)" by (simp add: client_side_def Let_def)
  note run = client_call_run [OF call conn]
  have "link_inv ((sy_link s)\<lparr>client := e\<rparr>)"
    using core_client_step [OF inv, of "[]" now "[request_frame r]" e] run(1) r e \<open>small e\<close>
    by (simp add: small_def)
  moreover have "client_ok (sy_issued s @ [r]) (sy_done s) (sy_lost s) c"
    using client_ok_call [OF _ call] issued_room [OF inv] cs r by (simp add: client_side_def Let_def)
  then have "client_side (s\<lparr>sy_client := c, sy_link := (sy_link s)\<lparr>client := e\<rparr>, sy_issued := sy_issued s @ [r]\<rparr>)"
    using cs run(2,3) by (auto simp: client_side_def Let_def e got_def)
  moreover have "server_side (s\<lparr>sy_client := c, sy_link := (sy_link s)\<lparr>client := e\<rparr>, sy_issued := sy_issued s @ [r]\<rparr>)
      = server_side s" by (rule server_side_cong) simp_all
  ultimately show ?thesis using ss by (simp add: sys_core_def)
qed

lemma core_poll:
  assumes inv: "sys_core s" and p: "poll_completed (sy_client s) = (ds, c1)" "poll_failed c1 = (fs, c)"
  shows "sys_core (s\<lparr>sy_client := c, sy_done := sy_done s @ ds, sy_lost := sy_lost s @ fs\<rparr>)"
proof -
  have cs: "client_side s" using inv by (simp add: sys_core_def)
  have "client_ok (sy_issued s) (sy_done s @ ds) (sy_lost s @ fs) c"
    using client_ok_poll [OF _ p] cs by (simp add: client_side_def Let_def)
  then have "client_side (s\<lparr>sy_client := c, sy_done := sy_done s @ ds, sy_lost := sy_lost s @ fs\<rparr>)"
    using cs p by (auto simp: client_side_def Let_def poll_completed_def poll_failed_def)
  moreover have "server_side (s\<lparr>sy_client := c, sy_done := sy_done s @ ds, sy_lost := sy_lost s @ fs\<rparr>)
      = server_side s" by (rule server_side_cong) simp_all
  ultimately show ?thesis using inv by (simp add: sys_core_def)
qed

lemma set_map_filter: "set (List.map_filter f xs) = {y. \<exists>x \<in> set xs. f x = Some y}"
  by (induction xs) (auto simp: List.map_filter_simps split: option.splits)

lemma map_filter_append: "List.map_filter f (xs @ ys) = List.map_filter f xs @ List.map_filter f ys"
  by (induction xs) (auto simp: List.map_filter_simps split: option.split)

lemma got_after: "set (got e) \<subseteq> set (got (ep_after e c out fs bs))"
  by (auto simp: got_def drain_loop_append [of "ep_recvd e" bs] set_map_filter)

text \<open>What \<open>take_response\<close> completes are responses it was given, under their own id.\<close>

lemma fold_take_response_completed:
  "(i, a) \<in> set (cl_completed (fold take_response fs c)) \<Longrightarrow>
     (i, a) \<in> set (cl_completed c) \<or> rs_id a = i \<and> a \<in> set (List.map_filter response_decode fs)"
proof (induction fs arbitrary: c)
  case (Cons f fs)
  then consider "(i, a) \<in> set (cl_completed (take_response f c))"
    | "rs_id a = i \<and> a \<in> set (List.map_filter response_decode fs)" by fastforce
  then show ?case
    by cases (auto simp: take_response_def set_map_filter split: option.splits)
qed simp

lemma core_client_datagram:
  assumes inv: "sys_core s"
    and en: "enabled (client (sy_link s)) (server (sy_link s)) (Datagram now d)"
    and op: "client_on_datagram (sy_client s) now d = Some (c, out)"
    and e: "e = ep_after (client (sy_link s)) (cl_conn c) out [] (released (cl_conn (sy_client s)) now d)"
  shows "sys_core (s\<lparr>sy_client := c, sy_link := (sy_link s)\<lparr>client := e\<rparr>\<rparr>)"
proof -
  let ?c = "sy_client s" and ?e = "client (sy_link s)"
  let ?bs = "released (cl_conn ?c) now d" and ?fs = "new_frames (cl_reader ?c) (cl_conn ?c) now d"
  have cs: "client_side s" and ss: "server_side s" using inv by (simp_all add: sys_core_def)
  note I = cs [unfolded client_side_def Let_def]
  note run = client_datagram_run [OF op, of ?e]
  have sent: "length (ep_sent ?e) < 2 ^ 32"
    using inv by (simp add: sys_core_def link_inv_def ep_inv_def conn_inv_def send_ok_def)
  have link: "link_inv ((sy_link s)\<lparr>client := e\<rparr>)"
    using core_client_step [OF inv, of "[Datagram now d, Recv]" now "[]" e] run(1) I e en sent
    by (simp add: sends_def)
  have rd: "drain_loop (ep_recvd ?e @ ?bs) = (fst (drain_loop (ep_recvd ?e)) @ ?fs,
      buf (snd (drain_frames (feed (cl_reader ?c) ?bs))))"
    using reader_step [of "cl_reader ?c" "ep_recvd ?e" ?bs] I by (simp add: new_frames_def)
  have c: "c = fold take_response ?fs (?c\<lparr>cl_conn := cl_conn c,
      cl_reader := snd (drain_frames (feed (cl_reader ?c) ?bs))\<rparr>)" (is "c = fold take_response ?fs ?c0")
    using run(2) I by blast
  have ok: "client_ok (sy_issued s) (sy_done s) (sy_lost s) c"
    using I by (subst c) (simp add: client_ok_fold_responses)
  have "rs_id a = i \<and> a \<in> set (got e)" if "(i, a) \<in> set (sy_done s @ cl_completed c)" for i a
  proof (cases "(i, a) \<in> set (sy_done s @ cl_completed ?c)")
    case True
    then show ?thesis using I got_after [of ?e "cl_conn c" out "[]" ?bs] e by auto
  next
    case False
    then have "(i, a) \<in> set (cl_completed (fold take_response ?fs ?c0))" "(i, a) \<notin> set (cl_completed ?c0)"
      using that c by auto
    then have "rs_id a = i \<and> a \<in> set (List.map_filter response_decode ?fs)"
      using fold_take_response_completed by fast
    then show ?thesis by (auto simp: e got_def rd set_map_filter)
  qed
  moreover have "cl_reader c = snd (drain_frames (feed (cl_reader (sy_client s)) ?bs))"
    using arg_cong [OF c, of cl_reader] by simp
  ultimately have "client_side (s\<lparr>sy_client := c, sy_link := (sy_link s)\<lparr>client := e\<rparr>\<rparr>)"
    using I ok by (auto simp: client_side_def Let_def e rd)
  moreover have "server_side (s\<lparr>sy_client := c, sy_link := (sy_link s)\<lparr>client := e\<rparr>\<rparr>)
      = server_side s" by (rule server_side_cong) simp_all
  ultimately show ?thesis using ss link by (simp add: sys_core_def)
qed

lemma retry_plan_reader:
  "retry_plan now ids c tf = (rs, c', tf') \<Longrightarrow> distinct ids \<Longrightarrow>
     cl_reader c' = cl_reader c \<and> cl_completed c' = cl_completed c"
  using retry_plan_ok by fastforce

lemma fold_fail_call_frame [simp]:
  "cl_conn (fold fail_call xs c) = cl_conn c" "cl_reader (fold fail_call xs c) = cl_reader c"
  "cl_completed (fold fail_call xs c) = cl_completed c"
  by (induction xs arbitrary: c) (simp_all add: fail_call_def)

lemma core_client_tick:
  assumes inv: "sys_core s" and vis: "visits ids (sy_client s)"
    and op: "client_on_tick ids (sy_client s) now = Some (c, out)"
    and rs: "rs = fst (retry_plan now ids (sy_client s) [])"
    and e: "e = ep_after (client (sy_link s)) (cl_conn c) out (map request_frame rs) []" and "small e"
  shows "sys_core (s\<lparr>sy_client := c, sy_link := (sy_link s)\<lparr>client := e\<rparr>, sy_issued := sy_issued s @ rs\<rparr>)"
proof -
  let ?s = "s\<lparr>sy_client := c, sy_link := (sy_link s)\<lparr>client := e\<rparr>, sy_issued := sy_issued s @ rs\<rparr>"
  obtain c1 tf where plan: "retry_plan now ids (sy_client s) [] = (rs, c1, tf)"
    using rs by (metis prod.collapse)
  have cs: "client_side s" and ss: "server_side s" using inv by (simp_all add: sys_core_def)
  note I = cs [unfolded client_side_def Let_def]
  note run = client_tick_run [OF op, of "client (sy_link s)", OF _ plan]
  have "link_inv ((sy_link s)\<lparr>client := e\<rparr>)"
    using core_client_step [OF inv, of "[OnTick now]" now "map request_frame rs" e] run(1) I e \<open>small e\<close>
    by (simp add: small_def)
  moreover have c: "c = fold fail_call tf (c1\<lparr>cl_conn := cl_conn c\<rparr>)" using run(2) I by blast
  have "retry_plan now ids (sy_client s\<lparr>cl_conn := cl_conn c\<rparr>) [] = (rs, c1\<lparr>cl_conn := cl_conn c\<rparr>, tf)"
    using plan by (simp add: retry_plan_frame)
  then have "client_ok (sy_issued s @ rs) (sy_done s) (sy_lost s) (fold fail_call tf (c1\<lparr>cl_conn := cl_conn c\<rparr>))"
    using I vis by (intro client_ok_retry [of _ _ _ "sy_client s\<lparr>cl_conn := cl_conn c\<rparr>"]) (simp_all add: visits_def)
  then have ok: "client_ok (sy_issued s @ rs) (sy_done s) (sy_lost s) c" using c by simp
  have "cl_reader c = cl_reader (sy_client s) \<and> cl_completed c = cl_completed (sy_client s)"
    using arg_cong [OF c, of cl_reader] arg_cong [OF c, of cl_completed] retry_plan_reader [OF plan] vis
    by (simp add: visits_def)
  then have "client_side ?s" using I ok by (auto simp: client_side_def Let_def e got_def)
  moreover have "server_side ?s = server_side s" by (rule server_side_cong) simp_all
  ultimately show ?thesis using ss by (simp add: sys_core_def)
qed

lemma core_server_tick:
  assumes inv: "sys_core s" and op: "server_on_tick (sy_server s) now = Some (v, out)"
    and e: "e = ep_after (server (sy_link s)) (sv_conn v) out [] []"
  shows "sys_core (s\<lparr>sy_server := v, sy_link := (sy_link s)\<lparr>server := e\<rparr>\<rparr>)"
proof -
  let ?s = "s\<lparr>sy_server := v, sy_link := (sy_link s)\<lparr>server := e\<rparr>\<rparr>"
  have cs: "client_side s" and ss: "server_side s" using inv by (simp_all add: sys_core_def)
  note I = ss [unfolded server_side_def Let_def]
  obtain c where t: "on_tick (sv_conn (sy_server s)) now = Some (c, out)" "v = sy_server s\<lparr>sv_conn := c\<rparr>"
    using op by (auto simp: server_on_tick_def)
  have sent: "length (ep_sent (server (sy_link s))) < 2 ^ 32"
    using inv by (simp add: sys_core_def link_inv_def ep_inv_def conn_inv_def send_ok_def)
  have "ep_run (server (sy_link s)) [OnTick now] = Some e"
    using t I by (simp add: ep_emit_def e ep_after_def)
  then have "link_inv ((sy_link s)\<lparr>server := e\<rparr>)"
    using core_server_step [OF inv, of "[OnTick now]" now "[]" e] sent by (simp add: sends_def)
  moreover have "server_side ?s" using I t by (auto simp: server_side_def Let_def e)
  moreover have "client_side ?s = client_side s" by (rule client_side_cong) simp_all
  ultimately show ?thesis using cs by (simp add: sys_core_def)
qed

lemma core_server_datagram:
  assumes inv: "sys_core s"
    and en: "enabled (server (sy_link s)) (client (sy_link s)) (Datagram now d)"
    and op: "server_on_datagram h (sy_server s) now d = Some (v, out)"
    and qs: "qs = List.map_filter request_decode (new_frames (sv_reader (sy_server s)) (sv_conn (sy_server s)) now d)"
    and as: "as = fst (answers h (sy_server s) qs)"
    and e: "e = ep_after (server (sy_link s)) (sv_conn v) out (map response_frame as)
           (released (sv_conn (sy_server s)) now d)" and "small e"
  shows "sys_core (s\<lparr>sy_server := v, sy_link := (sy_link s)\<lparr>server := e\<rparr>,
       sy_handled := sy_handled s @ qs, sy_answers := sy_answers s @ as\<rparr>)" (is "sys_core ?s")
proof -
  let ?v = "sy_server s" and ?e = "server (sy_link s)"
  let ?bs = "released (sv_conn ?v) now d" and ?fs = "new_frames (sv_reader ?v) (sv_conn ?v) now d"
  obtain s1 where a: "answers h ?v qs = (as, s1)" using as by (metis prod.collapse)
  have cs: "client_side s" and ss: "server_side s" using inv by (simp_all add: sys_core_def)
  note I = ss [unfolded server_side_def Let_def]
  note run = server_datagram_run [OF op, of ?e, OF _ qs a]
  have link: "link_inv ((sy_link s)\<lparr>server := e\<rparr>)"
    using core_server_step [OF inv, of "[Datagram now d, Recv]" now "map response_frame as" e] run(1) I e en \<open>small e\<close>
    by (simp add: small_def)
  have rd: "drain_loop (ep_recvd ?e @ ?bs) = (fst (drain_loop (ep_recvd ?e)) @ ?fs,
      buf (snd (drain_frames (feed (sv_reader ?v) ?bs))))"
    using reader_step [of "sv_reader ?v" "ep_recvd ?e" ?bs] I by (simp add: new_frames_def)
  have v: "v = s1\<lparr>sv_conn := sv_conn v, sv_reader := snd (drain_frames (feed (sv_reader ?v) ?bs))\<rparr>"
    using run(2) I by blast
  have seen: "sv_seen v = sv_seen s1" using arg_cong [OF v, of sv_seen] by simp
  have A: "as = map (\<lambda>q. the (sv_seen s1 (rq_id q))) qs" "sv_seen ?v \<subseteq>\<^sub>m sv_seen s1"
    "dom (sv_seen v) = rq_id ` set (sy_handled s @ qs)"
    using answers_seen [OF a] I seen by auto
  have "the (sv_seen ?v (rq_id q)) = the (sv_seen v (rq_id q))" if "q \<in> set (sy_handled s)" for q
  proof -
    have "rq_id q \<in> dom (sv_seen ?v)" using I that by simp
    then show ?thesis using A(2) seen by (auto simp: map_le_def)
  qed
  then have "sy_answers s @ as = map (\<lambda>q. the (sv_seen v (rq_id q))) (sy_handled s @ qs)"
    using I A(1) seen by auto
  moreover have "sv_reader v = snd (drain_frames (feed (sv_reader (sy_server s)) ?bs))"
    using arg_cong [OF v, of sv_reader] by simp
  ultimately have "server_side ?s"
    using I rd A(3) by (auto simp: server_side_def Let_def e qs map_filter_append)
  moreover have "client_side ?s = client_side s" by (rule client_side_cong) simp_all
  ultimately show ?thesis using cs link by (simp add: sys_core_def)
qed

lemma sys_core_step: "sys_core s \<Longrightarrow> sys_step h s s' \<Longrightarrow> sys_core s'"
  by (erule sys_stepE, erule sys_moveE)
    (auto intro: core_call core_client_datagram core_client_tick core_poll core_server_datagram core_server_tick)

text \<open>Only a datagram at the server changes the table and the handler's state.\<close>

lemma table_ok_move:
  assumes "table_ok h st0 (sy_handled s) (sy_server s)" and "sys_core s" and "sys_move h ev s s'"
  shows "table_ok h st0 (sy_handled s') (sy_server s')"
  using assms(3)
proof cases
  case (server_datagram now d v out qs as e)
  have conn: "ep_conn (server (sy_link s)) = sv_conn (sy_server s)"
    using assms(2) by (simp add: sys_core_def server_side_def Let_def)
  obtain s1 where a: "answers h (sy_server s) qs = (as, s1)" using server_datagram(5) by (metis prod.collapse)
  have "table_ok h st0 (sy_handled s @ qs) v"
    using answers_ok [OF assms(1) a] server_datagram_run(2) [OF server_datagram(3) conn server_datagram(4) a]
    by (metis table_ok_conn)
  then show ?thesis using server_datagram(2) by simp
qed (use assms(1) in \<open>auto simp: server_on_tick_def\<close>)

lemma sys_inv_step: "sys_inv h st0 s \<Longrightarrow> sys_step h s s' \<Longrightarrow> sys_inv h st0 s'"
  using sys_core_step table_ok_move by (metis sys_inv_def sys_stepE)

interpretation rpc: invariant_system "sys_init cfg cfg' st0" "sys_step h" "sys_inv h st0"
  for cfg cfg' st0 h
  by unfold_locales (auto intro: sys_inv_init sys_inv_step)

section \<open>Consequences of the invariant\<close>

lemma element_fits:
  "length (concat (map (\<lambda>m. rpc_frame (enc m)) ms)) < 2 ^ 32 \<Longrightarrow> m \<in> set ms \<Longrightarrow> length (enc m) < 2 ^ 32"
  by (induction ms) (auto simp: rpc_frame_def)

lemma sys_core_streams:
  assumes "sys_core s"
  shows "prefix (sy_handled s) (sy_issued s)" and "prefix (got (client (sy_link s))) (sy_answers s)"
proof -
  have link: "link_inv (sy_link s)" and C: "client_side s" and S: "server_side s"
    using assms by (simp_all add: sys_core_def)
  note C = C [unfolded client_side_def Let_def] and S = S [unfolded server_side_def Let_def]
  have len: "length (ep_sent (client (sy_link s))) < 2 ^ 32" "length (ep_sent (server (sy_link s))) < 2 ^ 32"
    using link by (simp_all add: link_inv_def ep_inv_def conn_inv_def send_ok_def)
  have pre: "prefix (ep_recvd (server (sy_link s))) (ep_sent (client (sy_link s)))"
    "prefix (ep_recvd (client (sy_link s))) (ep_sent (server (sy_link s)))"
    using link ep_inv_received unfolding link_inv_def by (meson append_prefixD)+
  have "list_all request_fits (sy_issued s)"
    using len(1) C element_fits [of request_encode "sy_issued s"]
    by (auto simp: list_all_iff request_fits_def)
  then show "prefix (sy_handled s) (sy_issued s)"
    using requests.read_prefix [of "ep_recvd (server (sy_link s))" "sy_issued s"] pre(1) C S by simp
  have "list_all response_fits (sy_answers s)"
    using len(2) S element_fits [of response_encode "sy_answers s"]
    by (auto simp: list_all_iff response_fits_def)
  then show "prefix (got (client (sy_link s))) (sy_answers s)"
    using responses.read_prefix [of "ep_recvd (client (sy_link s))" "sy_answers s"] pre(2) S by (simp add: got_def)
qed

lemma table_ok_entry:
  assumes "table_ok h st0 rs v" and "q \<in> set rs"
  shows "\<exists>pre r post. fresh {} rs = pre @ r # post \<and> rq_id r = rq_id q
    \<and> sv_seen v (rq_id q) = Some (respond h (fold (exec h) pre st0) r)"
proof -
  have "rq_id q \<in> rq_id ` set (fresh {} rs)" using assms(2) by (simp add: set_fresh)
  then obtain r where "r \<in> set (fresh {} rs)" "rq_id r = rq_id q" by fastforce
  then obtain pre post where "fresh {} rs = pre @ r # post" by (metis split_list)
  with \<open>rq_id r = rq_id q\<close> assms(1) show ?thesis unfolding table_ok_def by metis
qed

lemma respond_id [simp]: "rs_id (respond h st r) = rq_id r"
  by (simp add: respond_def split: prod.split)

lemma sys_inv_answer:
  assumes inv: "sys_inv h st0 s" and a: "(i, a) \<in> set (sy_done s @ cl_completed (sy_client s))"
  shows "\<exists>pre r post. fresh {} (sy_handled s) = pre @ r # post \<and> r \<in> set (sy_issued s)
    \<and> rq_id r = i \<and> a = respond h (fold (exec h) pre st0) r"
proof -
  note streams = sys_core_streams [OF inv [unfolded sys_inv_def, THEN conjunct1]]
  have C: "rs_id a = i" "a \<in> set (got (client (sy_link s)))"
    using inv a by (auto simp: sys_inv_def sys_core_def client_side_def Let_def)
  then have "a \<in> set (sy_answers s)"
    using set_mono_prefix [OF streams(2)] by blast
  then obtain q where q: "q \<in> set (sy_handled s)" "a = the (sv_seen (sy_server s) (rq_id q))"
    using inv by (auto simp: sys_inv_def sys_core_def server_side_def Let_def)
  have "table_ok h st0 (sy_handled s) (sy_server s)"
    using inv unfolding sys_inv_def by blast
  then obtain pre r post where r: "fresh {} (sy_handled s) = pre @ r # post" "rq_id r = rq_id q"
    "a = respond h (fold (exec h) pre st0) r" using table_ok_entry [OF _ q(1)] q(2) by fastforce
  have "r \<in> set (sy_handled s)" using r(1) fresh_sub [of "{}" "sy_handled s"] by auto
  then have "r \<in> set (sy_issued s)" using set_mono_prefix [OF streams(1)] by blast
  then show ?thesis using r C(1) by auto
qed

lemma sys_inv_exactly_once:
  assumes inv: "sys_inv h st0 s" and "(i, a) \<in> set (sy_done s @ cl_completed (sy_client s))"
  shows "\<exists>pre r post. fresh {} (sy_handled s) = pre @ r # post \<and> r \<in> set (sy_issued s)
    \<and> rq_id r = i \<and> a = respond h (fold (exec h) pre st0) r
    \<and> sv_state (sy_server s) = fold (exec h) (pre @ r # post) st0
    \<and> distinct (map rq_id (pre @ r # post))"
proof -
  have st: "sv_state (sy_server s) = fold (exec h) (fresh {} (sy_handled s)) st0"
    using inv unfolding sys_inv_def table_ok_def by blast
  obtain pre r post where r: "fresh {} (sy_handled s) = pre @ r # post" "r \<in> set (sy_issued s)"
    "rq_id r = i" "a = respond h (fold (exec h) pre st0) r"
    using sys_inv_answer [OF assms] by auto
  have "distinct (map rq_id (pre @ r # post))" using distinct_fresh [of "{}" "sy_handled s"] r(1) by simp
  with r st show ?thesis by metis
qed

section \<open>Executable runs\<close>

text \<open>One action of the system, at the client or at the server; \<open>k\<close> picks a datagram of the peer.\<close>

datatype sys_action =
    ACall tick u8 bytes
  | AClient tick nat
  | AServer tick nat
  | ARetry tick "u64 list"
  | APoll

fun sys_act :: "'st handler \<Rightarrow> 'st rpc_sys \<Rightarrow> sys_action \<Rightarrow> 'st rpc_sys option" where
  "sys_act h s (ACall now m p) =
    (case client_call (sy_client s) now m p of None \<Rightarrow> None
     | Some (i, c, out) \<Rightarrow>
        let r = \<lparr>rq_id = i, rq_method = m, rq_payload = p\<rparr>;
            e = ep_after (client (sy_link s)) (cl_conn c) out [request_frame r] []
        in if small e
           then Some (s\<lparr>sy_client := c, sy_link := (sy_link s)\<lparr>client := e\<rparr>, sy_issued := sy_issued s @ [r]\<rparr>)
           else None)"
| "sys_act h s (AClient now k) =
    (if k < length (ep_wire (server (sy_link s)))
     then let d = ep_wire (server (sy_link s)) ! k in
       (case client_on_datagram (sy_client s) now d of None \<Rightarrow> None
        | Some (c, out) \<Rightarrow>
           let e = ep_after (client (sy_link s)) (cl_conn c) out [] (released (cl_conn (sy_client s)) now d)
           in Some (s\<lparr>sy_client := c, sy_link := (sy_link s)\<lparr>client := e\<rparr>\<rparr>))
     else None)"
| "sys_act h s (AServer now k) =
    (if k < length (ep_wire (client (sy_link s)))
     then let d = ep_wire (client (sy_link s)) ! k in
       (case server_on_datagram h (sy_server s) now d of None \<Rightarrow> None
        | Some (v, out) \<Rightarrow>
           let qs = List.map_filter request_decode
                 (new_frames (sv_reader (sy_server s)) (sv_conn (sy_server s)) now d);
               as = fst (answers h (sy_server s) qs);
               e = ep_after (server (sy_link s)) (sv_conn v) out (map response_frame as)
                 (released (sv_conn (sy_server s)) now d)
           in if small e
              then Some (s\<lparr>sy_server := v, sy_link := (sy_link s)\<lparr>server := e\<rparr>,
                sy_handled := sy_handled s @ qs, sy_answers := sy_answers s @ as\<rparr>)
              else None)
     else None)"
| "sys_act h s (ARetry now ids) =
    (if visits ids (sy_client s)
     then (case client_on_tick ids (sy_client s) now of None \<Rightarrow> None
        | Some (c, out) \<Rightarrow>
           let rs = fst (retry_plan now ids (sy_client s) []);
               e = ep_after (client (sy_link s)) (cl_conn c) out (map request_frame rs) []
           in if small e
              then Some (s\<lparr>sy_client := c, sy_link := (sy_link s)\<lparr>client := e\<rparr>, sy_issued := sy_issued s @ rs\<rparr>)
              else None)
     else None)"
| "sys_act h s APoll =
    (case poll_completed (sy_client s) of (ds, c1) \<Rightarrow>
     case poll_failed c1 of (fs, c) \<Rightarrow>
       Some (s\<lparr>sy_client := c, sy_done := sy_done s @ ds, sy_lost := sy_lost s @ fs\<rparr>))"

fun sys_run :: "'st handler \<Rightarrow> 'st rpc_sys \<Rightarrow> sys_action list \<Rightarrow> 'st rpc_sys option" where
  "sys_run h s [] = Some s"
| "sys_run h s (a # as) = (case sys_act h s a of None \<Rightarrow> None | Some s' \<Rightarrow> sys_run h s' as)"

text \<open>The event of an action, with the datagram it names.\<close>

fun event_of :: "'st rpc_sys \<Rightarrow> sys_action \<Rightarrow> sys_event" where
  "event_of s (AClient now k) = ToClient now (ep_wire (server (sy_link s)) ! k)"
| "event_of s (AServer now k) = ToServer now (ep_wire (client (sy_link s)) ! k)"
| "event_of s _ = Internal"

lemma sys_act_move:
  assumes "sys_act h s a = Some s'"
  shows "sys_move h (event_of s a) s s'"
proof (cases a)
  case (ACall now m p)
  then show ?thesis
    using assms by (auto simp: Let_def split: option.splits if_splits intro: sys_move.call)
next
  case (AClient now k)
  then show ?thesis using assms
    by (auto simp: Let_def split: option.splits if_splits intro!: sys_move.client_datagram [OF _ refl])
next
  case (AServer now k)
  then show ?thesis using assms
    by (auto simp: Let_def split: option.splits if_splits
        intro!: sys_move.server_datagram [OF _ refl refl refl])
next
  case (ARetry now ids)
  then show ?thesis
    using assms by (auto simp: Let_def split: option.splits if_splits intro: sys_move.client_tick)
next
  case APoll
  then show ?thesis using assms by (auto split: prod.splits intro: sys_move.poll)
qed

lemma sys_act_step:
  assumes "sys_act h s a = Some s'"
  shows "sys_step h s s'"
proof (rule sys_step.move [OF sys_act_move [OF assms]])
  show "may_arrive s (event_of s a)"
    using assms by (cases a) (auto simp: Let_def split: option.splits if_splits)
qed

definition echo :: "nat handler" where
  "echo n m p = ((True, m # p), n + 1)"

definition sys_start :: "'st \<Rightarrow> 'st rpc_sys" where
  "sys_start st0 = (let l = start default_config in
     \<lparr>sy_client = client_new (ep_conn (client l)) 25 60,
      sy_server = server_new (ep_conn (server l)) st0, sy_link = l,
      sy_issued = [], sy_handled = [], sy_answers = [], sy_done = [], sy_lost = []\<rparr>)"

lemma drain_eval:
  "drain_loop (a # b # c # d # bs) =
    (let len = unat (from_le [a, b, c, d] :: u32) in
     if length bs < len then ([], a # b # c # d # bs)
     else (take len bs # fst (drain_loop (drop len bs)), snd (drain_loop (drop len bs))))"
  by (subst drain_loop.simps) (simp add: LEN_PREFIX_def Let_def case_prod_beta)

lemma sys_start_reachable: "sys_reachable h default_config default_config st0 (sys_start st0)"
  by (rule reachable_init)
    (auto simp: sys_init_def sys_start_def Let_def link_init_def start_def default_config_ok)

lemma sys_run_reachable:
  "sys_reachable h cfg cfg' st0 s \<Longrightarrow> sys_run h s as = Some s' \<Longrightarrow> sys_reachable h cfg cfg' st0 s'"
proof (induction as arbitrary: s)
  case (Cons a as)
  then obtain s1 where "sys_act h s a = Some s1" "sys_run h s1 as = Some s'"
    by (auto split: option.splits)
  with Cons show ?case using sys_act_step reachable_step by metis
qed simp

text \<open>A run in which the client retries a call before its first attempt arrives: the server sees the
  request twice, runs the handler once and answers both times.\<close>

definition retry_run :: "sys_action list" where
  "retry_run =
    [AServer (Tick 1) 0, AClient (Tick 2) 0, ACall (Tick 3) 9 [4], ARetry (Tick 30) [0],
     AServer (Tick 31) 2, AServer (Tick 32) 4, AClient (Tick 33) 2, APoll]"

lemma retry_run_eval:
  "\<exists>s. sys_run echo (sys_start 0) retry_run = Some s \<and> map rq_id (sy_issued s) = [0, 0]
     \<and> length (sy_handled s) = 2 \<and> sv_executions (sy_server s) = 1 \<and> sv_state (sy_server s) = 1
     \<and> sy_done s = [(0, \<lparr>rs_id = 0, rs_ok = True, rs_payload = [9, 4]\<rparr>)]"
  by (simp add: retry_run_def run_simps sys_start_def client_new_def server_new_def reader_new_def
      client_call_def client_on_datagram_def server_on_datagram_def client_on_tick_def released_def
      new_frames_def drain_frames_def feed_def ep_after_def small_def answer_def poll_completed_def
      poll_failed_def take_response_def visits_def drain_loop_short List.map_filter_simps le_eval
      rpc_frame_def drain_eval request_encode_def request_decode_def response_encode_def
      response_decode_def slice_of_def echo_def)

lemma retry_run_reachable:
  "\<exists>s. sys_reachable echo default_config default_config 0 s \<and> map rq_id (sy_issued s) = [0, 0]
     \<and> length (sy_handled s) = 2 \<and> sv_executions (sy_server s) = 1
     \<and> sy_done s = [(0, \<lparr>rs_id = 0, rs_ok = True, rs_payload = [9, 4]\<rparr>)]"
proof -
  obtain s where s: "sys_run echo (sys_start 0) retry_run = Some s" "map rq_id (sy_issued s) = [0, 0]"
    "length (sy_handled s) = 2" "sv_executions (sy_server s) = 1"
    "sy_done s = [(0, \<lparr>rs_id = 0, rs_ok = True, rs_payload = [9, 4]\<rparr>)]"
    using retry_run_eval by (elim exE conjE)
  show ?thesis
    by (intro exI [of _ s] conjI) (rule sys_run_reachable [OF sys_start_reachable s(1)], fact+)
qed

section \<open>Properties\<close>

text \<open>C2. Every call a client has completed was executed by the server exactly once, and the response
  handed to the caller is what that one execution answered, in the state left by the executions
  before it, whatever the network did and however often the request was retried.\<close>

theorem rpc_exactly_once_answers:
  assumes "sys_reachable h cfg cfg' st0 s" and "(i, a) \<in> set (sy_done s)"
  shows "\<exists>pre r post. fresh {} (sy_handled s) = pre @ r # post \<and> r \<in> set (sy_issued s)
    \<and> rq_id r = i \<and> a = respond h (fold (exec h) pre st0) r
    \<and> sv_state (sy_server s) = fold (exec h) (pre @ r # post) st0
    \<and> distinct (map rq_id (pre @ r # post))"
  using sys_inv_exactly_once [OF rpc.reachable_inv [OF assms(1)]] assms(2) by simp

theorem rpc_exactly_once_answers_witness:
  "\<exists>s pre r post. sys_reachable echo default_config default_config 0 s
     \<and> fresh {} (sy_handled s) = pre @ r # post \<and> rq_id r = 0 \<and> length (sy_handled s) = 2
     \<and> \<lparr>rs_id = 0, rs_ok = True, rs_payload = [9, 4]\<rparr> = respond echo (fold (exec echo) pre 0) r"
proof -
  obtain s where s: "sys_reachable echo default_config default_config 0 s" "length (sy_handled s) = 2"
    "sy_done s = [(0, \<lparr>rs_id = 0, rs_ok = True, rs_payload = [9, 4]\<rparr>)]"
    using retry_run_reachable by blast
  then show ?thesis
    using rpc_exactly_once_answers [OF s(1), of 0 "\<lparr>rs_id = 0, rs_ok = True, rs_payload = [9, 4]\<rparr>"]
    by (metis list.set_intros(1))
qed

text \<open>C5. The server handles exactly a prefix of the requests the client put on the stream, in order,
  and the handler has run once per distinct request id among them.\<close>

theorem rpc_server_at_most_once:
  assumes "sys_reachable h cfg cfg' st0 s"
  shows "prefix (sy_handled s) (sy_issued s)
    \<and> sv_state (sy_server s) = fold (exec h) (fresh {} (sy_handled s)) st0
    \<and> sv_executions (sy_server s) = word_of_nat (card (rq_id ` set (sy_handled s)))"
proof -
  have inv: "sys_inv h st0 s" using rpc.reachable_inv [OF assms] .
  have "card (rq_id ` set (sy_handled s)) = length (fresh {} (sy_handled s))"
    using set_fresh [of "{}" "sy_handled s"] distinct_card [OF distinct_fresh [of "{}" "sy_handled s"]] by simp
  moreover have "table_ok h st0 (sy_handled s) (sy_server s)"
    using inv unfolding sys_inv_def by blast
  ultimately show ?thesis using sys_core_streams(1) inv by (simp add: table_ok_def sys_inv_def)
qed

theorem rpc_server_at_most_once_witness:
  "\<exists>s. sys_reachable echo default_config default_config 0 s \<and> map rq_id (sy_issued s) = [0, 0]
     \<and> prefix (sy_handled s) (sy_issued s) \<and> length (sy_handled s) = 2
     \<and> sv_executions (sy_server s) = word_of_nat (card (rq_id ` set (sy_handled s)))"
proof -
  obtain s where s: "sys_reachable echo default_config default_config 0 s" "map rq_id (sy_issued s) = [0, 0]"
    "length (sy_handled s) = 2" using retry_run_reachable by (elim exE conjE)
  then show ?thesis using rpc_server_at_most_once [OF s(1)] by (intro exI [of _ s]) simp
qed

text \<open>C6. The client's books balance: ids are never reused for another request, and every id issued is
  either pending or has exactly one outcome, a completion or a failure, never both and never twice.\<close>

theorem rpc_one_outcome_per_call:
  assumes "sys_reachable h cfg cfg' st0 s"
  shows "inj_on rq_id (set (sy_issued s))
    \<and> distinct (outcomes (sy_done s) (sy_lost s) (sy_client s))
    \<and> set (outcomes (sy_done s) (sy_lost s) (sy_client s)) \<inter> dom (cl_pending (sy_client s)) = {}
    \<and> rq_id ` set (sy_issued s) =
        set (outcomes (sy_done s) (sy_lost s) (sy_client s)) \<union> dom (cl_pending (sy_client s))"
  using rpc.reachable_inv [OF assms]
  by (simp add: sys_inv_def sys_core_def client_side_def Let_def client_ok_def ledger_def)

theorem rpc_one_outcome_per_call_witness:
  "\<exists>s. sys_reachable echo default_config default_config 0 s \<and> map rq_id (sy_issued s) = [0, 0]
     \<and> distinct (outcomes (sy_done s) (sy_lost s) (sy_client s))"
proof -
  obtain s where s: "sys_reachable echo default_config default_config 0 s" "map rq_id (sy_issued s) = [0, 0]"
    using retry_run_reachable by (elim exE conjE)
  then show ?thesis using rpc_one_outcome_per_call [OF s(1)] by (intro exI [of _ s]) simp
qed

end
