(* ===== verification/Wire.thy ===== *)
theory Wire
  imports Rpc_Correct Network
begin

text \<open>
  The whole stack: an RPC client and an RPC server whose datagrams travel over two of the program's
  own channels, one in each direction, the way the drivers of \<^verbatim>\<open>crates/workload\<close> wire them up.
  Everything an endpoint emits is handed to \<open>Channel::send\<close>; what \<open>Channel::advance\<close> returns is handed
  to the other endpoint in that order. The result is that this system refines the one of
  \<open>Rpc_System\<close>: its network does nothing the abstract network could not do.
\<close>

section \<open>The system with its channels\<close>

record 'st wire =
  wr_sys :: "'st rpc_sys"
  wr_up :: channel
  wr_down :: channel
  wr_at_server :: "bytes list"
  wr_at_client :: "bytes list"

abbreviation cl_end :: "'st rpc_sys \<Rightarrow> endpoint" where
  "cl_end s \<equiv> client (sy_link s)"

abbreviation sv_end :: "'st rpc_sys \<Rightarrow> endpoint" where
  "sv_end s \<equiv> server (sy_link s)"

text \<open>The datagrams a move emitted, and the room a stream must leave for the header of a frame.\<close>

definition emitted :: "endpoint \<Rightarrow> endpoint \<Rightarrow> bytes list" where
  "emitted e e' = drop (length (ep_wire e)) (ep_wire e')"

definition room :: "endpoint \<Rightarrow> bool" where
  "room e \<longleftrightarrow> length (ep_sent e) + 42 < 2 ^ 32"

text \<open>The datagram a move consumes is the next of those that have arrived.\<close>

fun consume :: "sys_event \<Rightarrow> 'st wire \<Rightarrow> 'st wire option" where
  "consume Internal w = Some w"
| "consume (ToServer now d) w =
    (case wr_at_server w of [] \<Rightarrow> None
     | x # xs \<Rightarrow> if x = d then Some (w\<lparr>wr_at_server := xs\<rparr>) else None)"
| "consume (ToClient now d) w =
    (case wr_at_client w of [] \<Rightarrow> None
     | x # xs \<Rightarrow> if x = d then Some (w\<lparr>wr_at_client := xs\<rparr>) else None)"

inductive wire_step :: "'st handler \<Rightarrow> 'st wire \<Rightarrow> 'st wire \<Rightarrow> bool" for h where
  act: "consume ev w = Some w1 \<Longrightarrow> sys_move h ev (wr_sys w) s \<Longrightarrow> room (cl_end s) \<Longrightarrow> room (sv_end s) \<Longrightarrow>
     send_all (emitted (cl_end (wr_sys w)) (cl_end s)) (wr_up w) = Some up \<Longrightarrow>
     send_all (emitted (sv_end (wr_sys w)) (sv_end s)) (wr_down w) = Some down \<Longrightarrow>
     wire_step h w (w1\<lparr>wr_sys := s, wr_up := up, wr_down := down\<rparr>)"
| up_due: "channel_advance now (wr_up w) = Some (ds, up) \<Longrightarrow>
     wire_step h w (w\<lparr>wr_up := up, wr_at_server := wr_at_server w @ ds\<rparr>)"
| down_due: "channel_advance now (wr_down w) = Some (ds, down) \<Longrightarrow>
     wire_step h w (w\<lparr>wr_down := down, wr_at_client := wr_at_client w @ ds\<rparr>)"

definition wire_init ::
  "config \<Rightarrow> config \<Rightarrow> fault_profile \<Rightarrow> fault_profile \<Rightarrow> 'st \<Rightarrow> 'st wire \<Rightarrow> bool" where
  "wire_init cfg cfg' p q st0 w \<longleftrightarrow>
    (\<exists>s seed seed' ch up down. sys_init cfg cfg' st0 s \<and> tame p \<and> tame q
       \<and> channel_new seed p = Some ch \<and> send_all (ep_wire (cl_end s)) ch = Some up
       \<and> channel_new seed' q = Some down
       \<and> w = \<lparr>wr_sys = s, wr_up = up, wr_down = down, wr_at_server = [], wr_at_client = []\<rparr>)"

abbreviation wire_reachable where
  "wire_reachable h cfg cfg' p q st0 \<equiv> reachable (wire_init cfg cfg' p q st0) (wire_step h)"

section \<open>One direction\<close>

text \<open>The channel carries only what its endpoint has emitted, and so does the queue behind it, up to
  bytes that no receiver decodes.\<close>

definition flows :: "endpoint \<Rightarrow> channel \<Rightarrow> bytes list \<Rightarrow> bool" where
  "flows e ch ds \<longleftrightarrow> carries (set (ep_wire e)) ch \<and> room e
     \<and> (\<forall>d \<in> set ds. d \<in> set (ep_wire e) \<or> isl (frame_decode d))"

lemma wire_frames:
  assumes "ep_inv e peer" and "room e"
  shows "\<forall>d \<in> set (ep_wire e). is_frame d"
proof
  fix d assume "d \<in> set (ep_wire e)"
  then obtain f where f: "d = frame_encode f" "length (payload f) \<le> length (ep_tx e) + 42"
    using assms(1) by (auto simp: ep_inv_def sent_ok_def)
  moreover have "length (ep_tx e) \<le> length (ep_sent e)"
    using ep_inv_tx [OF assms(1)] prefix_length_le by blast
  ultimately show "is_frame d" using assms(2) by (auto simp: room_def intro: is_frame_encode)
qed

lemma send_all_ok:
  assumes "carries L ch" and "set ds \<subseteq> L" and "\<forall>d \<in> L. is_frame d"
  shows "\<exists>ch'. send_all ds ch = Some ch' \<and> carries L ch'"
  using assms(1,2)
proof (induction ds arbitrary: ch)
  case (Cons d ds)
  then obtain ch1 where "channel_send d ch = Some ch1" "carries L ch1"
    using chan_net.net_put [of L ch d] assms(3) by auto
  then show ?case using Cons by simp
qed simp

lemma flows_emit:
  assumes "flows e ch ds" and "ep_inv e' peer" and "room e'" and "ep_wire e' = ep_wire e @ out"
  obtains ch' where "send_all (emitted e e') ch = Some ch'" "flows e' ch' ds"
proof -
  have "carries (set (ep_wire e')) ch"
    using assms(1,4) by (auto simp: flows_def intro: chan_net.net_mono)
  moreover have "set (emitted e e') \<subseteq> set (ep_wire e')" by (simp add: emitted_def set_drop_subset)
  ultimately obtain ch' where ch': "send_all (emitted e e') ch = Some ch'" "carries (set (ep_wire e')) ch'"
    using send_all_ok wire_frames [OF assms(2,3)] by blast
  moreover have "flows e' ch' ds" using assms(1,3,4) ch'(2) by (auto simp: flows_def)
  ultimately show thesis using that by blast
qed

lemma flows_advance:
  assumes "flows e ch ds" and "ep_inv e peer"
  obtains out ch' where "channel_advance now ch = Some (out, ch')" "flows e ch' (ds @ out)"
proof -
  have "carries (set (ep_wire e)) ch" "room e" using assms(1) by (simp_all add: flows_def)
  then obtain out ch' where o: "channel_advance now ch = Some (out, ch')" "carries (set (ep_wire e)) ch'"
    "\<forall>d \<in> set out. d \<in> set (ep_wire e) \<or> isl (frame_decode d)"
    using chan_net.net_take wire_frames [OF assms(2)] by blast
  moreover have "flows e ch' (ds @ out)" using assms(1) o(2,3) by (auto simp: flows_def)
  ultimately show thesis using that by blast
qed

lemma flows_due:
  assumes "flows e ch ds" and "ep_inv e peer" and "channel_advance now ch = Some (out, ch')"
  shows "flows e ch' (ds @ out)"
  using flows_advance [OF assms(1,2), of now] assms(3) by auto

section \<open>The simulation\<close>

lemma sys_move_wires:
  assumes "sys_move h ev s s'"
  shows "\<exists>out. ep_wire (cl_end s') = ep_wire (cl_end s) @ out"
    and "\<exists>out. ep_wire (sv_end s') = ep_wire (sv_end s) @ out"
  using assms by (auto elim!: sys_moveE simp: ep_after_def)

text \<open>The two halves joined by their channels, whatever the handler's state.\<close>

definition joined :: "'st wire \<Rightarrow> bool" where
  "joined w \<longleftrightarrow> sys_core (wr_sys w)
     \<and> flows (cl_end (wr_sys w)) (wr_up w) (wr_at_server w)
     \<and> flows (sv_end (wr_sys w)) (wr_down w) (wr_at_client w)"

definition wire_inv :: "'st handler \<Rightarrow> config \<Rightarrow> config \<Rightarrow> 'st \<Rightarrow> 'st wire \<Rightarrow> bool" where
  "wire_inv h cfg cfg' st0 w \<longleftrightarrow> sys_reachable h cfg cfg' st0 (wr_sys w) \<and> joined w"

lemma sys_core_ends:
  assumes "sys_core s"
  shows "ep_inv (cl_end s) (sv_end s)" "ep_inv (sv_end s) (cl_end s)"
  using assms by (simp_all add: sys_core_def link_inv_def)

lemma sys_reachable_core: "sys_reachable h cfg cfg' st0 s \<Longrightarrow> sys_core s"
  by (drule rpc.reachable_inv) (simp add: sys_inv_def)

lemma consume_arrives:
  assumes "consume ev w = Some w1" and "joined w"
  shows "may_arrive (wr_sys w) ev"
    and "flows (cl_end (wr_sys w)) (wr_up w) (wr_at_server w1)"
    and "flows (sv_end (wr_sys w)) (wr_down w) (wr_at_client w1)"
  using assms by (cases ev; auto simp: joined_def flows_def split: list.splits if_splits)+

lemma joined_act:
  assumes "joined w" and "consume ev w = Some w1" and "sys_move h ev (wr_sys w) s"
    and "room (cl_end s)" and "room (sv_end s)"
  obtains up down where "send_all (emitted (cl_end (wr_sys w)) (cl_end s)) (wr_up w) = Some up"
    "send_all (emitted (sv_end (wr_sys w)) (sv_end s)) (wr_down w) = Some down"
    "joined (w1\<lparr>wr_sys := s, wr_up := up, wr_down := down\<rparr>)"
proof -
  note C = consume_arrives [OF assms(2,1)]
  have core: "sys_core s"
    using assms(1,3) C(1) sys_core_step sys_step.move by (fastforce simp: joined_def)
  obtain oc os where o: "ep_wire (cl_end s) = ep_wire (cl_end (wr_sys w)) @ oc"
    "ep_wire (sv_end s) = ep_wire (sv_end (wr_sys w)) @ os"
    using sys_move_wires [OF assms(3)] by blast
  obtain up where up: "send_all (emitted (cl_end (wr_sys w)) (cl_end s)) (wr_up w) = Some up"
    "flows (cl_end s) up (wr_at_server w1)"
    using flows_emit [OF C(2) sys_core_ends(1) [OF core] assms(4) o(1)] by blast
  obtain down where down: "send_all (emitted (sv_end (wr_sys w)) (sv_end s)) (wr_down w) = Some down"
    "flows (sv_end s) down (wr_at_client w1)"
    using flows_emit [OF C(3) sys_core_ends(2) [OF core] assms(5) o(2)] by blast
  show thesis using that [OF up(1) down(1)] core up(2) down(2) by (simp add: joined_def)
qed

lemma joined_due:
  assumes "joined w"
  obtains ds up where "channel_advance now (wr_up w) = Some (ds, up)"
    "joined (w\<lparr>wr_up := up, wr_at_server := wr_at_server w @ ds\<rparr>)"
proof -
  have w: "flows (cl_end (wr_sys w)) (wr_up w) (wr_at_server w)" "sys_core (wr_sys w)"
    using assms by (simp_all add: joined_def)
  from flows_advance [OF w(1) sys_core_ends(1) [OF w(2)]] obtain ds up where
    "channel_advance now (wr_up w) = Some (ds, up)" "flows (cl_end (wr_sys w)) up (wr_at_server w @ ds)" .
  then show thesis using that assms by (simp add: joined_def)
qed

lemma joined_due_back:
  assumes "joined w"
  obtains ds down where "channel_advance now (wr_down w) = Some (ds, down)"
    "joined (w\<lparr>wr_down := down, wr_at_client := wr_at_client w @ ds\<rparr>)"
proof -
  have w: "flows (sv_end (wr_sys w)) (wr_down w) (wr_at_client w)" "sys_core (wr_sys w)"
    using assms by (simp_all add: joined_def)
  from flows_advance [OF w(1) sys_core_ends(2) [OF w(2)]] obtain ds down where
    "channel_advance now (wr_down w) = Some (ds, down)" "flows (sv_end (wr_sys w)) down (wr_at_client w @ ds)" .
  then show thesis using that assms by (simp add: joined_def)
qed

lemma joined_step:
  assumes "joined w" and "wire_step h w w'"
  shows "joined w'"
  using assms(2)
proof cases
  case (act ev w1 s up down)
  then show ?thesis using joined_act [OF assms(1) act(2-5)] by (metis option.inject)
next
  case (up_due now ds up)
  then show ?thesis using joined_due [OF assms(1), of now] by (metis option.inject prod.inject)
next
  case (down_due now ds down)
  then show ?thesis using joined_due_back [OF assms(1), of now] by (metis option.inject prod.inject)
qed

lemma wire_inv_step:
  assumes "wire_inv h cfg cfg' st0 w" and "wire_step h w w'"
  shows "wire_inv h cfg cfg' st0 w'"
proof -
  have "sys_reachable h cfg cfg' st0 (wr_sys w')"
    using assms(2)
  proof cases
    case (act ev w1 s up down)
    then show ?thesis
      using assms(1) consume_arrives(1) reachable_step sys_step.move by (fastforce simp: wire_inv_def)
  qed (use assms(1) in \<open>simp_all add: wire_inv_def\<close>)
  with joined_step [OF _ assms(2)] assms(1) show ?thesis by (simp add: wire_inv_def)
qed

text \<open>Fresh channels between two endpoints: what the client has emitted is sent.\<close>

lemma flows_new:
  assumes "channel_new seed p = Some ch" and "tame p" and "room e"
  shows "flows e ch []"
  using assms(3) chan_net.net_mono [OF carries_new [OF assms(1,2)]] by (simp add: flows_def)

lemma joined_new:
  assumes "sys_init cfg cfg' st0 s" and "tame p" and "tame q"
    and "channel_new seed p = Some ch" and "channel_new seed' q = Some down"
  obtains up where "send_all (ep_wire (cl_end s)) ch = Some up"
    "joined \<lparr>wr_sys = s, wr_up = up, wr_down = down, wr_at_server = [], wr_at_client = []\<rparr>"
proof -
  have core: "sys_core s" using sys_inv_init [OF assms(1), of undefined] by (simp add: sys_inv_def)
  have e: "ep_sent (cl_end s) = []" "ep_sent (sv_end s) = []"
    using assms(1) by (auto simp: sys_init_def link_init_def ep_client_def ep_server_def split: prod.split)
  have rm: "room (cl_end s)" "room (sv_end s)" by (simp_all add: room_def e)
  obtain up where "send_all (ep_wire (cl_end s)) ch = Some up" "carries (set (ep_wire (cl_end s))) up"
    using send_all_ok [of "set (ep_wire (cl_end s))" ch "ep_wire (cl_end s)"] flows_new [OF assms(4,2) rm(1)]
      wire_frames [OF sys_core_ends(1) [OF core] rm(1)]
    by (auto simp: flows_def)
  then show thesis
    using that [of up] core rm flows_new [OF assms(5,3) rm(2)] by (simp add: joined_def flows_def)
qed

lemma wire_inv_init:
  assumes "wire_init cfg cfg' p q st0 w"
  shows "wire_inv h cfg cfg' st0 w"
proof -
  obtain s seed seed' ch up down where w: "sys_init cfg cfg' st0 s" "tame p" "tame q"
    "channel_new seed p = Some ch" "send_all (ep_wire (cl_end s)) ch = Some up"
    "channel_new seed' q = Some down"
    "w = \<lparr>wr_sys = s, wr_up = up, wr_down = down, wr_at_server = [], wr_at_client = []\<rparr>"
    using assms by (auto simp: wire_init_def)
  have "sys_reachable h cfg cfg' st0 s" using w(1) by (rule reachable_init)
  then show ?thesis
    using joined_new [OF w(1-4,6)] w(5,7) by (auto simp: wire_inv_def)
qed

interpretation wired: invariant_system "wire_init cfg cfg' p q st0" "wire_step h" "wire_inv h cfg cfg' st0"
  for cfg cfg' p q st0 h
  by unfold_locales (auto intro: wire_inv_init wire_inv_step)

section \<open>Runs\<close>

datatype wire_action =
    Do sys_action
  | Up tick
  | Down tick

fun wire_act :: "'st handler \<Rightarrow> 'st wire \<Rightarrow> wire_action \<Rightarrow> 'st wire option" where
  "wire_act h w (Do a) =
    (case consume (event_of (wr_sys w) a) w of None \<Rightarrow> None | Some w1 \<Rightarrow>
     case sys_act h (wr_sys w) a of None \<Rightarrow> None | Some s \<Rightarrow>
     if room (cl_end s) \<and> room (sv_end s)
     then case send_all (emitted (cl_end (wr_sys w)) (cl_end s)) (wr_up w) of None \<Rightarrow> None | Some up \<Rightarrow>
          map_option (\<lambda>down. w1\<lparr>wr_sys := s, wr_up := up, wr_down := down\<rparr>)
            (send_all (emitted (sv_end (wr_sys w)) (sv_end s)) (wr_down w))
     else None)"
| "wire_act h w (Up now) =
    map_option (\<lambda>(ds, up). w\<lparr>wr_up := up, wr_at_server := wr_at_server w @ ds\<rparr>)
      (channel_advance now (wr_up w))"
| "wire_act h w (Down now) =
    map_option (\<lambda>(ds, down). w\<lparr>wr_down := down, wr_at_client := wr_at_client w @ ds\<rparr>)
      (channel_advance now (wr_down w))"

fun wire_run :: "'st handler \<Rightarrow> 'st wire \<Rightarrow> wire_action list \<Rightarrow> 'st wire option" where
  "wire_run h w [] = Some w"
| "wire_run h w (a # as) = (case wire_act h w a of None \<Rightarrow> None | Some w' \<Rightarrow> wire_run h w' as)"

lemma wire_act_step: "wire_act h w a = Some w' \<Longrightarrow> wire_step h w w'"
  by (cases a) (auto split: option.splits if_splits intro: wire_step.intros sys_act_move)

lemma wire_run_reachable:
  "wire_reachable h cfg cfg' p q st0 w \<Longrightarrow> wire_run h w as = Some w' \<Longrightarrow>
     wire_reachable h cfg cfg' p q st0 w'"
proof (induction as arbitrary: w)
  case (Cons a as)
  then obtain w1 where "wire_act h w a = Some w1" "wire_run h w1 as = Some w'"
    by (auto split: option.splits)
  with Cons show ?case using wire_act_step reachable_step by metis
qed simp

definition wire_start :: "'st \<Rightarrow> 'st wire option" where
  "wire_start st0 = (let s = sys_start st0 in
     case channel_new 1 CLEAN of None \<Rightarrow> None | Some ch \<Rightarrow>
     map_option (\<lambda>up. \<lparr>wr_sys = s, wr_up = up, wr_down = ch, wr_at_server = [], wr_at_client = []\<rparr>)
       (send_all (ep_wire (cl_end s)) ch))"

definition wire_demo :: "wire_action list" where
  "wire_demo =
    [Up (Tick 1), Do (AServer (Tick 1) 0), Down (Tick 2), Do (AClient (Tick 2) 0),
     Do (ACall (Tick 2) 9 [4]), Up (Tick 3), Do (AServer (Tick 3) 1), Do (AServer (Tick 3) 2),
     Down (Tick 4), Do (AClient (Tick 4) 1), Do (AClient (Tick 4) 2), Do APoll]"

lemma wire_demo_eval:
  "\<exists>w. Option.bind (wire_start 0) (\<lambda>w. wire_run echo w wire_demo) = Some w
     \<and> sy_done (wr_sys w) = [(0, \<lparr>rs_id = 0, rs_ok = True, rs_payload = [9, 4]\<rparr>)]"
  by (simp add: wire_start_def wire_demo_def room_def emitted_def channel_new_def channel_eval
      channel_advance_def deliver_ready_def deliver_loop.simps heap_peek_def heap_pop_def
      run_simps sys_start_def client_new_def server_new_def reader_new_def
      client_call_def client_on_datagram_def server_on_datagram_def client_on_tick_def released_def
      new_frames_def drain_frames_def feed_def ep_after_def small_def answer_def poll_completed_def
      poll_failed_def take_response_def visits_def drain_loop_short List.map_filter_simps le_eval
      rpc_frame_def drain_eval request_encode_def request_decode_def response_encode_def
      response_decode_def slice_of_def echo_def)

lemma wire_start_init:
  assumes "wire_start st0 = Some w"
  shows "wire_init default_config default_config CLEAN CLEAN st0 w"
proof -
  obtain ch up where c: "channel_new 1 CLEAN = Some ch" "send_all (ep_wire (cl_end (sys_start st0))) ch = Some up"
    "w = \<lparr>wr_sys = sys_start st0, wr_up = up, wr_down = ch, wr_at_server = [], wr_at_client = []\<rparr>"
    using assms by (auto simp: wire_start_def Let_def split: option.splits)
  moreover have "sys_init default_config default_config st0 (sys_start st0)"
    by (auto simp: sys_init_def sys_start_def Let_def link_init_def start_def default_config_ok)
  ultimately show ?thesis using tame_CLEAN unfolding wire_init_def by blast
qed

lemma wire_demo_reachable:
  "\<exists>w. wire_reachable echo default_config default_config CLEAN CLEAN 0 w
     \<and> sy_done (wr_sys w) = [(0, \<lparr>rs_id = 0, rs_ok = True, rs_payload = [9, 4]\<rparr>)]"
proof -
  obtain w where w: "Option.bind (wire_start 0) (\<lambda>w. wire_run echo w wire_demo) = Some w"
    "sy_done (wr_sys w) = [(0, \<lparr>rs_id = 0, rs_ok = True, rs_payload = [9, 4]\<rparr>)]"
    using wire_demo_eval by (elim exE conjE)
  then obtain w0 where w0: "wire_start 0 = Some w0" "wire_run echo w0 wire_demo = Some w"
    unfolding Option.bind_eq_Some_conv by (elim exE conjE)
  have "wire_reachable echo default_config default_config CLEAN CLEAN 0 w0"
    by (rule reachable_init) (rule wire_start_init [OF w0(1)])
  then have "wire_reachable echo default_config default_config CLEAN CLEAN 0 w"
    using w0(2) by (rule wire_run_reachable)
  with w(2) show ?thesis by (intro exI [of _ w] conjI)
qed

section \<open>Properties\<close>

text \<open>C8. The abstract network is sound for the program's own, within limits: take a client and a
  server joined by two channels, of any seeds, whose profiles are \<open>tame\<close> (no profile both corrupts and
  truncates, since a frame changed twice may decode by chance, and \<open>reorder_max_delay\<close> is not the
  largest \<open>u64\<close>; of the named profiles this leaves out lossy and bursty_corruption), and whose streams
  stay more than 42 bytes short of \<open>2 ^ 32\<close> (\<open>room\<close>). Such a system only ever reaches states that the
  system over the abstract network reaches, and advancing either channel always returns.\<close>

theorem wire_refines_network:
  assumes "wire_reachable h cfg cfg' p q st0 w"
  shows "sys_reachable h cfg cfg' st0 (wr_sys w)
    \<and> channel_advance now (wr_up w) \<noteq> None \<and> channel_advance now (wr_down w) \<noteq> None"
proof -
  have inv: "wire_inv h cfg cfg' st0 w" using wired.reachable_inv [OF assms] .
  then have "joined w" by (simp add: wire_inv_def)
  then have "channel_advance now (wr_up w) \<noteq> None" "channel_advance now (wr_down w) \<noteq> None"
    using joined_due [of w now] joined_due_back [of w now] by (metis option.distinct(1))+
  with inv show ?thesis by (simp add: wire_inv_def)
qed

theorem wire_refines_network_witness:
  "\<exists>w. wire_reachable echo default_config default_config CLEAN CLEAN 0 w
     \<and> sy_done (wr_sys w) = [(0, \<lparr>rs_id = 0, rs_ok = True, rs_payload = [9, 4]\<rparr>)]
     \<and> sys_reachable echo default_config default_config 0 (wr_sys w)"
proof -
  obtain w where w: "wire_reachable echo default_config default_config CLEAN CLEAN 0 w"
    "sy_done (wr_sys w) = [(0, \<lparr>rs_id = 0, rs_ok = True, rs_payload = [9, 4]\<rparr>)]"
    using wire_demo_reachable by (elim exE conjE)
  with wire_refines_network [OF w(1)] show ?thesis by (intro exI [of _ w] conjI) simp_all
qed

text \<open>C9. Exactly once, end to end, over the program's own channels with \<open>tame\<close> profiles (none that
  both corrupts and truncates) and streams with \<open>room\<close> below \<open>2 ^ 32\<close> bytes: every answer a client has
  obtained, polled or not, is what one execution of its request answered, and the server executed each
  request once.\<close>

theorem exactly_once_over_channels:
  assumes "wire_reachable h cfg cfg' p q st0 w"
    and "(i, a) \<in> set (sy_done (wr_sys w) @ cl_completed (sy_client (wr_sys w)))"
  shows "\<exists>pre r post. fresh {} (sy_handled (wr_sys w)) = pre @ r # post
    \<and> r \<in> set (sy_issued (wr_sys w)) \<and> rq_id r = i \<and> a = respond h (fold (exec h) pre st0) r
    \<and> sv_state (sy_server (wr_sys w)) = fold (exec h) (pre @ r # post) st0
    \<and> distinct (map rq_id (pre @ r # post))"
proof -
  have "sys_reachable h cfg cfg' st0 (wr_sys w)"
    using wired.reachable_inv [OF assms(1)] by (simp add: wire_inv_def)
  then show ?thesis by (intro sys_inv_exactly_once [OF rpc.reachable_inv assms(2)])
qed

theorem exactly_once_over_channels_witness:
  "\<exists>w pre r post. wire_reachable echo default_config default_config CLEAN CLEAN 0 w
     \<and> fresh {} (sy_handled (wr_sys w)) = pre @ r # post \<and> rq_id r = 0
     \<and> sv_state (sy_server (wr_sys w)) = fold (exec echo) (pre @ r # post) 0"
proof -
  obtain w where w: "wire_reachable echo default_config default_config CLEAN CLEAN 0 w"
    "sy_done (wr_sys w) = [(0, \<lparr>rs_id = 0, rs_ok = True, rs_payload = [9, 4]\<rparr>)]"
    using wire_demo_reachable by (elim exE conjE)
  then have "(0, \<lparr>rs_id = 0, rs_ok = True, rs_payload = [9, 4]\<rparr>)
      \<in> set (sy_done (wr_sys w) @ cl_completed (sy_client (wr_sys w)))" by simp
  from exactly_once_over_channels [OF w(1) this] obtain pre r post
    where "fresh {} (sy_handled (wr_sys w)) = pre @ r # post" "rq_id r = 0"
      "sv_state (sy_server (wr_sys w)) = fold (exec echo) (pre @ r # post) 0" by (elim exE conjE)
  with w(1) show ?thesis by (intro exI conjI)
qed

end
