(* ===== verification/Rpc_Total.thy ===== *)
theory Rpc_Total
  imports Wire
begin

text \<open>
  The operations of the RPC client and server return: over a joined pair of endpoints, as long as the
  streams stay below the 32-bit sequence space, no operation of either side panics, and what it emits
  is accepted by the channels. Each lemma hands over the move of the system the operation makes.
\<close>

section \<open>One operation\<close>

lemma emitted_after [simp]: "emitted e (ep_after e c out fs bs) = out" "emitted e e = []"
  by (simp_all add: emitted_def ep_after_def)

lemma conn_send_total:
  assumes "ep_inv e peer" and "ep_inv peer e" and "length (ep_sent e @ d) < 2 ^ 32"
  shows "\<exists>c out. conn_send (ep_conn e) now d = Some (c, out)"
  using ep_run_sends_ok [OF assms(1,2), of "[d]" now] assms(3)
  by (auto simp: sends_def ep_emit_def split: option.splits)

lemma on_datagram_total:
  assumes "ep_inv e peer" and "ep_inv peer e" and "enabled e peer (Datagram now d)"
  shows "\<exists>c out. on_datagram (ep_conn e) now d = Some (c, out)"
  using ep_run_ok [OF assms(1,2), of "[Datagram now d]"] assms(3)
  by (auto simp: ep_emit_def split: option.splits)

lemma on_tick_total:
  assumes "ep_inv e peer" and "ep_inv peer e"
  shows "\<exists>c out. on_tick (ep_conn e) now = Some (c, out)"
  using ep_run_ok [OF assms, of "[OnTick now]"]
  by (auto simp: ep_emit_def split: option.splits)

section \<open>The client\<close>

lemma sys_core_conns:
  assumes "sys_core s"
  shows "ep_conn (cl_end s) = cl_conn (sy_client s)" "ep_conn (sv_end s) = sv_conn (sy_server s)"
  using assms by (simp_all add: sys_core_def client_side_def server_side_def Let_def)

lemma call_returns:
  assumes "sys_core s" and "length (ep_sent (cl_end s)) + 13 + length p < 2 ^ 32"
  obtains i out s' where "client_call (sy_client s) now m p = Some (i, sy_client s', out)"
    "sys_move h Internal s s'" "emitted (cl_end s) (cl_end s') = out"
    "sv_end s' = sv_end s" "sy_server s' = sy_server s" "sy_done s' = sy_done s" "sy_lost s' = sy_lost s"
    "sy_issued s' = sy_issued s @ [\<lparr>rq_id = i, rq_method = m, rq_payload = p\<rparr>]"
    "ep_sent (cl_end s') = concat (map request_frame (sy_issued s'))"
proof -
  let ?r = "\<lparr>rq_id = cl_next_id (sy_client s), rq_method = m, rq_payload = p\<rparr>"
  have len: "length (ep_sent (cl_end s) @ request_frame ?r) < 2 ^ 32"
    using assms(2) by (simp add: rpc_frame_def)
  obtain c out where "conn_send (cl_conn (sy_client s)) now (request_frame ?r) = Some (c, out)"
    using conn_send_total [OF sys_core_ends [OF assms(1)] len, of now] sys_core_conns [OF assms(1)] by auto
  then obtain c' where c': "client_call (sy_client s) now m p = Some (cl_next_id (sy_client s), c', out)"
    by (simp add: client_call_def Let_def)
  let ?e = "ep_after (cl_end s) (cl_conn c') out [request_frame ?r] []"
  have "sys_move h Internal s (s\<lparr>sy_client := c', sy_link := (sy_link s)\<lparr>client := ?e\<rparr>,
      sy_issued := sy_issued s @ [?r]\<rparr>)"
    by (rule sys_move.call [OF c' refl refl]) (use len in \<open>simp add: small_def\<close>)
  then show thesis
    by (rule that [rotated]) (use c' assms(1) in \<open>simp_all add: sys_core_def client_side_def Let_def\<close>)
qed

lemma client_datagram_returns:
  assumes "sys_core s" and "may_arrive s (ToClient now d)"
  obtains out s' where "client_on_datagram (sy_client s) now d = Some (sy_client s', out)"
    "sys_move h (ToClient now d) s s'" "emitted (cl_end s) (cl_end s') = out"
    "sv_end s' = sv_end s" "sy_server s' = sy_server s" "sy_done s' = sy_done s" "sy_lost s' = sy_lost s"
    "sy_issued s' = sy_issued s" "ep_sent (cl_end s') = ep_sent (cl_end s)"
proof -
  obtain c out where "on_datagram (cl_conn (sy_client s)) now d = Some (c, out)"
    using on_datagram_total [OF sys_core_ends [OF assms(1)], of now d] assms(2) sys_core_conns [OF assms(1)] by auto
  then obtain c' where c': "client_on_datagram (sy_client s) now d = Some (c', out)"
    by (simp add: client_on_datagram_def case_prod_beta)
  show thesis
    by (rule that [OF _ sys_move.client_datagram [OF c' refl]]) (use c' in simp_all)
qed

lemma retry_loop_total:
  assumes "ep_inv e peer" and "ep_inv peer e" and "ep_conn e = cl_conn c"
    and "length (ep_sent e @ concat (map request_frame (fst (retry_plan now ids c [])))) < 2 ^ 32"
  shows "\<exists>c' out. client_on_tick ids c now = Some (c', out)"
proof -
  obtain cn out where t: "on_tick (cl_conn c) now = Some (cn, out)"
    using on_tick_total [OF assms(1,2), of now] assms(3) by auto
  let ?e = "e\<lparr>ep_conn := cn, ep_wire := ep_wire e @ out\<rparr>"
  obtain rs c1 tf where plan: "retry_plan now ids c [] = (rs, c1, tf)" by (metis prod.collapse)
  have "ep_run e [OnTick now] = Some ?e" using t assms(3) by (simp add: ep_emit_def)
  then have inv: "ep_inv ?e peer" "ep_inv peer ?e"
    using ep_run_ok [OF assms(1,2), of "[OnTick now]"] by auto
  then obtain e1 where "ep_run ?e (sends now (map request_frame rs)) = Some e1"
    using ep_run_sends_ok [OF inv, of "map request_frame rs" now] assms(4) plan by auto
  then have "ep_run (?e\<lparr>ep_wire := out\<rparr>) (sends now (map request_frame rs)) \<noteq> None"
    using ep_run_sends_shift [where e = "?e\<lparr>ep_wire := out\<rparr>" and w = "ep_wire e"] by auto
  then show ?thesis
    using retry_loop_run [of "?e\<lparr>ep_wire := out\<rparr>" "c\<lparr>cl_conn := cn\<rparr>" now ids "[]"] plan t
    by (auto simp: client_on_tick_def retry_plan_frame)
qed

lemma client_tick_returns:
  assumes "sys_core s" and "visits ids (sy_client s)" and "rs = fst (retry_plan now ids (sy_client s) [])"
    and "length (ep_sent (cl_end s) @ concat (map request_frame rs)) < 2 ^ 32"
  obtains out s' where "client_on_tick ids (sy_client s) now = Some (sy_client s', out)"
    "sys_move h Internal s s'" "emitted (cl_end s) (cl_end s') = out"
    "sv_end s' = sv_end s" "sy_server s' = sy_server s" "sy_done s' = sy_done s" "sy_lost s' = sy_lost s"
    "sy_issued s' = sy_issued s @ rs" "ep_sent (cl_end s') = ep_sent (cl_end s) @ concat (map request_frame rs)"
proof -
  obtain c' out where c': "client_on_tick ids (sy_client s) now = Some (c', out)"
    using retry_loop_total [OF sys_core_ends [OF assms(1)] sys_core_conns(1) [OF assms(1)], of now ids] assms(3,4) by auto
  show thesis
    by (rule that [OF _ sys_move.client_tick [OF assms(2) c' assms(3) refl]])
      (use c' assms(4) in \<open>simp_all add: small_def\<close>)
qed

section \<open>The server\<close>

abbreviation read_requests :: "'st rpc_sys \<Rightarrow> tick \<Rightarrow> bytes \<Rightarrow> request list" where
  "read_requests s now d \<equiv> List.map_filter request_decode
     (new_frames (sv_reader (sy_server s)) (sv_conn (sy_server s)) now d)"

lemma requests_read_prefix:
  assumes "sys_core s" and "may_arrive s (ToServer now d)"
  shows "prefix (sy_handled s @ read_requests s now d) (sy_issued s)"
proof -
  let ?e = "sv_end s" and ?v = "sy_server s"
  let ?bs = "released (sv_conn ?v) now d"
  note C = assms(1) [unfolded sys_core_def client_side_def server_side_def Let_def]
  note E = sys_core_ends [OF assms(1)]
  obtain c out where g: "on_datagram (ep_conn ?e) now d = Some (c, out)"
    using on_datagram_total [OF E(2,1), of now d] assms(2) by auto
  have "ep_run ?e [Datagram now d, Recv] = Some (ep_after ?e (fst (conn_recv c)) out [] ?bs)" (is "_ = Some ?e'")
    using datagram_recv_run [OF g] C by simp
  then have "ep_inv ?e' (cl_end s)" "ep_inv (cl_end s) ?e'"
    using ep_run_ok [OF E(2,1), of "[Datagram now d, Recv]"] assms(2) by auto
  from append_prefixD [OF ep_inv_received [OF this]]
  have pre: "prefix (ep_recvd ?e @ ?bs) (ep_sent (cl_end s))" by simp
  have "length (concat (map request_frame (sy_issued s))) < 2 ^ 32"
    using E(1) C by (simp add: ep_inv_def conn_inv_def send_ok_def)
  then have "list_all request_fits (sy_issued s)"
    using element_fits [of request_encode "sy_issued s"] by (auto simp: list_all_iff request_fits_def)
  then have "prefix (List.map_filter request_decode (fst (drain_loop (ep_recvd ?e @ ?bs)))) (sy_issued s)"
    using requests.read_prefix [of "ep_recvd ?e @ ?bs" "sy_issued s"] pre C by simp
  moreover have "fst (drain_loop (ep_recvd ?e @ ?bs)) =
      fst (drain_loop (ep_recvd ?e)) @ new_frames (sv_reader ?v) (sv_conn ?v) now d"
    using reader_step [of "sv_reader ?v" "ep_recvd ?e" ?bs] C by (simp add: new_frames_def)
  ultimately show ?thesis using C by (simp add: map_filter_append)
qed

lemma serve_total:
  assumes "ep_inv e peer" and "ep_inv peer e" and "ep_conn e = sv_conn s"
    and "enabled e peer (Datagram now d)"
    and "answers h s (List.map_filter request_decode (new_frames (sv_reader s) (sv_conn s) now d)) = (as, s1)"
    and "length (ep_sent e @ concat (map response_frame as)) < 2 ^ 32"
  shows "\<exists>v out. server_on_datagram h s now d = Some (v, out)"
proof -
  let ?bs = "released (sv_conn s) now d"
  obtain c out where g: "on_datagram (ep_conn e) now d = Some (c, out)"
    using on_datagram_total [OF assms(1,2,4)] by auto
  let ?e = "ep_after e (fst (conn_recv c)) out [] ?bs"
  let ?s = "s\<lparr>sv_conn := fst (conn_recv c), sv_reader := snd (drain_frames (feed (sv_reader s) ?bs))\<rparr>"
  have "ep_run e [Datagram now d, Recv] = Some ?e" using datagram_recv_run [OF g] assms(3) by simp
  then have inv: "ep_inv ?e peer" "ep_inv peer ?e"
    using ep_run_ok [OF assms(1,2), of "[Datagram now d, Recv]"] assms(4) by auto
  then have "ep_run ?e (sends now (map response_frame as)) \<noteq> None"
    using ep_run_sends_ok [OF inv, of "map response_frame as" now] assms(6) by auto
  moreover have "?e\<lparr>ep_wire := ep_wire e @ out\<rparr> = ?e" by (simp add: ep_after_def)
  ultimately have "ep_run (?e\<lparr>ep_wire := out\<rparr>) (sends now (map response_frame as)) \<noteq> None"
    using ep_run_sends_shift [where e = "?e\<lparr>ep_wire := out\<rparr>" and w = "ep_wire e"] by auto
  then have "serve_frames h now (new_frames (sv_reader s) (sv_conn s) now d) ?s out \<noteq> None"
    using serve_frames_run [of "?e\<lparr>ep_wire := out\<rparr>" ?s h now "new_frames (sv_reader s) (sv_conn s) now d"] assms(5)
    by (auto simp: answers_frame answers_reader_frame)
  then show ?thesis
    using g assms(3) by (auto simp: server_on_datagram_def conn_recv_def new_frames_def released_def case_prod_beta)
qed

lemma server_datagram_returns:
  assumes "sys_core s" and "may_arrive s (ToServer now d)"
    and "answers h (sy_server s) (read_requests s now d) = (as, v)"
    and "length (ep_sent (sv_end s) @ concat (map response_frame as)) < 2 ^ 32"
  obtains out s' where "server_on_datagram h (sy_server s) now d = Some (sy_server s', out)"
    "sys_move h (ToServer now d) s s'" "emitted (sv_end s) (sv_end s') = out"
    "cl_end s' = cl_end s" "sy_client s' = sy_client s" "sy_done s' = sy_done s" "sy_lost s' = sy_lost s"
    "sy_issued s' = sy_issued s" "ep_sent (sv_end s') = ep_sent (sv_end s) @ concat (map response_frame as)"
    "sv_seen (sy_server s') = sv_seen v" "sv_state (sy_server s') = sv_state v"
proof -
  note E = sys_core_ends [OF assms(1)] and conn = sys_core_conns(2) [OF assms(1)]
  obtain v' out where v': "server_on_datagram h (sy_server s) now d = Some (v', out)"
    using serve_total [OF E(2,1) conn _ assms(3,4)] assms(2) by auto
  have as: "as = fst (answers h (sy_server s) (read_requests s now d))" using assms(3) by simp
  note run = server_datagram_run(2) [OF v' conn refl assms(3)]
  have "sv_seen v' = sv_seen v" "sv_state v' = sv_state v"
    using arg_cong [OF run, of sv_seen] arg_cong [OF run, of sv_state] by simp_all
  then show thesis
    by (intro that [OF _ sys_move.server_datagram [OF v' refl as refl]])
      (use v' assms(4) in \<open>simp_all add: small_def\<close>)
qed

lemma server_tick_returns:
  assumes "sys_core s"
  obtains out s' where "server_on_tick (sy_server s) now = Some (sy_server s', out)"
    "sys_move h Internal s s'" "emitted (sv_end s) (sv_end s') = out"
    "cl_end s' = cl_end s" "sy_client s' = sy_client s" "sy_done s' = sy_done s" "sy_lost s' = sy_lost s"
    "sy_issued s' = sy_issued s" "ep_sent (sv_end s') = ep_sent (sv_end s)"
    "sv_seen (sy_server s') = sv_seen (sy_server s)"
proof -
  obtain c out where "on_tick (sv_conn (sy_server s)) now = Some (c, out)"
    using on_tick_total [OF sys_core_ends(2) [OF assms] sys_core_ends(1) [OF assms], of now] sys_core_conns [OF assms]
    by auto
  then have t: "server_on_tick (sy_server s) now = Some (sy_server s\<lparr>sv_conn := c\<rparr>, out)"
    by (simp add: server_on_tick_def)
  show thesis by (rule that [OF _ sys_move.server_tick [OF t refl]]) (use t in simp_all)
qed

section \<open>With the channels\<close>

lemma joined_client_act:
  assumes "joined w" and "consume ev w = Some w1" and "sys_move h ev (wr_sys w) s"
    and "room (cl_end s)" and "sv_end s = sv_end (wr_sys w)"
  obtains up where "send_all (emitted (cl_end (wr_sys w)) (cl_end s)) (wr_up w) = Some up"
    "joined (w1\<lparr>wr_sys := s, wr_up := up\<rparr>)"
proof -
  have "room (sv_end s)" using assms(1,5) by (simp add: joined_def flows_def)
  moreover have "wr_down w1 = wr_down w" using assms(2) by (cases ev) (auto split: list.splits if_splits)
  moreover have "w1\<lparr>wr_sys := s, wr_up := up, wr_down := wr_down w1\<rparr> = w1\<lparr>wr_sys := s, wr_up := up\<rparr>" for up
    by simp
  ultimately show thesis using joined_act [OF assms(1-4)] that assms(5) by (metis emitted_after(2) option.inject send_all.simps(1))
qed

lemma joined_server_act:
  assumes "joined w" and "consume ev w = Some w1" and "sys_move h ev (wr_sys w) s"
    and "room (sv_end s)" and "cl_end s = cl_end (wr_sys w)"
  obtains down where "send_all (emitted (sv_end (wr_sys w)) (sv_end s)) (wr_down w) = Some down"
    "joined (w1\<lparr>wr_sys := s, wr_down := down\<rparr>)"
proof -
  have "room (cl_end s)" using assms(1,5) by (simp add: joined_def flows_def)
  moreover have "wr_up w1 = wr_up w" using assms(2) by (cases ev) (auto split: list.splits if_splits)
  moreover have "w1\<lparr>wr_sys := s, wr_up := wr_up w1, wr_down := down\<rparr> = w1\<lparr>wr_sys := s, wr_down := down\<rparr>" for down
    by simp
  ultimately show thesis using joined_act [OF assms(1-3) _ assms(4)] that assms(5)
    by (metis emitted_after(2) option.inject send_all.simps(1))
qed

end
