(* ===== verification/Kv.thy ===== *)
theory Kv
  imports Prelude
begin

text \<open>
  The key-value service of \<^verbatim>\<open>crates/workload/src/kv.rs\<close>: the operations and their encoding, the
  store the server uses, and the independently written \<open>ReferenceStore\<close> that the chaos run replays
  the server's log against. The locale \<open>kv_store\<close> is the contract of a key-value store; both
  implementations meet it, so they answer every sequence of operations alike.
\<close>

section \<open>Operations and their encoding\<close>

definition METHOD_GET :: u8 where "METHOD_GET = 0"
definition METHOD_PUT :: u8 where "METHOD_PUT = 1"
definition METHOD_DELETE :: u8 where "METHOD_DELETE = 2"

lemmas method_defs = METHOD_GET_def METHOD_PUT_def METHOD_DELETE_def

datatype op =
    Get bytes
  | Put bytes bytes
  | Delete bytes

fun op_method :: "op \<Rightarrow> u8" where
  "op_method (Get _) = METHOD_GET"
| "op_method (Put _ _) = METHOD_PUT"
| "op_method (Delete _) = METHOD_DELETE"

fun encode_payload :: "op \<Rightarrow> bytes" where
  "encode_payload (Get key) = key"
| "encode_payload (Delete key) = key"
| "encode_payload (Put key val) = le16 (word_of_nat (length key)) @ key @ val"

definition op_decode :: "u8 \<Rightarrow> bytes \<Rightarrow> op option" where
  "op_decode method p =
    (if method = METHOD_GET then Some (Get p)
     else if method = METHOD_DELETE then Some (Delete p)
     else if method = METHOD_PUT
     then if length p < 2 then None
          else let key_len = unat (from_le (slice_of 0 2 p) :: u16) in
            if length p < 2 + key_len then None
            else Some (Put (slice_of 2 (2 + key_len) p) (drop (2 + key_len) p))
     else None)"

section \<open>The stores\<close>

type_synonym store = "bytes \<rightharpoonup> bytes"

fun kv_apply :: "store \<Rightarrow> op \<Rightarrow> store \<times> bool \<times> bytes" where
  "kv_apply s (Get key) = (case s key of Some v \<Rightarrow> (s, True, v) | None \<Rightarrow> (s, False, []))"
| "kv_apply s (Put key val) = (s(key \<mapsto> val), True, [])"
| "kv_apply s (Delete key) = (s(key := None), s key \<noteq> None, [])"

type_synonym reference_store = "(bytes \<times> bytes) list"

definition reference_new :: reference_store where "reference_new = []"

definition retain_other :: "bytes \<Rightarrow> reference_store \<Rightarrow> reference_store" where
  "retain_other key es = filter (\<lambda>(k, _). k \<noteq> key) es"

fun reference_apply :: "reference_store \<Rightarrow> op \<Rightarrow> reference_store \<times> bool \<times> bytes" where
  "reference_apply es (Get key) =
     (case List.find (\<lambda>(k, _). k = key) (rev es) of
        Some (_, v) \<Rightarrow> (es, True, v)
      | None \<Rightarrow> (es, False, []))"
| "reference_apply es (Put key val) = (retain_other key es @ [(key, val)], True, [])"
| "reference_apply es (Delete key) =
     (let es' = retain_other key es in (es', length es' \<noteq> length es, []))"

section \<open>Round trip of the encoding\<close>

lemma op_decode_encode:
  "op_decode (op_method op) (encode_payload op) = Some op \<longleftrightarrow>
     (\<forall>key val. op = Put key val \<longrightarrow> length key < 2 ^ 16)"
proof (cases op)
  case (Put key val)
  have len: "unat (word_of_nat (length key) :: u16) = length key mod 2 ^ 16" by (simp add: unat_of_nat)
  show ?thesis
  proof (cases "length key < 2 ^ 16")
    case True
    then show ?thesis
      using len by (simp add: Put op_decode_def method_defs slice_of_def Let_def)
  next
    case False
    then have "length key mod 2 ^ 16 < length key" by (metis mod_less_divisor not_le_imp_less
        order_less_le_trans zero_less_numeral zero_less_power)
    with False show ?thesis
      using len by (auto simp: Put op_decode_def method_defs slice_of_def Let_def min_def)
  qed
qed (auto simp: op_decode_def method_defs)

section \<open>The contract of a store\<close>

locale kv_store =
  fixes empty :: 's and step :: "'s \<Rightarrow> op \<Rightarrow> 's \<times> bool \<times> bytes"
    and lookup :: "'s \<Rightarrow> bytes \<Rightarrow> bytes option" and invar :: "'s \<Rightarrow> bool"
  assumes invar_empty: "invar empty"
    and lookup_empty: "lookup empty k = None"
    and invar_step: "invar s \<Longrightarrow> invar (fst (step s op))"
    and lookup_step: "invar s \<Longrightarrow> lookup (fst (step s op)) =
      (case op of Get _ \<Rightarrow> lookup s | Put k v \<Rightarrow> (lookup s)(k \<mapsto> v) | Delete k \<Rightarrow> (lookup s)(k := None))"
    and answer_step: "invar s \<Longrightarrow> snd (step s op) =
      (case op of Get k \<Rightarrow> (lookup s k \<noteq> None, case lookup s k of None \<Rightarrow> [] | Some v \<Rightarrow> v)
       | Put _ _ \<Rightarrow> (True, []) | Delete k \<Rightarrow> (lookup s k \<noteq> None, []))"
begin

lemma get_after_put: "invar s \<Longrightarrow> snd (step (fst (step s (Put k v))) (Get k)) = (True, v)"
  using invar_step lookup_step answer_step by simp

lemma get_after_delete: "invar s \<Longrightarrow> snd (step (fst (step s (Delete k))) (Get k)) = (False, [])"
  using invar_step lookup_step answer_step by simp

end

text \<open>Two implementations of the contract are indistinguishable.\<close>

locale kv_pair = a: kv_store empty_a step_a lookup_a invar_a + b: kv_store empty_b step_b lookup_b invar_b
  for empty_a :: 'a and step_a lookup_a invar_a
    and empty_b :: 'b and step_b lookup_b invar_b
begin

lemma same_answer:
  assumes "invar_a s" and "invar_b t" and "lookup_a s = lookup_b t"
  shows "snd (step_a s op) = snd (step_b t op)"
    and "lookup_a (fst (step_a s op)) = lookup_b (fst (step_b t op))"
  using assms a.lookup_step b.lookup_step a.answer_step b.answer_step by (auto split: op.split)

end

definition distinct_keys :: "reference_store \<Rightarrow> bool" where
  "distinct_keys es \<longleftrightarrow> distinct (map fst es)"

lemma map_of_retain_other: "map_of (retain_other key es) = (map_of es)(key := None)"
  by (induction es) (auto simp: retain_other_def)

lemma find_append: "List.find P (xs @ ys) = (case List.find P xs of None \<Rightarrow> List.find P ys | Some x \<Rightarrow> Some x)"
  by (induction xs) auto

lemma find_rev: "distinct_keys es \<Longrightarrow>
    List.find (\<lambda>(k, _). k = key) (rev es) = map_option (\<lambda>v. (key, v)) (map_of es key)"
  by (induction es)
    (auto simp: distinct_keys_def find_append map_of_eq_None_iff split: option.split dest: map_of_SomeD
      intro: rev_image_eqI)

lemma length_retain_other: "length (retain_other key es) \<noteq> length es \<longleftrightarrow> map_of es key \<noteq> None"
proof -
  have "length (retain_other key es) = length es \<longleftrightarrow> retain_other key es = es"
    by (metis filter_id_conv length_filter_less less_irrefl retain_other_def)
  also have "\<dots> \<longleftrightarrow> key \<notin> fst ` set es" by (force simp: retain_other_def filter_id_conv)
  also have "\<dots> \<longleftrightarrow> map_of es key = None" by (simp add: map_of_eq_None_iff)
  finally show ?thesis by simp
qed

lemma distinct_retain_other:
  "distinct_keys es \<Longrightarrow> distinct_keys (retain_other key es) \<and> key \<notin> fst ` set (retain_other key es)"
  by (auto simp: distinct_keys_def retain_other_def distinct_map_filter)

interpretation hash_store: kv_store "\<lambda>_. None" kv_apply "\<lambda>s. s" "\<lambda>_. True"
  by unfold_locales (auto split: op.split option.split)

interpretation ref_store: kv_store reference_new reference_apply map_of distinct_keys
proof unfold_locales
  fix s op assume s: "distinct_keys s"
  show "distinct_keys (fst (reference_apply s op))"
    using s distinct_retain_other [OF s]
    by (cases op) (auto simp: Let_def distinct_keys_def split: option.split)
  show "map_of (fst (reference_apply s op)) = (case op of Get _ \<Rightarrow> map_of s
      | Put k v \<Rightarrow> (map_of s)(k \<mapsto> v) | Delete k \<Rightarrow> (map_of s)(k := None))"
    using distinct_retain_other [OF s]
    by (cases op) (auto simp: Let_def map_of_retain_other fun_eq_iff map_add_def split: option.split)
  show "snd (reference_apply s op) =
      (case op of Get k \<Rightarrow> (map_of s k \<noteq> None, case map_of s k of None \<Rightarrow> [] | Some v \<Rightarrow> v)
       | Put _ _ \<Rightarrow> (True, []) | Delete k \<Rightarrow> (map_of s k \<noteq> None, []))"
    using find_rev [OF s] length_retain_other
    by (cases op) (auto simp: Let_def split: option.split)
qed (simp_all add: reference_new_def distinct_keys_def)

interpretation stores: kv_pair "\<lambda>_. None" kv_apply "\<lambda>s. s" "\<lambda>_. True"
  reference_new reference_apply map_of distinct_keys ..

text \<open>A store and its reference agree when they hold the same entries.\<close>

definition agree :: "store \<Rightarrow> reference_store \<Rightarrow> bool" where
  "agree s es \<longleftrightarrow> distinct_keys es \<and> s = map_of es"

lemma agree_new: "agree (\<lambda>_. None) reference_new"
  using ref_store.invar_empty ref_store.lookup_empty by (simp add: agree_def fun_eq_iff)

lemma agree_apply:
  assumes "agree s es"
  shows "agree (fst (kv_apply s op)) (fst (reference_apply es op))"
    and "snd (kv_apply s op) = snd (reference_apply es op)"
  using assms stores.same_answer [of es s op] ref_store.invar_step [of es op]
  by (auto simp: agree_def)

section \<open>Properties\<close>

fun run_ops :: "('s \<Rightarrow> op \<Rightarrow> 's \<times> bool \<times> bytes) \<Rightarrow> 's \<Rightarrow> op list \<Rightarrow> 's \<times> (bool \<times> bytes) list" where
  "run_ops f s [] = (s, [])"
| "run_ops f s (op # ops) =
    (case f s op of (s', a) \<Rightarrow> case run_ops f s' ops of (s'', as) \<Rightarrow> (s'', a # as))"

lemma agree_run:
  "agree s es \<Longrightarrow> agree (fst (run_ops kv_apply s ops)) (fst (run_ops reference_apply es ops))
     \<and> snd (run_ops kv_apply s ops) = snd (run_ops reference_apply es ops)"
proof (induction ops arbitrary: s es)
  case (Cons op ops)
  then show ?case
    using agree_apply [OF Cons.prems, of op] Cons.IH [of "fst (kv_apply s op)" "fst (reference_apply es op)"]
    by (simp add: case_prod_beta)
qed simp

text \<open>C27. The server's store and the independently written reference store give the same answers to every
  sequence of operations, and end up holding the same entries.\<close>

theorem kv_refines_reference:
  "snd (run_ops kv_apply (\<lambda>_. None) ops) = snd (run_ops reference_apply reference_new ops)
   \<and> fst (run_ops kv_apply (\<lambda>_. None) ops) = map_of (fst (run_ops reference_apply reference_new ops))"
  using agree_run [OF agree_new, of ops] by (simp add: agree_def)

text \<open>C30. An operation survives its encoding exactly when its key fits the 16-bit length field of a put;
  a longer key would be decoded as a different operation.\<close>

theorem kv_op_roundtrip_iff:
  "op_decode (op_method op) (encode_payload op) = Some op \<longleftrightarrow>
     (case op of Put key val \<Rightarrow> length key < 2 ^ 16 | _ \<Rightarrow> True)"
  using op_decode_encode [of op] by (cases op) auto

end
