(* ===== verification/Workload.thy ===== *)
theory Workload
  imports Kv Rpc_Client Rpc_Server
begin

text \<open>
  The key-value service on the RPC layer: \<^verbatim>\<open>crates/workload/src/server.rs\<close> and
  \<^verbatim>\<open>crates/workload/src/client.rs\<close>. The handler closure of \<open>make_server\<close> captures the store, which
  all connections share, and the callback \<open>on_execute\<close>; both are the handler's state here, the
  callback's own captured state being of type \<open>'e\<close>.
\<close>

definition kv_handler :: "(op \<Rightarrow> bool \<Rightarrow> bytes \<Rightarrow> 'e \<Rightarrow> 'e) \<Rightarrow> (store \<times> 'e) handler" where
  "kv_handler on_execute st method p =
    (case op_decode method p of
       None \<Rightarrow> ((False, []), st)
     | Some op \<Rightarrow>
        (case kv_apply (fst st) op of (s, ok, response) \<Rightarrow>
           ((ok, response), (s, on_execute op ok response (snd st)))))"

definition make_server :: "conn \<Rightarrow> store \<times> 'e \<Rightarrow> (store \<times> 'e) rpc_server" where
  "make_server c st = server_new c st"

definition kv_call :: "rpc_client \<Rightarrow> tick \<Rightarrow> op \<Rightarrow> (u64 \<times> rpc_client \<times> bytes list) option" where
  "kv_call c now op = client_call c now (op_method op) (encode_payload op)"

section \<open>The shared cell\<close>

text \<open>The handler's state lives in a cell that several servers borrow in turn.\<close>

definition borrow :: "'st \<Rightarrow> 'st rpc_server \<Rightarrow> 'st rpc_server" where
  "borrow st s = s\<lparr>sv_state := st\<rparr>"

text \<open>What holds of the state and survives a run of the handler survives every datagram.\<close>

locale handler_invariant =
  fixes h :: "'st handler" and I :: "'st \<Rightarrow> bool"
  assumes handler_inv: "I st \<Longrightarrow> I (snd (h st method p))"
begin

lemma answer_inv: "I (sv_state s) \<Longrightarrow> answer h s r = (a, s') \<Longrightarrow> I (sv_state s')"
  using handler_inv [of "sv_state s" "rq_method r" "rq_payload r"]
  by (auto simp: answer_def Let_def split: option.splits prod.splits)

lemma serve_frames_inv: "I (sv_state s) \<Longrightarrow> serve_frames h now fs s out = Some (s', out') \<Longrightarrow> I (sv_state s')"
proof (induction fs arbitrary: s out)
  case (Cons f fs)
  show ?case
  proof (cases "request_decode f")
    case None
    then show ?thesis using Cons by simp
  next
    case (Some r)
    obtain a s1 where a: "answer h s r = (a, s1)" by fastforce
    then have I: "I (sv_state (s1\<lparr>sv_conn := c\<rparr>))" for c using answer_inv Cons.prems(1) by simp
    obtain c out1 where "serve_frames h now fs (s1\<lparr>sv_conn := c\<rparr>) out1 = Some (s', out')"
      using Cons.prems(2) Some a by (auto split: bind_splits)
    with I show ?thesis by (rule Cons.IH)
  qed
qed simp

lemma server_on_datagram_inv:
  "I (sv_state s) \<Longrightarrow> server_on_datagram h s now d = Some (s', out) \<Longrightarrow> I (sv_state s')"
  using serve_frames_inv [of "s\<lparr>sv_conn := c, sv_reader := rd\<rparr>" for c rd]
  by (auto simp: server_on_datagram_def split: bind_splits prod.splits)

lemma borrow_on_datagram_inv:
  "I st \<Longrightarrow> server_on_datagram h (borrow st s) now d = Some (s', out) \<Longrightarrow> I (sv_state s')"
  by (rule server_on_datagram_inv) (simp_all add: borrow_def)

end

section \<open>The execution log\<close>

type_synonym exec_log = "(op \<times> bool \<times> bytes) list"

definition log_execution :: "op \<Rightarrow> bool \<Rightarrow> bytes \<Rightarrow> exec_log \<Rightarrow> exec_log" where
  "log_execution op ok response lg = lg @ [(op, ok, response)]"

text \<open>The log tells the truth: replaying its operations from the empty store gives the answers it
  records and the store as it is now.\<close>

definition log_ok :: "store \<times> exec_log \<Rightarrow> bool" where
  "log_ok st \<longleftrightarrow> run_ops kv_apply (\<lambda>_. None) (map fst (snd st)) = (fst st, map snd (snd st))"

lemma run_ops_append:
  "run_ops f s (xs @ ys) = (case run_ops f s xs of (s1, as) \<Rightarrow> case run_ops f s1 ys of (s2, bs) \<Rightarrow> (s2, as @ bs))"
  by (induction xs arbitrary: s) (auto split: prod.splits)

interpretation exec_log: handler_invariant "kv_handler log_execution" log_ok
proof unfold_locales
  fix st :: "store \<times> exec_log" and m p
  assume "log_ok st"
  then show "log_ok (snd (kv_handler log_execution st m p))"
    by (auto simp: log_ok_def kv_handler_def log_execution_def run_ops_append split: option.splits prod.splits)
qed

lemma log_ok_empty: "log_ok (\<lambda>_. None, [])"
  by (simp add: log_ok_def)

end
