(* ===== verification/Chaos.thy ===== *)
theory Chaos
  imports Workload Channel_Props
begin

text \<open>
  The chaos runner, \<^verbatim>\<open>crates/workload/src/chaos.rs\<close>: several clients issue a random schedule of
  operations over hostile channels, then the log of what the servers executed is replayed against the
  reference store. \<open>RpcClient::on_tick\<close> iterates a \<open>HashMap\<close>, so the run takes the order in which the
  pending calls of a client are visited as an argument. None stands for a panic. The text of a
  failure message is a value of the datatype \<open>chaos_message\<close>.
\<close>

section \<open>Configuration and outcome\<close>

record chaos_config =
  cf_seed :: u64
  cf_clients :: nat
  cf_calls :: nat
  cf_max_ticks :: u64
  cf_initial_profile :: fault_profile
  cf_profile_switches :: "(u64 \<times> fault_profile) list"
  cf_key_space :: nat

definition chaos_config_default :: chaos_config where
  "chaos_config_default = \<lparr>cf_seed = 0, cf_clients = 3, cf_calls = 60, cf_max_ticks = 60000,
     cf_initial_profile = CLEAN, cf_profile_switches = [], cf_key_space = 6\<rparr>"

datatype chaos_message =
    DidNotDrain u64 nat nat
  | Diverged nat op bool bytes bool bytes

record chaos_failure =
  fa_seed :: u64
  fa_message :: chaos_message

record chaos_summary =
  su_seed :: u64
  su_executions :: nat
  su_calls_completed :: nat
  su_calls_failed :: nat
  su_ticks_used :: u64

definition chaos_transport_config :: config where
  "chaos_transport_config = \<lparr>segment_size = 128, recv_window_capacity = 8 * 128, min_rto = 2,
     max_rto = 400, max_retries = 40, fast_retransmit_dup_acks = 3\<rparr>"

definition make_link :: "u64 \<Rightarrow> fault_profile \<Rightarrow> (channel \<times> channel) option" where
  "make_link seed profile = do {
     c2s \<leftarrow> channel_new seed profile;
     s2c \<leftarrow> channel_new (seed XOR 0xABCDEF0123456789) profile;
     Some (c2s, s2c)
   }"

record client_link =
  kl_client :: rpc_client
  kl_c2s :: channel
  kl_s2c :: channel

type_synonym kv_cell = "store \<times> exec_log"
type_synonym kv_server = "kv_cell rpc_server"
type_synonym visit_order = "u64 \<Rightarrow> nat \<Rightarrow> rpc_client \<Rightarrow> u64 list"

section \<open>Setting up\<close>

text \<open>One client with its server; the client's SYN goes out once all of them exist.\<close>

definition setup_one :: "chaos_config \<Rightarrow> nat \<Rightarrow> (client_link \<times> kv_server \<times> bytes) option" where
  "setup_one cfg i =
    (case conn_connect chaos_transport_config (Tick 0) of (client_conn, syn) \<Rightarrow>
     let server_conn = conn_listen chaos_transport_config (Tick 0) in do {
       (c2s, s2c) \<leftarrow> make_link (cf_seed cfg + word_of_nat i * 1000) (cf_initial_profile cfg);
       Some (\<lparr>kl_client = client_new client_conn 25 60, kl_c2s = c2s, kl_s2c = s2c\<rparr>,
             make_server server_conn (\<lambda>_. None, []), syn)
     })"

fun setup_all :: "chaos_config \<Rightarrow> nat list \<Rightarrow> (client_link \<times> kv_server \<times> bytes) list option" where
  "setup_all cfg [] = Some []"
| "setup_all cfg (i # is) = do {
     x \<leftarrow> setup_one cfg i;
     xs \<leftarrow> setup_all cfg is;
     Some (x # xs)
   }"

fun send_syns :: "(client_link \<times> kv_server \<times> bytes) list \<Rightarrow> (client_link list \<times> kv_server list) option" where
  "send_syns [] = Some ([], [])"
| "send_syns ((l, v, syn) # xs) = do {
     c2s \<leftarrow> channel_send syn (kl_c2s l);
     (ls, vs) \<leftarrow> send_syns xs;
     Some (l\<lparr>kl_c2s := c2s\<rparr> # ls, v # vs)
   }"

section \<open>The schedule\<close>

text \<open>\<open>format!("k{}", n)\<close> as bytes: the letter k and the decimal digits.\<close>

fun decimal :: "nat \<Rightarrow> bytes" where
  "decimal n = (if n < 10 then [word_of_nat (48 + n)] else decimal (n div 10) @ [word_of_nat (48 + n mod 10)])"

declare decimal.simps [simp del]

definition key_name :: "nat \<Rightarrow> bytes" where
  "key_name n = 107 # decimal n"

fun random_bytes :: "nat \<Rightarrow> u64 \<Rightarrow> bytes \<times> u64" where
  "random_bytes 0 rng = ([], rng)"
| "random_bytes (Suc n) rng =
    (case next_u64 rng of (x, rng) \<Rightarrow> case random_bytes n rng of (bs, rng) \<Rightarrow> (ucast x # bs, rng))"

definition random_op :: "nat \<Rightarrow> u64 \<Rightarrow> (op \<times> u64) option" where
  "random_op key_space rng = do {
     (k, rng) \<leftarrow> below_usize key_space rng;
     (which, rng) \<leftarrow> below_usize 3 rng;
     if which = 0 then Some (Get (key_name k), rng)
     else if which = 1 then do {
       (len, rng) \<leftarrow> below_usize 8 rng;
       let (val, rng) = random_bytes (1 + len) rng;
       Some (Put (key_name k) val, rng)
     }
     else Some (Delete (key_name k), rng)
   }"

fun make_schedule :: "chaos_config \<Rightarrow> nat \<Rightarrow> u64 \<Rightarrow> u64 \<Rightarrow> (u64 \<times> nat \<times> op) list option" where
  "make_schedule cfg 0 t rng = Some []"
| "make_schedule cfg (Suc n) t rng = do {
     (gap, rng) \<leftarrow> below_usize 4 rng;
     let t = t + (1 + word_of_nat gap);
     (client_idx, rng) \<leftarrow> below_usize (cf_clients cfg) rng;
     (op, rng) \<leftarrow> random_op (cf_key_space cfg) rng;
     rest \<leftarrow> make_schedule cfg n t rng;
     Some ((t, client_idx, op) # rest)
   }"

section \<open>One tick\<close>

record chaos =
  co_links :: "client_link list"
  co_servers :: "kv_server list"
  co_cell :: kv_cell
  co_fired :: nat
  co_switched :: nat
  co_expected :: "u64 list"
  co_failed :: nat

fun relink :: "u64 \<Rightarrow> fault_profile \<Rightarrow> nat \<Rightarrow> client_link list \<Rightarrow> client_link list option" where
  "relink seed profile i [] = Some []"
| "relink seed profile i (l # ls) = do {
     (c2s, s2c) \<leftarrow> make_link (seed + word_of_nat i * 1000) profile;
     ls \<leftarrow> relink seed profile (Suc i) ls;
     Some (l\<lparr>kl_c2s := c2s, kl_s2c := s2c\<rparr> # ls)
   }"

function apply_switches :: "u64 \<Rightarrow> (u64 \<times> fault_profile) list \<Rightarrow> u64 \<Rightarrow> chaos \<Rightarrow> chaos option" where
  "apply_switches seed switches tick s =
    (if co_switched s < length switches \<and> fst (switches ! co_switched s) \<le> tick
     then case relink (seed + word_of_nat (co_switched s) * 7919) (snd (switches ! co_switched s)) 0 (co_links s) of
         None \<Rightarrow> None
       | Some ls \<Rightarrow> apply_switches seed switches tick (s\<lparr>co_links := ls, co_switched := co_switched s + 1\<rparr>)
     else Some s)"
  by pat_completeness auto
termination by (relation "measure (\<lambda>(seed, sw, t, s). length sw - co_switched s)") auto

declare apply_switches.simps [simp del]

definition fire_call :: "tick \<Rightarrow> nat \<Rightarrow> op \<Rightarrow> chaos \<Rightarrow> chaos option" where
  "fire_call now idx op s =
    (if idx < length (co_links s)
     then let l = co_links s ! idx in do {
       (id, client, out) \<leftarrow> kv_call (kl_client l) now op;
       c2s \<leftarrow> send_all out (kl_c2s l);
       Some (s\<lparr>co_links := (co_links s)[idx := l\<lparr>kl_client := client, kl_c2s := c2s\<rparr>],
               co_expected := co_expected s @ [id], co_fired := co_fired s + 1\<rparr>)
     }
     else None)"

function fire_calls :: "(u64 \<times> nat \<times> op) list \<Rightarrow> u64 \<Rightarrow> chaos \<Rightarrow> chaos option" where
  "fire_calls schedule tick s =
    (if co_fired s < length schedule \<and> fst (schedule ! co_fired s) \<le> tick
     then case fire_call (Tick tick) (fst (snd (schedule ! co_fired s))) (snd (snd (schedule ! co_fired s))) s of
         None \<Rightarrow> None
       | Some s' \<Rightarrow> fire_calls schedule tick s'
     else Some s)"
  by pat_completeness auto
termination
  by (relation "measure (\<lambda>(sc, t, s). length sc - co_fired s)")
    (auto simp: fire_call_def Let_def split: bind_splits if_splits)

declare fire_calls.simps [simp del]

text \<open>The datagrams that arrive at a server, and at a client.\<close>

fun serve_arrivals :: "tick \<Rightarrow> bytes list \<Rightarrow> kv_cell \<Rightarrow> kv_server \<Rightarrow> channel
    \<Rightarrow> (kv_cell \<times> kv_server \<times> channel) option" where
  "serve_arrivals now [] cell v s2c = Some (cell, v, s2c)"
| "serve_arrivals now (d # ds) cell v s2c = do {
     (v, out) \<leftarrow> server_on_datagram (kv_handler log_execution) (borrow cell v) now d;
     s2c \<leftarrow> send_all out s2c;
     serve_arrivals now ds (sv_state v) v s2c
   }"

fun client_arrivals :: "tick \<Rightarrow> bytes list \<Rightarrow> rpc_client \<Rightarrow> channel \<Rightarrow> (rpc_client \<times> channel) option" where
  "client_arrivals now [] c c2s = Some (c, c2s)"
| "client_arrivals now (d # ds) c c2s = do {
     (c, out) \<leftarrow> client_on_datagram c now d;
     c2s \<leftarrow> send_all out c2s;
     client_arrivals now ds c c2s
   }"

definition pump :: "visit_order \<Rightarrow> u64 \<Rightarrow> nat \<Rightarrow> kv_cell \<Rightarrow> client_link \<Rightarrow> kv_server
    \<Rightarrow> (kv_cell \<times> client_link \<times> kv_server) option" where
  "pump ord tick i cell l v = do {
     let now = Tick tick;
     (ds, c2s) \<leftarrow> channel_advance now (kl_c2s l);
     (cell, v, s2c) \<leftarrow> serve_arrivals now ds cell v (kl_s2c l);
     (ds, s2c) \<leftarrow> channel_advance now s2c;
     (c, c2s) \<leftarrow> client_arrivals now ds (kl_client l) c2s;
     (c, out) \<leftarrow> client_on_tick (ord tick i c) c now;
     c2s \<leftarrow> send_all out c2s;
     (v, out) \<leftarrow> server_on_tick v now;
     s2c \<leftarrow> send_all out s2c;
     Some (cell, \<lparr>kl_client = c, kl_c2s = c2s, kl_s2c = s2c\<rparr>, v)
   }"

fun pump_all :: "visit_order \<Rightarrow> u64 \<Rightarrow> nat \<Rightarrow> kv_cell \<Rightarrow> client_link list \<Rightarrow> kv_server list
    \<Rightarrow> (kv_cell \<times> client_link list \<times> kv_server list) option" where
  "pump_all ord tick i cell (l # ls) (v # vs) = do {
     (cell, l, v) \<leftarrow> pump ord tick i cell l v;
     (cell, ls, vs) \<leftarrow> pump_all ord tick (Suc i) cell ls vs;
     Some (cell, l # ls, v # vs)
   }"
| "pump_all ord tick i cell ls vs = Some (cell, ls, vs)"

definition poll_link :: "client_link \<Rightarrow> client_link \<times> nat" where
  "poll_link l =
    (let (_, c) = poll_completed (kl_client l); (fs, c) = poll_failed c
     in (l\<lparr>kl_client := c\<rparr>, length fs))"

definition poll_all :: "chaos \<Rightarrow> chaos" where
  "poll_all s = s\<lparr>co_links := map (fst \<circ> poll_link) (co_links s),
     co_failed := co_failed s + sum_list (map (snd \<circ> poll_link) (co_links s))\<rparr>"

definition chaos_tick :: "visit_order \<Rightarrow> u64 \<Rightarrow> (u64 \<times> fault_profile) list \<Rightarrow> (u64 \<times> nat \<times> op) list
    \<Rightarrow> u64 \<Rightarrow> chaos \<Rightarrow> chaos option" where
  "chaos_tick ord seed switches schedule tick s = do {
     s \<leftarrow> apply_switches seed switches tick s;
     s \<leftarrow> fire_calls schedule tick s;
     (cell, ls, vs) \<leftarrow> pump_all ord tick 0 (co_cell s) (co_links s) (co_servers s);
     Some (poll_all (s\<lparr>co_cell := cell, co_links := ls, co_servers := vs\<rparr>))
   }"

definition all_drained :: "(u64 \<times> nat \<times> op) list \<Rightarrow> chaos \<Rightarrow> bool" where
  "all_drained schedule s \<longleftrightarrow>
     co_fired s = length schedule \<and> (\<forall>l \<in> set (co_links s). pending_count (kl_client l) = 0)"

section \<open>The run\<close>

function chaos_loop :: "visit_order \<Rightarrow> chaos_config \<Rightarrow> (u64 \<times> fault_profile) list \<Rightarrow> (u64 \<times> nat \<times> op) list
    \<Rightarrow> u64 \<Rightarrow> chaos \<Rightarrow> (chaos_failure + u64 \<times> chaos) option" where
  "chaos_loop ord cfg switches schedule tick s =
    (case chaos_tick ord (cf_seed cfg) switches schedule (tick + 1) s of
       None \<Rightarrow> None
     | Some s \<Rightarrow>
        if all_drained schedule s then Some (Inr (tick + 1, s))
        else if cf_max_ticks cfg \<le> tick + 1
        then Some (Inl \<lparr>fa_seed = cf_seed cfg,
               fa_message = DidNotDrain (cf_max_ticks cfg) (co_fired s) (cf_calls cfg)\<rparr>)
        else chaos_loop ord cfg switches schedule (tick + 1) s)"
  by pat_completeness auto
termination
  by (relation "measure (\<lambda>(ord, cfg, sw, sc, t, s). unat (cf_max_ticks cfg - (t + 1)))")
    (auto simp: loop_measure)

declare chaos_loop.simps [simp del]

text \<open>The differential check.\<close>

fun replay :: "u64 \<Rightarrow> nat \<Rightarrow> exec_log \<Rightarrow> reference_store \<Rightarrow> chaos_failure + unit" where
  "replay seed i [] reference = Inr ()"
| "replay seed i ((op, ok, p) # lg) reference =
    (case reference_apply reference op of (reference, ref_ok, ref_p) \<Rightarrow>
       if ok \<noteq> ref_ok \<or> p \<noteq> ref_p
       then Inl \<lparr>fa_seed = seed, fa_message = Diverged i op ok p ref_ok ref_p\<rparr>
       else replay seed (Suc i) lg reference)"

definition chaos_verdict :: "chaos_config \<Rightarrow> u64 \<Rightarrow> chaos \<Rightarrow> chaos_failure + chaos_summary" where
  "chaos_verdict cfg tick s =
    (case replay (cf_seed cfg) 0 (snd (co_cell s)) reference_new of
       Inl f \<Rightarrow> Inl f
     | Inr _ \<Rightarrow> Inr \<lparr>su_seed = cf_seed cfg, su_executions = length (snd (co_cell s)),
         su_calls_completed = length (co_expected s) - co_failed s, su_calls_failed = co_failed s,
         su_ticks_used = tick\<rparr>)"

definition chaos_start :: "chaos_config \<Rightarrow> chaos option" where
  "chaos_start cfg = do {
     xs \<leftarrow> setup_all cfg [0..<cf_clients cfg];
     (ls, vs) \<leftarrow> send_syns xs;
     Some \<lparr>co_links = ls, co_servers = vs, co_cell = (\<lambda>_. None, []), co_fired = 0, co_switched = 0,
       co_expected = [], co_failed = 0\<rparr>
   }"

definition run_chaos :: "visit_order \<Rightarrow> chaos_config \<Rightarrow> (chaos_failure + chaos_summary) option" where
  "run_chaos ord cfg = do {
     s \<leftarrow> chaos_start cfg;
     schedule \<leftarrow> make_schedule cfg (cf_calls cfg) 1 (cf_seed cfg);
     let switches = sort_key fst (cf_profile_switches cfg);
     r \<leftarrow> chaos_loop ord cfg switches schedule 0 s;
     Some (case r of Inl f \<Rightarrow> Inl f | Inr (tick, s) \<Rightarrow> chaos_verdict cfg tick s)
   }"

end
