(* ===== verification/Chaos_Props.thy ===== *)
theory Chaos_Props
  imports Chaos Rpc_Correct
begin

text \<open>
  What a chaos run establishes: the differential check cannot fail whatever the channels do, since the
  log is written by the store it is compared with and the two stores are equivalent; and the
  bookkeeping of a client conserves its calls.
\<close>

section \<open>The log stays truthful\<close>

lemma serve_arrivals_log:
  "log_ok cell \<Longrightarrow> serve_arrivals now ds cell v s2c = Some (cell', v', s2c') \<Longrightarrow> log_ok cell'"
proof (induction ds arbitrary: cell v s2c)
  case (Cons d ds)
  obtain v1 out s1 where v: "server_on_datagram (kv_handler log_execution) (borrow cell v) now d = Some (v1, out)"
    and rest: "serve_arrivals now ds (sv_state v1) v1 s1 = Some (cell', v', s2c')"
    using Cons.prems(2) by (auto split: bind_splits)
  have "log_ok (sv_state v1)" using Cons.prems(1) v by (rule exec_log.borrow_on_datagram_inv)
  then show ?case using rest by (rule Cons.IH)
qed simp

lemma pumpE:
  assumes "pump ord tick i cell l v = Some (cell', l', v')"
  obtains ds c2s v1 s1 ds' s2 c1 c2s1 out where
    "channel_advance (Tick tick) (kl_c2s l) = Some (ds, c2s)"
    "serve_arrivals (Tick tick) ds cell v (kl_s2c l) = Some (cell', v1, s1)"
    "channel_advance (Tick tick) s1 = Some (ds', s2)"
    "client_arrivals (Tick tick) ds' (kl_client l) c2s = Some (c1, c2s1)"
    "client_on_tick (ord tick i c1) c1 (Tick tick) = Some (kl_client l', out)"
    "send_all out c2s1 = Some (kl_c2s l')"
  using assms by (auto simp: pump_def Let_def split: bind_splits)

lemma pump_allE:
  assumes "pump_all ord tick i cell (l # ls) (v # vs) = Some (cell', ls', vs')"
  obtains cell1 l1 v1 ls1 vs1 where "pump ord tick i cell l v = Some (cell1, l1, v1)"
    "pump_all ord tick (Suc i) cell1 ls vs = Some (cell', ls1, vs1)" "ls' = l1 # ls1" "vs' = v1 # vs1"
  using assms by (auto split: bind_splits)

lemma pump_log: "log_ok cell \<Longrightarrow> pump ord tick i cell l v = Some (cell', l', v') \<Longrightarrow> log_ok cell'"
  by (erule pumpE) (rule serve_arrivals_log)

lemma pump_all_log:
  "log_ok cell \<Longrightarrow> pump_all ord tick i cell ls vs = Some (cell', ls', vs') \<Longrightarrow> log_ok cell'"
proof (induction ls arbitrary: i cell vs ls' vs')
  case (Cons l ls)
  show ?case
  proof (cases vs)
    case (Cons v vs1)
    with Cons.prems(2) obtain cell1 l1 v1 ls2 vs2 where p: "pump ord tick i cell l v = Some (cell1, l1, v1)"
      "pump_all ord tick (Suc i) cell1 ls vs1 = Some (cell', ls2, vs2)" using pump_allE by metis
    then show ?thesis using Cons.IH pump_log [OF Cons.prems(1) p(1)] by blast
  qed (use Cons.prems in simp)
qed simp

lemma apply_switches_frame:
  "apply_switches seed sw tick s = Some s' \<Longrightarrow> co_cell s' = co_cell s \<and> co_servers s' = co_servers s
     \<and> co_fired s' = co_fired s \<and> co_expected s' = co_expected s \<and> co_failed s' = co_failed s
     \<and> map kl_client (co_links s') = map kl_client (co_links s)"
proof (induction seed sw tick s rule: apply_switches.induct)
  case (1 seed sw tick s)
  have rl: "relink x p i ls = Some ls' \<Longrightarrow> map kl_client ls' = map kl_client ls" for x p i ls ls'
    by (induction x p i ls arbitrary: ls' rule: relink.induct) (auto split: bind_splits)
  from 1 show ?case
    by (auto simp: apply_switches.simps [of seed sw tick s] rl split: if_splits option.splits)
qed

lemma fire_calls_cell: "fire_calls sc tick s = Some s' \<Longrightarrow> co_cell s' = co_cell s"
proof (induction sc tick s rule: fire_calls.induct)
  case (1 sc tick s)
  have "fire_call now i op s = Some s1 \<Longrightarrow> co_cell s1 = co_cell s" for now i op s1
    by (auto simp: fire_call_def Let_def split: if_splits bind_splits)
  with 1 show ?case by (auto simp: fire_calls.simps [of sc tick s] split: if_splits option.splits)
qed

lemma chaos_tick_log:
  assumes "log_ok (co_cell s)" and "chaos_tick ord seed sw sc tick s = Some s'"
  shows "log_ok (co_cell s')"
proof -
  obtain s1 s2 cell ls vs where "apply_switches seed sw tick s = Some s1" "fire_calls sc tick s1 = Some s2"
    "pump_all ord tick 0 (co_cell s2) (co_links s2) (co_servers s2) = Some (cell, ls, vs)"
    "s' = poll_all (s2\<lparr>co_cell := cell, co_links := ls, co_servers := vs\<rparr>)"
    using assms(2) by (auto simp: chaos_tick_def split: bind_splits)
  then show ?thesis
    using assms(1) apply_switches_frame fire_calls_cell pump_all_log [of "co_cell s2"] by (simp add: poll_all_def)
qed

lemma chaos_loop_log:
  "log_ok (co_cell s) \<Longrightarrow> chaos_loop ord cfg sw sc tick s = Some r \<Longrightarrow>
     (case r of Inl f \<Rightarrow> \<exists>n. f = \<lparr>fa_seed = cf_seed cfg, fa_message = DidNotDrain (cf_max_ticks cfg) n (cf_calls cfg)\<rparr>
      | Inr (t, s') \<Rightarrow> log_ok (co_cell s'))"
proof (induction ord cfg sw sc tick s rule: chaos_loop.induct)
  case (1 ord cfg sw sc tick s)
  show ?case
  proof (cases "chaos_tick ord (cf_seed cfg) sw sc (tick + 1) s")
    case None
    then show ?thesis using "1.prems"(2) by (simp add: chaos_loop.simps [of ord cfg sw sc tick s])
  next
    case (Some s1)
    have ok: "log_ok (co_cell s1)" using "1.prems"(1) Some by (rule chaos_tick_log)
    show ?thesis
    proof (cases "all_drained sc s1 \<or> cf_max_ticks cfg \<le> tick + 1")
      case True
      then show ?thesis
        using "1.prems"(2) Some ok by (auto simp: chaos_loop.simps [of ord cfg sw sc tick s] split: if_splits)
    next
      case False
      then have "chaos_loop ord cfg sw sc (tick + 1) s1 = Some r"
        using "1.prems"(2) Some by (simp add: chaos_loop.simps [of ord cfg sw sc tick s])
      then show ?thesis using "1.IH" [OF Some] False ok by blast
    qed
  qed
qed

lemma replay_ok:
  "agree s es \<Longrightarrow> run_ops kv_apply s (map fst lg) = (s', map snd lg) \<Longrightarrow> replay seed i lg es = Inr ()"
proof (induction lg arbitrary: s es i)
  case (Cons e lg)
  obtain op ok p where e: "e = (op, ok, p)" by (cases e)
  obtain s1 a es1 a' where k: "kv_apply s op = (s1, a)" and r: "reference_apply es op = (es1, a')"
    by (metis surj_pair)
  have a: "agree s1 es1" "a = a'" using agree_apply [OF Cons.prems(1), of op] k r by simp_all
  have "a = (ok, p)" "run_ops kv_apply s1 (map fst lg) = (s', map snd lg)"
    using Cons.prems(2) e k by (auto split: prod.splits)
  then show ?case using Cons.IH [OF a(1)] a(2) e r by auto
qed simp

section \<open>Accounting\<close>

text \<open>The calls a client has issued, and those it still has to report.\<close>

definition issued :: "rpc_client \<Rightarrow> nat" where
  "issued c = unat (cl_next_id c)"

definition live :: "rpc_client \<Rightarrow> nat" where
  "live c = card (dom (cl_pending c)) + length (cl_completed c) + length (cl_failed c)"

definition booked :: "rpc_client \<Rightarrow> bool" where
  "booked c \<longleftrightarrow> (\<forall>i \<in> dom (cl_pending c). i < cl_next_id c)"

text \<open>An operation that neither issues nor reports calls.\<close>

definition keeps_books :: "rpc_client \<Rightarrow> rpc_client \<Rightarrow> bool" where
  "keeps_books c c' \<longleftrightarrow> booked c' \<and> issued c' = issued c \<and> live c' = live c"

lemma keeps_books_trans: "keeps_books a b \<Longrightarrow> keeps_books b c \<Longrightarrow> keeps_books a c"
  by (simp add: keeps_books_def)

lemma keeps_books_refl: "booked c \<Longrightarrow> keeps_books c c"
  by (simp add: keeps_books_def)

lemma booked_call:
  assumes "booked c" and "client_call c now m p = Some (i, c', out)" and "Suc (issued c) < 2 ^ 64"
  shows "booked c' \<and> issued c' = Suc (issued c) \<and> live c' = Suc (live c)"
proof -
  have n: "unat (cl_next_id c + 1) = Suc (unat (cl_next_id c))"
    using assms(3) by (simp add: issued_def unat_word_ariths)
  have c': "cl_next_id c' = cl_next_id c + 1" "dom (cl_pending c') = insert (cl_next_id c) (dom (cl_pending c))"
    "cl_completed c' = cl_completed c" "cl_failed c' = cl_failed c"
    using assms(2) by (auto simp: client_call_def Let_def)
  have "cl_next_id c \<notin> dom (cl_pending c)" using assms(1) by (auto simp: booked_def)
  then show ?thesis
    using assms(1) n c' by (auto simp: booked_def issued_def live_def word_less_nat_alt less_Suc_eq)
qed

lemma keeps_books_resolve:
  assumes "booked c" and "i \<in> dom (cl_pending c)"
  shows "keeps_books c (c\<lparr>cl_pending := (cl_pending c)(i := None), cl_completed := cl_completed c @ [x]\<rparr>)"
    and "keeps_books c (fail_call i c)"
proof -
  have "card (dom (cl_pending c)) = Suc (card (dom (cl_pending c) - {i}))"
    using assms(2) by (intro card_Suc_Diff1 [symmetric]) simp_all
  then show "keeps_books c (c\<lparr>cl_pending := (cl_pending c)(i := None), cl_completed := cl_completed c @ [x]\<rparr>)"
    "keeps_books c (fail_call i c)"
    using assms by (simp_all add: keeps_books_def booked_def issued_def live_def fail_call_def)
qed

lemma keeps_books_frame [simp]:
  "keeps_books c (d\<lparr>cl_conn := cn\<rparr>) = keeps_books c d" "keeps_books c (d\<lparr>cl_reader := rd\<rparr>) = keeps_books c d"
  by (simp_all add: keeps_books_def booked_def issued_def live_def)

lemma take_response_books: "booked c \<Longrightarrow> keeps_books c (take_response f c)"
  using keeps_books_resolve(1) [of c] keeps_books_refl [of c]
  by (auto simp: take_response_def split: option.split)

lemma fold_responses_books: "booked c \<Longrightarrow> keeps_books c (fold take_response fs c)"
proof (induction fs arbitrary: c)
  case (Cons f fs)
  have k: "keeps_books c (take_response f c)" using Cons.prems by (rule take_response_books)
  then have "keeps_books (take_response f c) (fold take_response fs (take_response f c))"
    by (intro Cons.IH) (simp add: keeps_books_def)
  with k show ?case using keeps_books_trans by simp
qed (simp add: keeps_books_refl)

lemma client_on_datagram_books:
  assumes "booked c" and "client_on_datagram c now d = Some (c', out)"
  shows "keeps_books c c'"
proof -
  obtain cn rd fs where c': "c' = fold take_response fs (c\<lparr>cl_conn := cn, cl_reader := rd\<rparr>)"
    using assms(2) by (auto simp: client_on_datagram_def split: bind_splits prod.splits)
  have "keeps_books c (c\<lparr>cl_conn := cn, cl_reader := rd\<rparr>)" using assms(1) by (simp add: keeps_books_refl)
  then show ?thesis
    unfolding c' using fold_responses_books keeps_books_trans by (meson keeps_books_def)
qed

lemma fold_fail_books:
  "booked c \<Longrightarrow> distinct is \<Longrightarrow> set is \<subseteq> dom (cl_pending c) \<Longrightarrow> keeps_books c (fold fail_call is c)"
proof (induction "is" arbitrary: c)
  case (Cons i "is")
  have k: "keeps_books c (fail_call i c)" using Cons.prems by (intro keeps_books_resolve(2)) simp_all
  have "set is \<subseteq> dom (cl_pending (fail_call i c))" using Cons.prems by (auto simp: fail_call_def)
  then have "keeps_books (fail_call i c) (fold fail_call is (fail_call i c))"
    using k Cons.prems(2) by (intro Cons.IH) (simp_all add: keeps_books_def)
  with k show ?case using keeps_books_trans by simp
qed (simp add: keeps_books_refl)

text \<open>A tick of the client changes its connection and the attempt counts, then gives up some calls.\<close>

lemma client_tick_shape:
  assumes "visits ids c" and "client_on_tick ids c now = Some (c', out)"
  obtains cn m tf where "c' = fold fail_call tf (c\<lparr>cl_conn := cn, cl_pending := m\<rparr>)"
    "calls (c\<lparr>cl_pending := m\<rparr>) = calls c" "distinct tf" "set tf \<subseteq> dom (cl_pending c)"
proof -
  obtain cn o1 c1 o2 tf where s: "on_tick (cl_conn c) now = Some (cn, o1)"
    "retry_loop now ids (c\<lparr>cl_conn := cn\<rparr>) o1 [] = Some (c1, o2, tf)" "c' = fold fail_call tf c1"
    using assms(2) by (auto simp: client_on_tick_def split: bind_splits)
  let ?e = "\<lparr>ep_conn = cn, ep_wire = o1, ep_sent = [], ep_recvd = []\<rparr>"
  obtain rs c2 tf' where p: "retry_plan now ids (c\<lparr>cl_conn := cn\<rparr>) [] = (rs, c2, tf')" by (metis surj_pair)
  then have "map_option (\<lambda>e'. (c2\<lparr>cl_conn := ep_conn e'\<rparr>, ep_wire e', tf'))
      (ep_run ?e (sends now (map request_frame rs))) = Some (c1, o2, tf)"
    using retry_loop_run [of ?e "c\<lparr>cl_conn := cn\<rparr>" now ids "[]"] s(2) by simp
  then have c1: "\<exists>cn'. c1 = c2\<lparr>cl_conn := cn'\<rparr>" "tf = tf'" by auto
  obtain m where m: "c2 = c\<lparr>cl_conn := cn, cl_pending := m\<rparr>" "calls c2 = calls (c\<lparr>cl_conn := cn\<rparr>)"
    "distinct tf'" "set tf' \<subseteq> dom (cl_pending c)"
    using retry_plan_ok [OF p] assms(1) by (auto simp: visits_def)
  have "calls (c\<lparr>cl_pending := m\<rparr>) = calls c2" by (simp add: m(1) calls_def fun_eq_iff)
  then have same: "calls (c\<lparr>cl_pending := m\<rparr>) = calls c" using m(2) by simp
  obtain cn' where "c1 = c2\<lparr>cl_conn := cn'\<rparr>" using c1(1) ..
  then have "c1 = c\<lparr>cl_conn := cn', cl_pending := m\<rparr>" by (simp add: m(1))
  then show thesis using that [of tf m cn'] same m(3,4) c1(2) s(3) by simp
qed

lemma client_on_tick_books:
  assumes "booked c" and "visits ids c" and "client_on_tick ids c now = Some (c', out)"
  shows "keeps_books c c'"
proof -
  obtain cn m tf where c': "c' = fold fail_call tf (c\<lparr>cl_conn := cn, cl_pending := m\<rparr>)"
    and m: "calls (c\<lparr>cl_pending := m\<rparr>) = calls c" and tf: "distinct tf" "set tf \<subseteq> dom (cl_pending c)"
    by (rule client_tick_shape [OF assms(2,3)])
  let ?c = "c\<lparr>cl_conn := cn, cl_pending := m\<rparr>"
  have dom: "dom m = dom (cl_pending c)" using dom_calls [of "c\<lparr>cl_pending := m\<rparr>"] m by simp
  then have k: "keeps_books c ?c" using assms(1) by (simp add: keeps_books_def booked_def issued_def live_def)
  have "keeps_books ?c c'"
    unfolding c' by (rule fold_fail_books) (use k dom tf in \<open>auto simp: keeps_books_def\<close>)
  with k show ?thesis by (rule keeps_books_trans)
qed

text \<open>What the standard library promises of the iteration order: every pending call is visited once.\<close>

definition orderly :: "visit_order \<Rightarrow> bool" where
  "orderly ord \<longleftrightarrow> (\<forall>tick i c. visits (ord tick i c) c)"

lemma chaos_start_clients:
  assumes "chaos_start cfg = Some s"
  shows "log_ok (co_cell s)" and "co_fired s = 0 \<and> co_expected s = [] \<and> co_failed s = 0"
    and "length (co_links s) = cf_clients cfg" and "\<forall>l \<in> set (co_links s). \<exists>cn. kl_client l = client_new cn 25 60"
proof -
  obtain xs ls vs where x: "setup_all cfg [0..<cf_clients cfg] = Some xs" "send_syns xs = Some (ls, vs)"
    "s = \<lparr>co_links = ls, co_servers = vs, co_cell = (\<lambda>_. None, []), co_fired = 0, co_switched = 0,
      co_expected = [], co_failed = 0\<rparr>"
    using assms by (auto simp: chaos_start_def split: bind_splits)
  define new where "new c \<longleftrightarrow> (\<exists>cn. c = client_new cn 25 60)" for c
  have "setup_all cfg is = Some ys \<Longrightarrow> length ys = length is \<and> list_all new (map (kl_client \<circ> fst) ys)" for "is" ys
    by (induction "is" arbitrary: ys) (auto simp: setup_one_def new_def split: bind_splits prod.splits)
  then have xs: "length xs = cf_clients cfg" "list_all new (map (kl_client \<circ> fst) xs)"
    using x(1) by fastforce+
  have "send_syns ys = Some (ks, ws) \<Longrightarrow> map kl_client ks = map (kl_client \<circ> fst) ys" for ys ks ws
    by (induction ys arbitrary: ks ws rule: send_syns.induct) (auto split: bind_splits)
  then have ls: "map kl_client ls = map (kl_client \<circ> fst) xs" using x(2) by blast
  then have "list_all new (map kl_client ls)" using xs(2) by simp
  then show "\<forall>l \<in> set (co_links s). \<exists>cn. kl_client l = client_new cn 25 60"
    by (simp add: list_all_iff new_def x(3))
  show "log_ok (co_cell s)" "co_fired s = 0 \<and> co_expected s = [] \<and> co_failed s = 0" by (simp_all add: x(3) log_ok_empty)
  show "length (co_links s) = cf_clients cfg" using xs(1) map_eq_imp_length_eq [OF ls] by (simp add: x(3))
qed

lemma length_make_schedule: "make_schedule cfg n t rng = Some sc \<Longrightarrow> length sc = n"
  by (induction n arbitrary: t rng sc) (auto simp: Let_def split: bind_splits)

lemma run_chaosE:
  assumes "run_chaos ord cfg = Some r"
  obtains s sc x where "chaos_start cfg = Some s" "make_schedule cfg (cf_calls cfg) 1 (cf_seed cfg) = Some sc"
    "chaos_loop ord cfg (sort_key fst (cf_profile_switches cfg)) sc 0 s = Some x"
    "r = (case x of Inl f \<Rightarrow> Inl f | Inr (tick, s) \<Rightarrow> chaos_verdict cfg tick s)"
  using assms by (auto simp: run_chaos_def split: bind_splits)

lemma verdict_of_log:
  assumes "log_ok (co_cell s)"
  shows "chaos_verdict cfg tick s = Inr \<lparr>su_seed = cf_seed cfg, su_executions = length (snd (co_cell s)),
    su_calls_completed = length (co_expected s) - co_failed s, su_calls_failed = co_failed s, su_ticks_used = tick\<rparr>"
  using replay_ok [OF agree_new, of "snd (co_cell s)" "fst (co_cell s)" "cf_seed cfg" 0] assms
  by (simp add: chaos_verdict_def log_ok_def)

section \<open>The schedule\<close>

lemma draw_total: "0 < n \<Longrightarrow> \<exists>x r'. below_usize n r = Some (x, r') \<and> x < n"
  using workload_rng.draw_pos by blast

lemma random_op_total: "random_op k rng = None \<longleftrightarrow> k = 0"
proof (cases "k = 0")
  case True
  then show ?thesis by (simp add: random_op_def below_usize_def)
next
  case False
  obtain x r1 where x: "below_usize k rng = Some (x, r1)" using draw_total [of k rng] False by auto
  obtain y r2 where y: "below_usize 3 r1 = Some (y, r2)" using draw_total [of 3 r1] by auto
  obtain z r3 where z: "below_usize 8 r2 = Some (z, r3)" using draw_total [of 8 r2] by auto
  obtain v r4 where "random_bytes (1 + z) r3 = (v, r4)" by (metis surj_pair)
  then have "\<exists>o1 r5. random_op k rng = Some (o1, r5)" by (simp add: random_op_def x y z Let_def del: random_bytes.simps)
  then show ?thesis using False by auto
qed

lemma make_schedule_None:
  "make_schedule cfg n t rng = None \<longleftrightarrow> 0 < n \<and> (cf_clients cfg = 0 \<or> cf_key_space cfg = 0)"
proof (induction n arbitrary: t rng)
  case (Suc n)
  obtain gap r1 where g: "below_usize 4 rng = Some (gap, r1)" using draw_total [of 4 rng] by auto
  show ?case
  proof (cases "cf_clients cfg = 0")
    case True
    then show ?thesis by (simp add: g Let_def) (simp add: below_usize_def)
  next
    case False
    then obtain i r2 where i: "below_usize (cf_clients cfg) r1 = Some (i, r2)" using draw_total [of "cf_clients cfg" r1] by auto
    show ?thesis
    proof (cases "random_op (cf_key_space cfg) r2")
      case None
      then show ?thesis using random_op_total [of "cf_key_space cfg" r2] by (simp add: g i Let_def)
    next
      case (Some x)
      then have "cf_key_space cfg \<noteq> 0" using random_op_total [of "cf_key_space cfg" r2] by auto
      with Suc.IH False Some show ?thesis by (cases x) (auto simp: g i Let_def split: bind_splits)
    qed
  qed
qed simp

lemma make_schedule_entries:
  "make_schedule cfg n t rng = Some sc \<Longrightarrow> unat t + 4 * n < 2 ^ 64 \<Longrightarrow>
     sorted_wrt (<) (map fst sc)
     \<and> (\<forall>(u, i, op) \<in> set sc. t < u \<and> unat u \<le> unat t + 4 * n \<and> i < cf_clients cfg)"
proof (induction n arbitrary: t rng sc)
  case (Suc n)
  obtain gap r1 where g: "below_usize 4 rng = Some (gap, r1)" "gap < 4" using draw_total [of 4 rng] by auto
  define u where "u = t + (1 + word_of_nat gap)"
  obtain i r2 op r3 rest where s: "below_usize (cf_clients cfg) r1 = Some (i, r2)"
    "make_schedule cfg n u r3 = Some rest" "sc = (u, i, op) # rest"
    using Suc.prems(1) g(1) by (auto simp: Let_def u_def split: bind_splits)
  have "u = word_of_nat (unat t + Suc gap)" by (simp add: u_def)
  then have u: "unat u = unat t + Suc gap" using Suc.prems(2) g(2) by (simp only: unat_of_nat) simp
  have i: "i < cf_clients cfg"
    using s(1) draw_total [of "cf_clients cfg" r1] by (cases "cf_clients cfg = 0") (auto simp: below_usize_def)
  have "unat u + 4 * n < 2 ^ 64" using u Suc.prems(2) g(2) by simp
  note IH = Suc.IH [OF s(2) this]
  have "t < u" "unat u \<le> unat t + 4 * Suc n" using u g(2) by (simp_all add: word_less_nat_alt)
  moreover have "t < w \<and> unat w \<le> unat t + 4 * Suc n" if "u < w" "unat w \<le> unat u + 4 * n" for w
    using that u g(2) by (simp add: word_less_nat_alt)
  ultimately show ?case using IH i s(3) by fastforce
qed simp

section \<open>A run\<close>

text \<open>One client, one call, clean channels: the scheduled operation is a get of key k3.\<close>

definition chaos_demo :: chaos_config where
  "chaos_demo = chaos_config_default\<lparr>cf_seed := 3, cf_clients := 1, cf_calls := 1,
     cf_max_ticks := 300000\<rparr>"

definition by_id :: visit_order where
  "by_id tick i c = sorted_list_of_set (dom (cl_pending c))"

lemma orderly_by_id: "orderly by_id"
  by (simp add: orderly_def visits_def by_id_def)

lemma chaos_demo_schedule:
  "make_schedule chaos_demo (cf_calls chaos_demo) 1 (cf_seed chaos_demo) = Some [(2, 0, Get [107, 51])]"
  by (simp add: chaos_demo_def chaos_config_default_def random_op_def below_usize_def next_u64_def mix_def
      GAMMA_def Let_def key_name_def decimal.simps)

lemma chaos_demo_loop:
  "\<exists>s. Option.bind (chaos_start chaos_demo) (chaos_loop by_id chaos_demo [] [(2, 0, Get [107, 51])] 0) = Some (Inr (2, s))
    \<and> chaos_verdict chaos_demo 2 s = Inr \<lparr>su_seed = 3, su_executions = 1,
    su_calls_completed = 1, su_calls_failed = 0, su_ticks_used = 2\<rparr>"
  by (simp add: chaos_start_def chaos_demo_def chaos_config_default_def setup_one_def make_link_def
      channel_new_def channel_eval make_server_def server_new_def client_new_def reader_new_def
      chaos_transport_config_def chaos_loop.simps Let_def run_simps chaos_tick_def apply_switches.simps
      fire_calls.simps pump_def channel_advance_def deliver_ready_def deliver_loop.simps heap_peek_def
      heap_pop_def borrow_def server_on_tick_def client_on_datagram_def server_on_datagram_def
      client_on_tick_def drain_frames_def feed_def answer_def poll_completed_def poll_failed_def
      take_response_def visits_def drain_loop_short List.map_filter_simps le_eval rpc_frame_def
      drain_eval request_encode_def request_decode_def response_encode_def response_decode_def
      slice_of_def kv_handler_def by_id_def poll_all_def poll_link_def fire_call_def kv_call_def
      client_call_def log_execution_def all_drained_def pending_count_def chaos_verdict_def
      op_decode_def method_defs reference_new_def)
    (simp add: word_le_nat_alt)

lemma chaos_demo_run: "run_chaos by_id chaos_demo = Some (Inr \<lparr>su_seed = 3, su_executions = 1,
    su_calls_completed = 1, su_calls_failed = 0, su_ticks_used = 2\<rparr>)"
proof -
  have "sort_key fst (cf_profile_switches chaos_demo) = []" by (simp add: chaos_demo_def chaos_config_default_def)
  then show ?thesis using chaos_demo_loop unfolding run_chaos_def chaos_demo_schedule by (auto split: bind_splits)
qed

section \<open>Properties\<close>

text \<open>C16. The differential check of a chaos run cannot fail: whatever the fault profiles, the schedule, the
  switches and the order of retries, a run that returns an error returns the one for not draining in
  time, never a divergence between the server's store and the reference store.\<close>

theorem chaos_never_diverges:
  "case run_chaos ord cfg of
     None \<Rightarrow> True
   | Some (Inl f) \<Rightarrow>
       \<exists>n. f = \<lparr>fa_seed = cf_seed cfg, fa_message = DidNotDrain (cf_max_ticks cfg) n (cf_calls cfg)\<rparr>
   | Some (Inr su) \<Rightarrow> su_seed su = cf_seed cfg"
proof (cases "run_chaos ord cfg")
  case (Some r)
  then obtain s sc x where x: "chaos_start cfg = Some s"
    "chaos_loop ord cfg (sort_key fst (cf_profile_switches cfg)) sc 0 s = Some x"
    "r = (case x of Inl f \<Rightarrow> Inl f | Inr (tick, s) \<Rightarrow> chaos_verdict cfg tick s)" by (rule run_chaosE)
  then show ?thesis
    using chaos_loop_log [OF chaos_start_clients(1) [OF x(1)] x(2)] Some
    by (auto simp: verdict_of_log split: sum.splits prod.splits)
qed simp

text \<open>The schedule of a run exists exactly when there are a client and a key to draw (or nothing to
  schedule), and its calls are in strictly increasing tick order, at most four ticks apart on average,
  each at a client that exists.\<close>

theorem chaos_schedule_wellformed:
  assumes "make_schedule cfg n t rng = Some sc" and "unat t + 4 * n < 2 ^ 64"
  shows "length sc = n \<and> sorted_wrt (<) (map fst sc)
    \<and> (\<forall>(u, i, op) \<in> set sc. t < u \<and> unat u \<le> unat t + 4 * n \<and> i < cf_clients cfg)
    \<and> (make_schedule cfg' m t' rng' = None \<longleftrightarrow> 0 < m \<and> (cf_clients cfg' = 0 \<or> cf_key_space cfg' = 0))"
proof (intro conjI)
  show "length sc = n" using assms(1) by (rule length_make_schedule)
  show "sorted_wrt (<) (map fst sc)"
    and "\<forall>(u, i, op) \<in> set sc. t < u \<and> unat u \<le> unat t + 4 * n \<and> i < cf_clients cfg"
    using make_schedule_entries [OF assms] by (rule conjunct1, rule conjunct2)
qed (rule make_schedule_None)

theorem chaos_schedule_wellformed_witness:
  "\<exists>u i op. make_schedule chaos_demo 1 1 3 = Some [(u, i, op)] \<and> 1 < u \<and> unat u \<le> 5 \<and> i < 1"
proof -
  have s: "make_schedule chaos_demo 1 1 3 = Some [(2, 0, Get [107, 51])]"
    using chaos_demo_schedule by (simp add: chaos_demo_def del: make_schedule.simps)
  have "1 < (2 :: u64) \<and> unat (2 :: u64) \<le> unat (1 :: u64) + 4 * 1 \<and> 0 < cf_clients chaos_demo"
    using chaos_schedule_wellformed [OF s, THEN conjunct2, THEN conjunct2, THEN conjunct1] by simp
  with s show ?thesis by (intro exI [of _ 2] exI [of _ 0] exI [of _ "Get [107, 51]"]) simp
qed

end
