(* ===== verification/Chaos_Reports.thy ===== *)
theory Chaos_Reports
  imports Chaos_Props
begin

text \<open>
  What a chaos run reports about each of its calls. The run is watched: at every tick the completions and
  failures that polling takes from each client are noted, without changing the run. Every scheduled
  call then turns up in these notes exactly once.
\<close>

section \<open>Watching a run\<close>

text \<open>A tick up to the polling, which only empties the clients' outboxes.\<close>

definition chaos_work :: "visit_order \<Rightarrow> u64 \<Rightarrow> (u64 \<times> fault_profile) list \<Rightarrow> (u64 \<times> nat \<times> op) list
    \<Rightarrow> u64 \<Rightarrow> chaos \<Rightarrow> chaos option" where
  "chaos_work ord seed switches schedule tick s = do {
     s \<leftarrow> apply_switches seed switches tick s;
     s \<leftarrow> fire_calls schedule tick s;
     (cell, ls, vs) \<leftarrow> pump_all ord tick 0 (co_cell s) (co_links s) (co_servers s);
     Some (s\<lparr>co_cell := cell, co_links := ls, co_servers := vs\<rparr>)
   }"

lemma chaos_tick_work: "chaos_tick ord seed sw sc tick s = map_option poll_all (chaos_work ord seed sw sc tick s)"
  by (auto simp: chaos_tick_def chaos_work_def split: bind_splits option.splits)

text \<open>What polling link \<open>j\<close> takes: the completions with their answers, and the ids given up.\<close>

type_synonym report = "nat \<times> (u64 \<times> response) list \<times> u64 list"

definition polls :: "chaos \<Rightarrow> report list" where
  "polls s = map (\<lambda>(j, l). (j, fst (poll_completed (kl_client l)), fst (poll_failed (snd (poll_completed (kl_client l))))))
     (enumerate 0 (co_links s))"

function watch_loop :: "visit_order \<Rightarrow> chaos_config \<Rightarrow> (u64 \<times> fault_profile) list \<Rightarrow> (u64 \<times> nat \<times> op) list
    \<Rightarrow> u64 \<Rightarrow> chaos \<Rightarrow> ((chaos_failure + u64 \<times> chaos) \<times> report list) option" where
  "watch_loop ord cfg switches schedule tick s =
    (case chaos_work ord (cf_seed cfg) switches schedule (tick + 1) s of
       None \<Rightarrow> None
     | Some w \<Rightarrow>
        if all_drained schedule (poll_all w) then Some (Inr (tick + 1, poll_all w), polls w)
        else if cf_max_ticks cfg \<le> tick + 1
        then Some (Inl \<lparr>fa_seed = cf_seed cfg,
               fa_message = DidNotDrain (cf_max_ticks cfg) (co_fired (poll_all w)) (cf_calls cfg)\<rparr>, polls w)
        else map_option (\<lambda>(r, R). (r, polls w @ R))
          (watch_loop ord cfg switches schedule (tick + 1) (poll_all w)))"
  by pat_completeness auto
termination
  by (relation "measure (\<lambda>(ord, cfg, sw, sc, t, s). unat (cf_max_ticks cfg - (t + 1)))")
    (auto simp: loop_measure)

declare watch_loop.simps [simp del]

definition watch_run :: "visit_order \<Rightarrow> chaos_config \<Rightarrow> ((chaos_failure + u64 \<times> chaos) \<times> report list) option" where
  "watch_run ord cfg = do {
     s \<leftarrow> chaos_start cfg;
     schedule \<leftarrow> make_schedule cfg (cf_calls cfg) 1 (cf_seed cfg);
     watch_loop ord cfg (sort_key fst (cf_profile_switches cfg)) schedule 0 s
   }"

text \<open>Watching changes nothing.\<close>

lemma watch_loop_run: "chaos_loop ord cfg sw sc tick s = map_option fst (watch_loop ord cfg sw sc tick s)"
proof (induction ord cfg sw sc tick s rule: watch_loop.induct)
  case (1 ord cfg sw sc tick s)
  then show ?case
    by (auto simp: watch_loop.simps [of ord cfg sw sc tick s] chaos_loop.simps [of ord cfg sw sc tick s]
        chaos_tick_work option.map_comp comp_def case_prod_beta split: option.split)
qed

lemma watch_run_run:
  "run_chaos ord cfg = map_option (\<lambda>(r, R). case r of Inl f \<Rightarrow> Inl f | Inr (t, s) \<Rightarrow> chaos_verdict cfg t s)
     (watch_run ord cfg)"
  by (auto simp: run_chaos_def watch_run_def watch_loop_run Let_def option.map_comp comp_def case_prod_beta
      split: bind_splits option.splits)

text \<open>The completions and failures reported for one client.\<close>

definition completed_of :: "report list \<Rightarrow> nat \<Rightarrow> (u64 \<times> response) list" where
  "completed_of R j = concat (map (fst \<circ> snd) (filter (\<lambda>x. fst x = j) R))"

definition failed_of :: "report list \<Rightarrow> nat \<Rightarrow> u64 list" where
  "failed_of R j = concat (map (snd \<circ> snd) (filter (\<lambda>x. fst x = j) R))"

lemma reports_append [simp]:
  "completed_of (R @ R') j = completed_of R j @ completed_of R' j" "failed_of (R @ R') j = failed_of R j @ failed_of R' j"
  "completed_of [] j = []" "failed_of [] j = []"
  by (simp_all add: completed_of_def failed_of_def)

lemma filter_enumerate:
  "j < length xs \<Longrightarrow> filter (\<lambda>x. fst x = n + j) (enumerate n xs) = [(n + j, xs ! j)]"
proof (induction xs arbitrary: n j)
  case (Cons x xs)
  have out: "filter (\<lambda>x. fst x = n) (enumerate (Suc n) xs) = []" by (auto simp: in_set_enumerate_eq filter_empty_conv)
  show ?case
  proof (cases j)
    case (Suc i)
    then show ?thesis using Cons.IH [of i "Suc n"] Cons.prems by simp
  qed (simp add: out)
qed simp

lemma polls_of [simp]:
  assumes "j < length (co_links s)"
  shows "completed_of (polls s) j = cl_completed (kl_client (co_links s ! j))"
    and "failed_of (polls s) j = cl_failed (kl_client (co_links s ! j))"
  using filter_enumerate [of j "co_links s" 0] assms
  by (simp_all add: completed_of_def failed_of_def polls_def filter_map comp_def case_prod_beta poll_completed_def
      poll_failed_def)

section \<open>The calls of a schedule\<close>

definition scheduled :: "(u64 \<times> nat \<times> op) list \<Rightarrow> nat \<Rightarrow> op list" where
  "scheduled sc j = map (snd \<circ> snd) (filter (\<lambda>x. fst (snd x) = j) sc)"

text \<open>The ids of the calls of client \<open>j\<close>: they are numbered in schedule order.\<close>

definition call_ids :: "(u64 \<times> nat \<times> op) list \<Rightarrow> nat \<Rightarrow> u64 list" where
  "call_ids sc j = map word_of_nat [0..<length (scheduled sc j)]"

definition requests_of :: "op list \<Rightarrow> request list" where
  "requests_of ops = map (\<lambda>(i, op). \<lparr>rq_id = word_of_nat i, rq_method = op_method op, rq_payload = encode_payload op\<rparr>)
     (enumerate 0 ops)"

lemma requests_of_ids: "rq_id ` set (requests_of (scheduled sc j)) = set (call_ids sc j)"
proof -
  have "map rq_id (requests_of (scheduled sc j)) = call_ids sc j"
    unfolding requests_of_def call_ids_def
    by (intro nth_equalityI) (simp_all add: nth_enumerate_eq)
  then show ?thesis by (metis list.set_map)
qed

lemma requests_of_snoc:
  "requests_of (ops @ [op]) = requests_of ops
     @ [\<lparr>rq_id = word_of_nat (length ops), rq_method = op_method op, rq_payload = encode_payload op\<rparr>]"
  by (simp add: requests_of_def enumerate_append_eq)

lemma length_requests_of [simp]: "length (requests_of ops) = length ops"
  by (simp add: requests_of_def)

lemma scheduled_next:
  "n < length sc \<Longrightarrow> scheduled (take (Suc n) sc) j =
     scheduled (take n sc) j @ (if fst (snd (sc ! n)) = j then [snd (snd (sc ! n))] else [])"
  by (simp add: scheduled_def take_Suc_conv_app_nth)

lemma length_scheduled_le: "length (scheduled sc j) \<le> length sc"
  by (simp add: scheduled_def)

section \<open>The account of one client\<close>

text \<open>Its calls so far were \<open>ops\<close>, in this order; \<open>D\<close> and \<open>F\<close> are what polling has taken.\<close>

definition account :: "op list \<Rightarrow> (u64 \<times> response) list \<Rightarrow> u64 list \<Rightarrow> rpc_client \<Rightarrow> bool" where
  "account ops D F c \<longleftrightarrow> client_ok (requests_of ops) D F c \<and> unat (cl_next_id c) = length ops"

lemma account_call:
  assumes "account ops D F c" and "kv_call c now op = Some (i, c', out)" and "Suc (length ops) < 2 ^ 64"
  shows "account (ops @ [op]) D F c'"
proof -
  have i: "i = cl_next_id c" "cl_next_id c' = i + 1"
    using assms(2) by (auto simp: kv_call_def client_call_def Let_def)
  have n: "unat (cl_next_id c) = length ops" using assms(1) by (simp add: account_def)
  have "cl_next_id c = word_of_nat (length ops)" by (simp flip: n)
  moreover have "unat (i + 1) = Suc (length ops)" using n i(1) assms(3) by (simp add: unat_word_ariths)
  ultimately show ?thesis
    using client_ok_call [of "requests_of ops" D F c now "op_method op" "encode_payload op" i c' out] assms i
    by (simp add: account_def requests_of_snoc kv_call_def)
qed

lemma take_responses_next_id [simp]: "cl_next_id (fold take_response fs c) = cl_next_id c"
  by (induction fs arbitrary: c) (auto simp: take_response_def split: option.split)

lemma account_datagram:
  assumes "account ops D F c" and "client_on_datagram c now d = Some (c', out)"
  shows "account ops D F c'"
proof -
  obtain cn rd fs where "c' = fold take_response fs (c\<lparr>cl_conn := cn, cl_reader := rd\<rparr>)"
    using assms(2) by (auto simp: client_on_datagram_def split: bind_splits prod.splits)
  then show ?thesis using assms(1) by (simp add: account_def client_ok_fold_responses)
qed

lemma account_arrivals:
  "account ops D F c \<Longrightarrow> client_arrivals now ds c c2s = Some (c', c2s') \<Longrightarrow> account ops D F c'"
  by (induction ds arbitrary: c c2s) (auto dest: account_datagram split: bind_splits)

lemma fail_calls_next_id [simp]: "cl_next_id (fold fail_call is c) = cl_next_id c"
  by (induction "is" arbitrary: c) (simp_all add: fail_call_def)

lemma account_tick:
  assumes "account ops D F c" and "visits ids c" and "client_on_tick ids c now = Some (c', out)"
  shows "account ops D F c'"
proof -
  obtain cn m tf where c': "c' = fold fail_call tf (c\<lparr>cl_conn := cn, cl_pending := m\<rparr>)"
    and m: "calls (c\<lparr>cl_pending := m\<rparr>) = calls c" and tf: "distinct tf" "set tf \<subseteq> dom (cl_pending c)"
    by (rule client_tick_shape [OF assms(2,3)])
  let ?c = "c\<lparr>cl_conn := cn, cl_pending := m\<rparr>"
  have calls: "calls ?c = calls c" using m by (simp add: calls_def fun_eq_iff)
  have "client_ok (requests_of ops) D F ?c"
    using assms(1) unfolding account_def client_ok_def calls by (simp add: outcomes_def)
  moreover have "set tf \<subseteq> dom (cl_pending ?c)" using tf(2) calls by (metis dom_calls)
  ultimately have "client_ok (requests_of ops) D F c'" unfolding c' using tf(1) by (intro client_ok_fail)
  with assms(1) show ?thesis by (simp add: account_def c')
qed

lemma account_pump:
  assumes "orderly ord" and "account ops D F (kl_client l)" and "pump ord tick i cell l v = Some (cell', l', v')"
  shows "account ops D F (kl_client l')"
  using assms(3)
proof (rule pumpE)
  fix ds' c2s c1 c2s1 out
  assume 1: "client_arrivals (Tick tick) ds' (kl_client l) c2s = Some (c1, c2s1)"
    and 2: "client_on_tick (ord tick i c1) c1 (Tick tick) = Some (kl_client l', out)"
  have "visits (ord tick i c1) c1" using assms(1) by (simp add: orderly_def)
  then show ?thesis using account_tick [OF account_arrivals [OF assms(2) 1] _ 2] by blast
qed

lemma account_poll:
  assumes "account ops D F (kl_client l)"
  shows "account ops (D @ cl_completed (kl_client l)) (F @ cl_failed (kl_client l)) (kl_client (fst (poll_link l)))"
    and "cl_completed (kl_client (fst (poll_link l))) = []" and "cl_failed (kl_client (fst (poll_link l))) = []"
  using assms by (simp_all add: account_def client_ok_def outcomes_def poll_link_def poll_completed_def
      poll_failed_def calls_def [abs_def])

text \<open>A client with nothing pending and nothing to poll has reported each of its calls once.\<close>

lemma account_settled:
  assumes "account ops D F c" and "cl_pending c = Map.empty" and "cl_completed c = []" and "cl_failed c = []"
  shows "distinct (map fst D @ F)" and "set (map fst D @ F) = rq_id ` set (requests_of ops)"
  using assms by (simp_all add: account_def client_ok_def ledger_def outcomes_def)

section \<open>The accounts of a run\<close>

definition accounts :: "(u64 \<times> nat \<times> op) list \<Rightarrow> report list \<Rightarrow> chaos \<Rightarrow> bool" where
  "accounts sc R s \<longleftrightarrow> co_fired s \<le> length sc \<and> length (co_expected s) = co_fired s
     \<and> co_failed s = (\<Sum>j < length (co_links s). length (failed_of R j))
     \<and> (\<forall>j < length (co_links s). account (scheduled (take (co_fired s) sc) j) (completed_of R j) (failed_of R j)
          (kl_client (co_links s ! j)))"

lemma accounts_clients:
  assumes "accounts sc R s" and "map kl_client (co_links s') = map kl_client (co_links s)"
    and "co_fired s' = co_fired s" and "co_failed s' = co_failed s" and "co_expected s' = co_expected s"
  shows "accounts sc R s'"
proof -
  have len: "length (co_links s') = length (co_links s)" using assms(2) by (rule map_eq_imp_length_eq)
  have "kl_client (co_links s' ! j) = kl_client (co_links s ! j)" if "j < length (co_links s)" for j
    using assms(2) len that by (metis nth_map)
  then show ?thesis using assms(1,3-5) len by (simp add: accounts_def)
qed

lemma accounts_fire:
  assumes "accounts sc R s" and "co_fired s < length sc" and "length sc < 2 ^ 64"
    and "fire_call now (fst (snd (sc ! co_fired s))) (snd (snd (sc ! co_fired s))) s = Some s'"
  shows "accounts sc R s' \<and> length (co_links s') = length (co_links s)"
proof -
  let ?ls = "co_links s" and ?idx = "fst (snd (sc ! co_fired s))" and ?op = "snd (snd (sc ! co_fired s))"
  let ?ops = "\<lambda>n j. scheduled (take n sc) j"
  obtain i c out c2s where f: "?idx < length ?ls" "kv_call (kl_client (?ls ! ?idx)) now ?op = Some (i, c, out)"
    "s' = s\<lparr>co_links := ?ls[?idx := (?ls ! ?idx)\<lparr>kl_client := c, kl_c2s := c2s\<rparr>],
       co_expected := co_expected s @ [i], co_fired := co_fired s + 1\<rparr>"
    using assms(4) by (auto simp: fire_call_def Let_def split: if_splits bind_splits)
  have "length (?ops (co_fired s) j) \<le> co_fired s" for j
    using length_scheduled_le [of "take (co_fired s) sc" j] by simp
  then have "Suc (length (?ops (co_fired s) ?idx)) < 2 ^ 64" using assms(2,3) by (meson Suc_leI le_less_trans less_le_trans not_less_eq)
  then have "account (?ops (Suc (co_fired s)) ?idx) (completed_of R ?idx) (failed_of R ?idx) c"
    using account_call [OF _ f(2)] assms(1) f(1) by (simp add: accounts_def scheduled_next [OF assms(2)])
  then show ?thesis
    using assms(1,2) by (auto simp: f(3) accounts_def nth_list_update scheduled_next)
qed

lemma accounts_fires:
  "accounts sc R s \<Longrightarrow> fire_calls sc tick s = Some s' \<Longrightarrow> length sc < 2 ^ 64 \<Longrightarrow>
     accounts sc R s' \<and> length (co_links s') = length (co_links s)"
proof (induction sc tick s rule: fire_calls.induct)
  case (1 sc tick s)
  show ?case
  proof (cases "co_fired s < length sc \<and> fst (sc ! co_fired s) \<le> tick")
    case True
    then obtain s1 where s1: "fire_call (Tick tick) (fst (snd (sc ! co_fired s))) (snd (snd (sc ! co_fired s))) s = Some s1"
      "fire_calls sc tick s1 = Some s'"
      using "1.prems"(2) by (auto simp: fire_calls.simps [of sc tick s] split: option.splits)
    have "accounts sc R s1 \<and> length (co_links s1) = length (co_links s)"
      using accounts_fire [OF "1.prems"(1) _ "1.prems"(3) s1(1)] True by simp
    then show ?thesis using "1.IH" [OF True s1(1)] s1(2) "1.prems"(3) by simp
  qed (use 1 in \<open>auto simp: fire_calls.simps [of sc tick s] split: if_splits\<close>)
qed

lemma accounts_pump:
  assumes "orderly ord" and "\<forall>j < length ls. account (ops j) (D j) (F j) (kl_client (ls ! j))"
    and "pump_all ord tick i cell ls vs = Some (cell', ls', vs')"
  shows "length ls' = length ls \<and> (\<forall>j < length ls. account (ops j) (D j) (F j) (kl_client (ls' ! j)))"
  using assms(2,3)
proof (induction ls arbitrary: ops D F i cell vs ls' vs')
  case (Cons l ls)
  show ?case
  proof (cases vs)
    case (Cons v vs1)
    with Cons.prems(2) obtain cell1 l1 v1 ls2 vs2 where p: "pump ord tick i cell l v = Some (cell1, l1, v1)"
      "pump_all ord tick (Suc i) cell1 ls vs1 = Some (cell', ls2, vs2)" "ls' = l1 # ls2" using pump_allE by metis
    have "account (ops 0) (D 0) (F 0) (kl_client l1)" using account_pump [OF assms(1) _ p(1)] Cons.prems(1) by fastforce
    moreover have "length ls2 = length ls
        \<and> (\<forall>j < length ls. account (ops (Suc j)) (D (Suc j)) (F (Suc j)) (kl_client (ls2 ! j)))"
      using Cons.prems(1) by (intro Cons.IH [OF _ p(2)]) auto
    ultimately show ?thesis using p(3) by (auto simp: less_Suc_eq_0_disj)
  qed (use Cons.prems in auto)
qed simp

lemma accounts_work:
  assumes "orderly ord" and "length sc < 2 ^ 64" and "accounts sc R s"
    and "chaos_work ord seed sw sc tick s = Some w"
  shows "accounts sc R w \<and> length (co_links w) = length (co_links s)"
proof -
  obtain s1 s2 cell ls vs where t: "apply_switches seed sw tick s = Some s1" "fire_calls sc tick s1 = Some s2"
    "pump_all ord tick 0 (co_cell s2) (co_links s2) (co_servers s2) = Some (cell, ls, vs)"
    "w = s2\<lparr>co_cell := cell, co_links := ls, co_servers := vs\<rparr>"
    using assms(4) by (auto simp: chaos_work_def split: bind_splits)
  have "accounts sc R s1" "length (co_links s1) = length (co_links s)"
    using accounts_clients [OF assms(3)] apply_switches_frame [OF t(1)] map_eq_imp_length_eq by blast+
  then have "accounts sc R s2" "length (co_links s2) = length (co_links s)"
    using accounts_fires [OF _ t(2) assms(2)] by auto
  then show ?thesis
    using accounts_pump [OF assms(1) _ t(3), of "scheduled (take (co_fired s2) sc)" "completed_of R" "failed_of R"]
    by (simp add: t(4) accounts_def)
qed

lemma accounts_poll:
  assumes "accounts sc R w"
  shows "accounts sc (R @ polls w) (poll_all w)"
proof -
  have "sum_list (map (snd \<circ> poll_link) (co_links w)) = (\<Sum>j < length (co_links w). length (failed_of (polls w) j))"
    by (simp add: sum_list_sum_nth atLeast0LessThan poll_link_def poll_completed_def poll_failed_def Let_def)
  then show ?thesis
    using assms account_poll(1) by (simp add: accounts_def poll_all_def sum.distrib)
qed

lemma accounts_loop:
  assumes "orderly ord" and "length sc < 2 ^ 64"
  shows "accounts sc R0 s \<Longrightarrow> tick = 0 \<or> tick < cf_max_ticks cfg \<Longrightarrow>
     watch_loop ord cfg sw sc tick s = Some (Inr (t, s'), R) \<Longrightarrow>
     accounts sc (R0 @ R) s' \<and> length (co_links s') = length (co_links s) \<and> t \<le> max 1 (cf_max_ticks cfg)
     \<and> all_drained sc s' \<and> (\<forall>l \<in> set (co_links s'). cl_completed (kl_client l) = [] \<and> cl_failed (kl_client l) = [])"
  using assms
proof (induction ord cfg sw sc tick s arbitrary: R0 R rule: watch_loop.induct)
  case (1 ord cfg sw sc tick s)
  obtain w where w: "chaos_work ord (cf_seed cfg) sw sc (tick + 1) s = Some w"
    using "1.prems"(3) by (auto simp: watch_loop.simps [of ord cfg sw sc tick s] split: option.splits)
  have "accounts sc R0 w" "length (co_links w) = length (co_links s)"
    using accounts_work [OF "1.prems"(4,5,1) w] by simp_all
  then have a: "accounts sc (R0 @ polls w) (poll_all w)" "length (co_links (poll_all w)) = length (co_links s)"
    using accounts_poll by (simp_all add: poll_all_def)
  have le: "tick + 1 \<le> max 1 (cf_max_ticks cfg)"
    using "1.prems"(2) inc_le [of tick "cf_max_ticks cfg"] by (auto simp: le_max_iff_disj)
  show ?case
  proof (cases "all_drained sc (poll_all w) \<or> cf_max_ticks cfg \<le> tick + 1")
    case True
    then have "all_drained sc (poll_all w)" "t = tick + 1" "s' = poll_all w" "R = polls w"
      using "1.prems"(3) w by (auto simp: watch_loop.simps [of ord cfg sw sc tick s] split: if_splits)
    then show ?thesis using a le by (auto simp: poll_all_def poll_link_def poll_completed_def poll_failed_def)
  next
    case False
    then obtain R1 where "watch_loop ord cfg sw sc (tick + 1) (poll_all w) = Some (Inr (t, s'), R1)" "R = polls w @ R1"
      using "1.prems"(3) w by (auto simp: watch_loop.simps [of ord cfg sw sc tick s])
    then show ?thesis using "1.IH" [OF w, of "R0 @ polls w" R1] False a "1.prems"(4,5) by (simp add: not_le)
  qed
qed

section \<open>Every call is reported once\<close>

lemma accounts_start:
  assumes "chaos_start cfg = Some s"
  shows "accounts sc [] s"
proof -
  note C = chaos_start_clients [OF assms]
  have "account [] [] [] (client_new cn 25 60)" for cn
    using client_ok_new by (simp add: account_def requests_of_def) (simp add: client_new_def)
  moreover have "\<exists>cn. kl_client (co_links s ! j) = client_new cn 25 60" if "j < length (co_links s)" for j
    using C(4) that by simp
  ultimately show ?thesis using C(2) by (force simp: accounts_def scheduled_def)
qed

lemma make_schedule_clients:
  "make_schedule cfg n t rng = Some sc \<Longrightarrow> x \<in> set sc \<Longrightarrow> fst (snd x) < cf_clients cfg"
proof (induction n arbitrary: t rng sc)
  case (Suc n)
  obtain gap r1 i r2 op r3 rest where s: "below_usize (cf_clients cfg) r1 = Some (i, r2)"
    "make_schedule cfg n (t + (1 + word_of_nat gap)) r3 = Some rest" "sc = (t + (1 + word_of_nat gap), i, op) # rest"
    using Suc.prems(1) by (auto simp: Let_def split: bind_splits)
  have "i < cf_clients cfg"
    using s(1) draw_total [of "cf_clients cfg" r1] by (cases "cf_clients cfg = 0") (auto simp: below_usize_def)
  then show ?case using Suc.IH [OF s(2)] Suc.prems(2) s(3) by auto
qed simp

lemma sum_scheduled: "\<forall>x \<in> set sc. fst (snd x) < n \<Longrightarrow> (\<Sum>j < n. length (scheduled sc j)) = length sc"
proof (induction sc)
  case (Cons x sc)
  have "length (scheduled (x # sc) j) = (if j = fst (snd x) then 1 else 0) + length (scheduled sc j)" for j
    by (simp add: scheduled_def)
  then show ?case using Cons by (simp add: sum.distrib)
qed (simp add: scheduled_def)

text \<open>The watched run behind a summary, and its accounts at the end.\<close>

lemma watched_summary:
  assumes "orderly ord" and "cf_calls cfg < 2 ^ 64" and "run_chaos ord cfg = Some (Inr su)"
  obtains sc t s R where "make_schedule cfg (cf_calls cfg) 1 (cf_seed cfg) = Some sc"
    "watch_run ord cfg = Some (Inr (t, s), R)" "chaos_verdict cfg t s = Inr su" "accounts sc R s"
    "length (co_links s) = cf_clients cfg" "t \<le> max 1 (cf_max_ticks cfg)" "all_drained sc s" "log_ok (co_cell s)"
    "\<forall>l \<in> set (co_links s). cl_completed (kl_client l) = [] \<and> cl_failed (kl_client l) = []"
proof -
  obtain r R where r: "watch_run ord cfg = Some (r, R)"
    "(case r of Inl f \<Rightarrow> Inl f | Inr (t, s) \<Rightarrow> chaos_verdict cfg t s) = Inr su"
    using assms(3) by (auto simp: watch_run_run)
  obtain t s where t: "r = Inr (t, s)" using r(2) by (auto split: sum.splits)
  obtain s0 sc where w: "chaos_start cfg = Some s0" "make_schedule cfg (cf_calls cfg) 1 (cf_seed cfg) = Some sc"
    "watch_loop ord cfg (sort_key fst (cf_profile_switches cfg)) sc 0 s0 = Some (Inr (t, s), R)"
    using r(1) t by (auto simp: watch_run_def split: bind_splits)
  have "length sc < 2 ^ 64" using length_make_schedule [OF w(2)] assms(2) by simp
  note L = accounts_loop [OF assms(1) this accounts_start [OF w(1)] _ w(3)]
  have "chaos_loop ord cfg (sort_key fst (cf_profile_switches cfg)) sc 0 s0 = Some (Inr (t, s))"
    using w(3) by (simp add: watch_loop_run)
  then have "log_ok (co_cell s)" using chaos_loop_log [OF chaos_start_clients(1) [OF w(1)]] by fastforce
  then show thesis
    using that [OF w(2)] r t L chaos_start_clients(3) [OF w(1)] by simp
qed

lemma reported_once:
  assumes "accounts sc R s" and "all_drained sc s" and "j < length (co_links s)"
    and "\<forall>l \<in> set (co_links s). cl_completed (kl_client l) = [] \<and> cl_failed (kl_client l) = []"
  shows "distinct (map fst (completed_of R j) @ failed_of R j)"
    and "set (map fst (completed_of R j) @ failed_of R j) = set (call_ids sc j)"
proof -
  let ?l = "co_links s ! j"
  have l: "?l \<in> set (co_links s)" using assms(3) by simp
  have "account (scheduled sc j) (completed_of R j) (failed_of R j) (kl_client ?l)"
    using assms(1-3) by (simp add: accounts_def all_drained_def)
  note S = account_settled [OF this]
  have "cl_pending (kl_client ?l) = Map.empty" "cl_completed (kl_client ?l) = []" "cl_failed (kl_client ?l) = []"
    using assms(2,4) l by (auto simp: all_drained_def pending_count_def)
  then show "distinct (map fst (completed_of R j) @ failed_of R j)"
    "set (map fst (completed_of R j) @ failed_of R j) = set (call_ids sc j)"
    using S by (simp_all only: requests_of_ids)
qed

lemma distinct_call_ids: "length sc < 2 ^ 64 \<Longrightarrow> distinct (call_ids sc j)"
  using length_scheduled_le [of sc j]
  by (auto simp: call_ids_def distinct_map inj_on_def word_of_nat_eq_iff take_bit_nat_eq_self)

text \<open>The summary counts what was reported.\<close>

lemma summary_counts:
  assumes "make_schedule cfg (cf_calls cfg) 1 (cf_seed cfg) = Some sc" and "cf_calls cfg < 2 ^ 64"
    and "accounts sc R s" and "all_drained sc s" and "length (co_links s) = cf_clients cfg"
    and "\<forall>l \<in> set (co_links s). cl_completed (kl_client l) = [] \<and> cl_failed (kl_client l) = []"
  shows "co_failed s = (\<Sum>j < cf_clients cfg. length (failed_of R j))"
    and "length (co_expected s) = cf_calls cfg"
    and "length (co_expected s) = (\<Sum>j < cf_clients cfg. length (completed_of R j)) + co_failed s"
proof -
  have len: "length sc = cf_calls cfg" using assms(1) by (rule length_make_schedule)
  show f: "co_failed s = (\<Sum>j < cf_clients cfg. length (failed_of R j))"
    and e: "length (co_expected s) = cf_calls cfg"
    using assms(3-5) len by (simp_all add: accounts_def all_drained_def)
  have "length (completed_of R j) + length (failed_of R j) = length (scheduled sc j)" if "j < cf_clients cfg" for j
  proof -
    note once = reported_once [OF assms(3,4) _ assms(6), of j]
    have "length (map fst (completed_of R j) @ failed_of R j) = length (call_ids sc j)"
      using once that assms(2,5) distinct_call_ids [of sc j] len by (metis distinct_card)
    then show ?thesis by (simp add: call_ids_def)
  qed
  then have "(\<Sum>j < cf_clients cfg. length (completed_of R j)) + co_failed s = (\<Sum>j < cf_clients cfg. length (scheduled sc j))"
    by (simp add: f flip: sum.distrib)
  also have "\<dots> = cf_calls cfg" using sum_scheduled make_schedule_clients [OF assms(1)] len by metis
  finally show "length (co_expected s) = (\<Sum>j < cf_clients cfg. length (completed_of R j)) + co_failed s"
    using e by simp
qed

section \<open>Properties\<close>

text \<open>C20. The accounting of a successful run, call by call. Watch the run, noting for each client what
  polling takes from it (\<open>watch_run\<close>, which is \<open>run_chaos\<close> with notes). Then every scheduled call of
  every client is noted exactly once, either as a completion or as a failure, never as both and never
  twice; nothing else is noted; the summary's \<open>calls_completed\<close>, which the code computes as calls
  issued less failures, is the number of completions noted, and \<open>calls_failed\<close> that of the failures;
  together they are the configured number of calls (below \<open>2 ^ 64\<close>); and the run took no more ticks
  than allowed. The order of retries visits each pending call once (\<open>orderly\<close>); faults, switches and
  seed are arbitrary.\<close>

theorem chaos_accounts_for_calls:
  assumes "orderly ord" and "cf_calls cfg < 2 ^ 64" and "run_chaos ord cfg = Some (Inr su)"
  shows "\<exists>sc t s R. make_schedule cfg (cf_calls cfg) 1 (cf_seed cfg) = Some sc
    \<and> watch_run ord cfg = Some (Inr (t, s), R) \<and> chaos_verdict cfg t s = Inr su
    \<and> (\<forall>j < cf_clients cfg. distinct (map fst (completed_of R j) @ failed_of R j)
        \<and> set (map fst (completed_of R j) @ failed_of R j) = set (call_ids sc j))
    \<and> su_calls_completed su = (\<Sum>j < cf_clients cfg. length (completed_of R j))
    \<and> su_calls_failed su = (\<Sum>j < cf_clients cfg. length (failed_of R j))
    \<and> su_calls_completed su + su_calls_failed su = cf_calls cfg
    \<and> su_ticks_used su \<le> max 1 (cf_max_ticks cfg)"
proof -
  obtain sc t s R where w: "make_schedule cfg (cf_calls cfg) 1 (cf_seed cfg) = Some sc"
    "watch_run ord cfg = Some (Inr (t, s), R)" "chaos_verdict cfg t s = Inr su" "accounts sc R s"
    "length (co_links s) = cf_clients cfg" "t \<le> max 1 (cf_max_ticks cfg)" "all_drained sc s" "log_ok (co_cell s)"
    "\<forall>l \<in> set (co_links s). cl_completed (kl_client l) = [] \<and> cl_failed (kl_client l) = []"
    by (rule watched_summary [OF assms])
  have su: "su_calls_completed su = length (co_expected s) - co_failed s" "su_calls_failed su = co_failed s"
    "su_ticks_used su = t" using w(3) by (auto simp: verdict_of_log [OF w(8)])
  note C = summary_counts [OF w(1) assms(2) w(4,7,5,9)]
  show ?thesis
    using w C reported_once [OF w(4,7) _ w(9)] by (intro exI [of _ sc] exI [of _ t] exI [of _ s] exI [of _ R]) (simp add: su)
qed

theorem chaos_accounts_for_calls_witness:
  "\<exists>t s R. watch_run by_id chaos_demo = Some (Inr (t, s), R) \<and> map fst (completed_of R 0) = [0] \<and> failed_of R 0 = []"
proof -
  have demo: "cf_clients chaos_demo = 1" "cf_calls chaos_demo < 2 ^ 64" by (simp_all add: chaos_demo_def)
  from chaos_accounts_for_calls [OF orderly_by_id demo(2) chaos_demo_run] chaos_demo_schedule
  obtain t s R where w: "watch_run by_id chaos_demo = Some (Inr (t, s), R)"
    "set (map fst (completed_of R 0) @ failed_of R 0) = set (call_ids [(2, 0, Get [107, 51])] 0)"
    "length (completed_of R 0) = 1" "failed_of R 0 = []"
    by (auto simp: demo(1) lessThan_Suc)
  then have "set (map fst (completed_of R 0)) = {0}" by (simp add: call_ids_def scheduled_def)
  with w(3) have "map fst (completed_of R 0) = [0]" by (cases "completed_of R 0") auto
  with w(1,4) show ?thesis by (intro exI conjI)
qed

end
