(* ===== verification/Chaos_Budget.thy ===== *)
theory Chaos_Budget
  imports Rpc_Total Chaos_Reports
begin

text \<open>
  What bounds a chaos run: every call is put on the stream at most 60 times, requests and responses
  carry at most 20 bytes, and the log grows by one entry per request id the servers have seen. From
  these budgets follows that no stream leaves the 32-bit sequence space.
\<close>

section \<open>Retries\<close>

text \<open>The attempts the pending calls have left.\<close>

definition tries_left :: "rpc_client \<Rightarrow> nat" where
  "tries_left c = (\<Sum>i \<in> dom (cl_pending c).
     unat (cl_max_attempts c) - unat (pk_attempts (the (cl_pending c i))))"

definition unspent :: "rpc_client \<Rightarrow> bool" where
  "unspent c \<longleftrightarrow> (\<forall>k \<in> ran (cl_pending c). pk_attempts k \<le> cl_max_attempts c)"

lemma tries_left_submap:
  assumes "cl_pending c' \<subseteq>\<^sub>m cl_pending c" and "cl_max_attempts c' = cl_max_attempts c"
  shows "tries_left c' \<le> tries_left c" and "unspent c \<Longrightarrow> unspent c'"
proof -
  have same: "cl_pending c' i = cl_pending c i" if "i \<in> dom (cl_pending c')" for i
    using assms(1) that by (simp add: map_le_def)
  have "tries_left c' = (\<Sum>i \<in> dom (cl_pending c'). unat (cl_max_attempts c) - unat (pk_attempts (the (cl_pending c i))))"
    unfolding tries_left_def by (rule sum.cong) (simp_all add: same assms(2))
  also have "\<dots> \<le> tries_left c"
    unfolding tries_left_def by (rule sum_mono2) (use assms(1) in \<open>auto dest: map_le_implies_dom_le\<close>)
  finally show "tries_left c' \<le> tries_left c" .
  have "ran (cl_pending c') \<subseteq> ran (cl_pending c)"
    using same by (fastforce simp: ran_def)
  then show "unspent c \<Longrightarrow> unspent c'" using assms(2) by (auto simp: unspent_def)
qed

lemma attempt_counted:
  assumes "pk_attempts k \<le> m" and "m \<noteq> - 1"
  shows "unat (pk_attempts k + 1) = Suc (unat (pk_attempts k))"
proof -
  have "pk_attempts k \<noteq> - 1" using assms by (metis word_order.extremum_uniqueI)
  then show ?thesis by (metis add.commute unatSuc add_eq_0_iff)
qed

text \<open>Every resend is paid for by an attempt left.\<close>

lemma swept_pays:
  assumes "pk_attempts k \<le> cl_max_attempts c" and "cl_max_attempts c \<noteq> - 1"
  shows "of_bool (overdue now c k \<and> \<not> exhausted c k)
      + (unat (cl_max_attempts c) - unat (pk_attempts (swept now c k)))
    \<le> unat (cl_max_attempts c) - unat (pk_attempts k)"
  using attempt_counted [OF assms]
  by (auto simp: swept_def exhausted_def not_less word_le_nat_alt)

lemma length_calls_where:
  assumes "visits ids c"
  shows "length (calls_where c P ids) = (\<Sum>i \<in> dom (cl_pending c). of_bool (P (the (cl_pending c i))))"
proof -
  have "length (calls_where c P ids) = card (set (calls_where c P ids))"
    using assms by (intro distinct_card [symmetric]) (simp add: calls_where_def visits_def)
  also have "set (calls_where c P ids) = {i \<in> dom (cl_pending c). P (the (cl_pending c i))}"
    using assms by (auto simp: calls_where_def visits_def)
  finally show ?thesis by (simp add: sum.inter_filter of_bool_def flip: sum.inter_filter)
qed

lemma fail_calls_pending: "cl_pending (fold fail_call xs c) = cl_pending c |` (- set xs)"
proof (induction xs arbitrary: c)
  case (Cons i xs)
  then show ?case by (auto simp: fail_call_def restrict_map_def fun_eq_iff)
qed (simp add: restrict_map_def)

lemma fail_calls_max [simp]: "cl_max_attempts (fold fail_call xs c) = cl_max_attempts c"
  by (induction xs arbitrary: c) (simp_all add: fail_call_def)

lemma sweep_pays:
  assumes "visits ids c" and "unspent c" and "cl_max_attempts c \<noteq> - 1"
    and "retry_plan now ids c [] = (rs, c1, tf)"
  shows "length rs + tries_left (fold fail_call tf c1) \<le> tries_left c" and "unspent (fold fail_call tf c1)"
proof -
  let ?D = "dom (cl_pending c)"
  let ?k = "\<lambda>i. the (cl_pending c i)"
  have plan: "rs = map (asked c) (calls_where c (\<lambda>k. overdue now c k \<and> \<not> exhausted c k) ids)"
    "c1 = c\<lparr>cl_pending := \<lambda>i. map_option (swept now c) (cl_pending c i)\<rparr>"
    "tf = calls_where c (\<lambda>k. overdue now c k \<and> exhausted c k) ids"
  proof -
    have m: "(\<lambda>i. if i \<in> set ids then map_option (swept now c) (cl_pending c i) else cl_pending c i)
        = (\<lambda>i. map_option (swept now c) (cl_pending c i))"
      using assms(1) by (auto simp: visits_def fun_eq_iff domIff)
    show "rs = map (asked c) (calls_where c (\<lambda>k. overdue now c k \<and> \<not> exhausted c k) ids)"
      "c1 = c\<lparr>cl_pending := \<lambda>i. map_option (swept now c) (cl_pending c i)\<rparr>"
      "tf = calls_where c (\<lambda>k. overdue now c k \<and> exhausted c k) ids"
      using retry_plan_sweep [of ids now c "[]"] assms(1,4) m by (simp_all add: visits_def)
  qed
  have le: "pk_attempts (?k i) \<le> cl_max_attempts c" if "i \<in> ?D" for i
    using assms(2) that by (auto simp: unspent_def ran_def)
  have "tries_left c1 = (\<Sum>i \<in> ?D. unat (cl_max_attempts c) - unat (pk_attempts (swept now c (?k i))))"
    unfolding tries_left_def plan(2) by (rule sum.cong) (auto simp: dom_def)
  then have "length rs + tries_left c1 = (\<Sum>i \<in> ?D. of_bool (overdue now c (?k i) \<and> \<not> exhausted c (?k i))
      + (unat (cl_max_attempts c) - unat (pk_attempts (swept now c (?k i)))))"
    by (simp add: plan(1) length_calls_where [OF assms(1)] sum.distrib)
  also have "\<dots> \<le> tries_left c"
    unfolding tries_left_def by (rule sum_mono) (rule swept_pays [OF le assms(3)])
  finally have "length rs + tries_left c1 \<le> tries_left c" .
  moreover have "tries_left (fold fail_call tf c1) \<le> tries_left c1"
    by (rule tries_left_submap(1)) (auto simp: fail_calls_pending map_le_def restrict_map_def split: if_splits)
  ultimately show "length rs + tries_left (fold fail_call tf c1) \<le> tries_left c" by simp
  show "unspent (fold fail_call tf c1)"
    unfolding unspent_def
  proof
    fix k assume "k \<in> ran (cl_pending (fold fail_call tf c1))"
    then obtain i k0 where k: "cl_pending c i = Some k0" "k = swept now c k0" "i \<notin> set tf"
      by (auto simp: ran_def fail_calls_pending restrict_map_def plan(2) split: if_splits)
    have "i \<in> set ids" using assms(1) k(1) by (auto simp: visits_def)
    then have "\<not> (overdue now c k0 \<and> exhausted c k0)" using k(1,3) by (auto simp: plan(3) calls_where_def)
    then show "pk_attempts k \<le> cl_max_attempts (fold fail_call tf c1)"
      using le [of i] k(1,2) by (auto simp: plan(2) swept_def exhausted_def)
  qed
qed

section \<open>Answers\<close>

text \<open>A request of the schedule: a short payload that decodes to an operation.\<close>

definition modest :: "request \<Rightarrow> bool" where
  "modest r \<longleftrightarrow> length (rq_payload r) \<le> 20 \<and> op_decode (rq_method r) (rq_payload r) \<noteq> None"

definition modest_cell :: "kv_cell \<Rightarrow> bool" where
  "modest_cell cell \<longleftrightarrow> (\<forall>x \<in> ran (fst cell). length x \<le> 20)"

definition modest_table :: "kv_server \<Rightarrow> bool" where
  "modest_table v \<longleftrightarrow> (\<forall>i a. sv_seen v i = Some a \<longrightarrow> rs_id a = i \<and> length (rs_payload a) \<le> 20)"

abbreviation kv_logged :: "kv_cell handler" where
  "kv_logged \<equiv> kv_handler log_execution"

lemma kv_logged_modest:
  assumes "modest_cell st" and "length p \<le> 20" and "op_decode m p \<noteq> None"
    and "kv_logged st m p = ((ok, resp), st')"
  shows "modest_cell st'" and "length resp \<le> 20" and "snd st' = snd st @ [(the (op_decode m p), ok, resp)]"
proof -
  obtain op where op: "op_decode m p = Some op" using assms(3) by blast
  have st': "st' = (fst (kv_apply (fst st) op), snd st @ [(op, ok, resp)])" "(ok, resp) = snd (kv_apply (fst st) op)"
    using assms(4) by (auto simp: kv_handler_def op log_execution_def split: prod.splits)
  have "length val \<le> 20" if "op = Put key val" for key val
    using op that assms(2) by (auto simp: op_decode_def Let_def split: if_splits)
  then show "modest_cell st'" "length resp \<le> 20"
    using assms(1) st' by (cases op; auto simp: modest_cell_def ran_def split: option.splits if_splits)+
  show "snd st' = snd st @ [(the (op_decode m p), ok, resp)]" by (simp add: st' op)
qed

text \<open>\<open>P\<close> says which operation each id of a client stands for. The entries a server has added to the
  shared log are, up to order, one per id in its table of answers.\<close>

definition asks :: "(u64 \<Rightarrow> op) \<Rightarrow> request \<Rightarrow> bool" where
  "asks P r \<longleftrightarrow> op_decode (rq_method r) (rq_payload r) = Some (P (rq_id r))"

definition executed :: "kv_server \<Rightarrow> u64 set" where
  "executed v = dom (sv_seen v)"

definition entry :: "(u64 \<Rightarrow> op) \<Rightarrow> kv_server \<Rightarrow> u64 \<Rightarrow> op \<times> bool \<times> bytes" where
  "entry P v i = (P i, rs_ok (the (sv_seen v i)), rs_payload (the (sv_seen v i)))"

definition contents :: "(u64 \<Rightarrow> op) \<Rightarrow> kv_server \<Rightarrow> (op \<times> bool \<times> bytes) multiset" where
  "contents P v = image_mset (entry P v) (mset_set (executed v))"

text \<open>Two stretches of work, each accounted for.\<close>

lemma carried_over:
  fixes l0 :: "'a multiset"
  assumes "l1 + c0 = l0 + c1" and "l2 + c1 = l1 + c2"
  shows "l2 + c0 = l0 + c2"
proof -
  have "(l2 + c0) + c1 = (l2 + c1) + c0" by (simp add: ac_simps)
  also have "\<dots> = (l0 + c2) + c1" using assms by (simp add: ac_simps)
  finally show ?thesis by simp
qed

lemma contents_seen: "sv_seen v = sv_seen v' \<Longrightarrow> contents P v = contents P v'"
  by (simp add: contents_def entry_def [abs_def] executed_def)

lemma contents_answer:
  assumes "sv_seen v i = None" and "sv_seen v' = (sv_seen v)(i \<mapsto> a)"
  shows "contents P v' = add_mset (P i, rs_ok a, rs_payload a) (contents P v)"
proof -
  have "image_mset (entry P v') (mset_set (executed v)) = image_mset (entry P v) (mset_set (executed v))"
    using assms by (intro image_mset_cong) (auto simp: entry_def executed_def)
  moreover have "executed v' = insert i (executed v)" "i \<notin> executed v" "entry P v' i = (P i, rs_ok a, rs_payload a)"
    using assms by (auto simp: executed_def entry_def)
  ultimately show ?thesis by (simp add: contents_def)
qed

lemma answer_modest:
  assumes "answer kv_logged v q = (a, v')" and "modest q" and "asks P q" and "modest_cell (sv_state v)"
    and "modest_table v"
  shows "modest_cell (sv_state v') \<and> modest_table v' \<and> length (rs_payload a) \<le> 20
    \<and> mset (snd (sv_state v')) + contents P v = mset (snd (sv_state v)) + contents P v'"
proof (cases "sv_seen v (rq_id q)")
  case (Some r)
  then have "a = r" "v' = v" using assms(1) by (simp_all add: answer_def)
  then show ?thesis
    using Some assms(4,5) by (auto simp: modest_table_def)
next
  case None
  obtain ok resp st where k: "kv_logged (sv_state v) (rq_method q) (rq_payload q) = ((ok, resp), st)"
    by (metis surj_pair)
  have v': "a = \<lparr>rs_id = rq_id q, rs_ok = ok, rs_payload = resp\<rparr>" "sv_state v' = st"
    "sv_seen v' = (sv_seen v)(rq_id q \<mapsto> a)"
    using assms(1) None k by (auto simp: answer_def Let_def)
  note K = kv_logged_modest [OF assms(4) _ _ k]
  have "snd st = snd (sv_state v) @ [(P (rq_id q), ok, resp)]"
    using K(3) assms(2,3) by (simp add: modest_def asks_def)
  then have "mset (snd (sv_state v')) + contents P v = mset (snd (sv_state v)) + contents P v'"
    using contents_answer [OF None v'(3), of P] v'(1,2) by simp
  then show ?thesis
    using K(1,2) assms(2,5) v' by (auto simp: modest_def modest_table_def)
qed

lemma answers_modest:
  "answers kv_logged v qs = (as, v') \<Longrightarrow> \<forall>q \<in> set qs. modest q \<and> asks P q \<Longrightarrow> modest_cell (sv_state v) \<Longrightarrow>
   modest_table v \<Longrightarrow>
   modest_cell (sv_state v') \<and> modest_table v' \<and> (\<forall>a \<in> set as. length (rs_payload a) \<le> 20)
   \<and> mset (snd (sv_state v')) + contents P v = mset (snd (sv_state v)) + contents P v'"
proof (induction qs arbitrary: v as)
  case (Cons q qs)
  obtain a v1 as' where s: "answer kv_logged v q = (a, v1)" "answers kv_logged v1 qs = (as', v')" "as = a # as'"
    using Cons.prems(1) by (auto split: prod.splits)
  have "modest q" "asks P q" using Cons.prems(2) by simp_all
  note A = answer_modest [OF s(1) this Cons.prems(3,4)]
  from this have B: "modest_cell (sv_state v')" "modest_table v'" "\<forall>a \<in> set as'. length (rs_payload a) \<le> 20"
    "mset (snd (sv_state v')) + contents P v1 = mset (snd (sv_state v1)) + contents P v'"
    using Cons.IH [OF s(2)] Cons.prems(2) by simp_all
  show ?case
    using carried_over [OF A [THEN conjunct2, THEN conjunct2, THEN conjunct2] B(4)] A B(1-3) s(3) by simp
qed simp

section \<open>The budget of a client\<close>

text \<open>\<open>Q\<close> are the requests put on the stream and \<open>d\<close> counts the outcomes polled. Two million calls of at
  most 60 attempts of at most 33 bytes leave the stream below \<open>2 ^ 32\<close>.\<close>

definition max_calls :: nat where "max_calls = 2000000"

definition affords :: "rpc_client \<Rightarrow> request list \<Rightarrow> nat \<Rightarrow> bool" where
  "affords c Q d \<longleftrightarrow> booked c \<and> issued c = live c + d \<and> issued c \<le> max_calls
     \<and> cl_max_attempts c = 60 \<and> unspent c \<and> length Q + tries_left c \<le> 60 * issued c
     \<and> (\<forall>r \<in> set Q. modest r)"

lemma affords_new: "affords (client_new c deadline 60) [] 0"
  by (simp add: affords_def booked_def issued_def live_def unspent_def tries_left_def client_new_def)

lemma affords_call:
  assumes "affords c Q d" and "client_call c now m p = Some (i, c', out)" and "issued c < max_calls"
    and "modest \<lparr>rq_id = i, rq_method = m, rq_payload = p\<rparr>"
  shows "affords c' (Q @ [\<lparr>rq_id = i, rq_method = m, rq_payload = p\<rparr>]) d"
    and "issued c' = Suc (issued c)"
proof -
  let ?k = "\<lparr>pk_request = \<lparr>rq_id = i, rq_method = m, rq_payload = p\<rparr>, pk_sent_at = now, pk_attempts = 1\<rparr>"
  note A = assms(1) [unfolded affords_def]
  have c': "cl_pending c' = (cl_pending c)(i \<mapsto> ?k)" "cl_max_attempts c' = cl_max_attempts c" "i = cl_next_id c"
    using assms(2) by (auto simp: client_call_def Let_def)
  have b: "booked c'" "issued c' = Suc (issued c)" "live c' = Suc (live c)"
    using booked_call [OF _ assms(2)] A assms(3) by (simp_all add: max_calls_def)
  have new: "i \<notin> dom (cl_pending c)" using A c'(3) by (auto simp: booked_def)
  have "tries_left c' = 59 + (\<Sum>j \<in> dom (cl_pending c). 60 - unat (pk_attempts (the (cl_pending c' j))))"
    using new A by (simp add: tries_left_def c'(1,2))
  also have "(\<Sum>j \<in> dom (cl_pending c). 60 - unat (pk_attempts (the (cl_pending c' j)))) = tries_left c"
    unfolding tries_left_def using new A by (intro sum.cong) (auto simp: c'(1))
  finally have "tries_left c' = 59 + tries_left c" .
  moreover have "unspent c'" using A new by (auto simp: unspent_def c' ran_def)
  ultimately show "affords c' (Q @ [\<lparr>rq_id = i, rq_method = m, rq_payload = p\<rparr>]) d"
    using A b c'(2) assms(3,4) by (simp add: affords_def)
  show "issued c' = Suc (issued c)" by (rule b)
qed

text \<open>What an operation that neither issues nor polls has to keep.\<close>

lemma affords_keep:
  assumes "affords c Q d" and "keeps_books c c'" and "cl_max_attempts c' = cl_max_attempts c" and "unspent c'"
    and "length rs + tries_left c' \<le> tries_left c" and "set rs \<subseteq> set Q"
  shows "affords c' (Q @ rs) d"
  using assms by (auto simp: affords_def keeps_books_def)

lemma take_response_submap:
  "cl_pending (take_response f c) \<subseteq>\<^sub>m cl_pending c \<and> cl_max_attempts (take_response f c) = cl_max_attempts c"
  by (auto simp: take_response_def map_le_def split: option.split)

lemma fold_responses_submap:
  "cl_pending (fold take_response fs c) \<subseteq>\<^sub>m cl_pending c
     \<and> cl_max_attempts (fold take_response fs c) = cl_max_attempts c"
proof (induction fs arbitrary: c)
  case (Cons f fs)
  show ?case using Cons [of "take_response f c"] take_response_submap [of f c] map_le_trans by auto
qed simp

lemma affords_datagram:
  assumes "affords c Q d" and "client_on_datagram c now dg = Some (c', out)"
  shows "affords c' Q d" and "issued c' = issued c"
proof -
  have k: "keeps_books c c'"
    using client_on_datagram_books [OF _ assms(2)] assms(1) by (simp add: affords_def)
  obtain cn rd fs where "c' = fold take_response fs (c\<lparr>cl_conn := cn, cl_reader := rd\<rparr>)"
    using assms(2) by (auto simp: client_on_datagram_def split: bind_splits prod.splits)
  then have sub: "cl_pending c' \<subseteq>\<^sub>m cl_pending c" "cl_max_attempts c' = cl_max_attempts c"
    using fold_responses_submap [of fs "c\<lparr>cl_conn := cn, cl_reader := rd\<rparr>"] by simp_all
  show "affords c' Q d"
    using affords_keep [OF assms(1) k sub(2), of "[]"] tries_left_submap [OF sub] assms(1) by (simp add: affords_def)
  show "issued c' = issued c" using k by (simp add: keeps_books_def)
qed

lemma affords_tick:
  assumes "affords c Q d" and "visits ids c" and "client_on_tick ids c now = Some (c', out)"
    and "rs = fst (retry_plan now ids c [])" and "set rs \<subseteq> set Q"
  shows "affords c' (Q @ rs) d" and "issued c' = issued c"
proof -
  note A = assms(1) [unfolded affords_def]
  have k: "keeps_books c c'" using client_on_tick_books [OF _ assms(2,3)] A by blast
  obtain c1 tf where plan: "retry_plan now ids c [] = (rs, c1, tf)" using assms(4) by (metis prod.collapse)
  have c': "c' = fold fail_call tf (c1\<lparr>cl_conn := cl_conn c'\<rparr>)"
    using client_tick_run(2) [OF assms(3), of "\<lparr>ep_conn = cl_conn c, ep_wire = [], ep_sent = [], ep_recvd = []\<rparr>"] plan
    by simp
  have "retry_plan now ids (c\<lparr>cl_conn := cl_conn c'\<rparr>) [] = (rs, c1\<lparr>cl_conn := cl_conn c'\<rparr>, tf)"
    using plan by (simp add: retry_plan_frame)
  note pays = sweep_pays [OF _ _ _ this, folded c']
  have same: "visits ids (c\<lparr>cl_conn := cn\<rparr>) = visits ids c" "unspent (c\<lparr>cl_conn := cn\<rparr>) = unspent c"
    "tries_left (c\<lparr>cl_conn := cn\<rparr>) = tries_left c" for cn
    by (simp_all add: visits_def unspent_def tries_left_def)
  have "cl_max_attempts c1 = cl_max_attempts c"
    using retry_plan_ok [OF plan] assms(2) by (auto simp: visits_def)
  then have "cl_max_attempts c' = cl_max_attempts c" by (subst c') simp
  then show "affords c' (Q @ rs) d"
    using affords_keep [OF assms(1) k _ _ _ assms(5)] pays A assms(2) by (simp add: same)
  show "issued c' = issued c" using k by (simp add: keeps_books_def)
qed

lemma affords_poll:
  assumes "affords c Q d" and "poll_completed c = (ds, c1)" and "poll_failed c1 = (fs, c')"
  shows "affords c' Q (d + length ds + length fs)" and "issued c' = issued c"
  using assms by (auto simp: affords_def poll_completed_def poll_failed_def booked_def issued_def live_def
      unspent_def tries_left_def)

end
