(* ===== verification/Chaos_Link.thy ===== *)
theory Chaos_Link
  imports Chaos_Budget
begin

text \<open>
  One client of a chaos run with its server and its two channels, within the budget of
  \<open>Chaos_Budget\<close>: a joined pair of the theory \<open>Wire\<close> on which every operation of a tick returns, whose
  budget survives it, and whose executions are counted by the table of its server.
\<close>

section \<open>A link within its budget\<close>

definition solvent :: "kv_cell rpc_sys \<Rightarrow> bool" where
  "solvent s \<longleftrightarrow> affords (sy_client s) (sy_issued s) (length (sy_done s) + length (sy_lost s))
     \<and> modest_table (sy_server s)"

lemma request_stream: "\<forall>r \<in> set Q. modest r \<Longrightarrow> length (concat (map request_frame Q)) \<le> 33 * length Q"
  by (induction Q) (auto simp: rpc_frame_def modest_def)

lemma response_stream:
  "\<forall>a \<in> set as. length (rs_payload a) \<le> 20 \<Longrightarrow> length (concat (map response_frame as)) \<le> 33 * length as"
  by (induction as) (auto simp: rpc_frame_def)

lemma issued_bound: "affords c Q d \<Longrightarrow> length Q \<le> 60 * max_calls"
  by (simp add: affords_def)

lemma affords_sweep:
  assumes "affords c Q d" and "visits ids c" and "retry_plan now ids c [] = (rs, c1, tf)"
  shows "length Q + length rs \<le> 60 * max_calls"
  using sweep_pays(1) [OF assms(2) _ _ assms(3)] assms(1) by (simp add: affords_def)

lemma client_room:
  assumes "sys_core s" and "affords (sy_client s) (sy_issued s) d"
  shows "length (ep_sent (cl_end s)) \<le> 33 * length (sy_issued s)" and "room (cl_end s)"
proof -
  show "length (ep_sent (cl_end s)) \<le> 33 * length (sy_issued s)"
    using assms request_stream [of "sy_issued s"]
    by (simp add: affords_def sys_core_def client_side_def Let_def)
  with issued_bound [OF assms(2)] show "room (cl_end s)" by (simp add: room_def max_calls_def)
qed

lemma answers_small:
  assumes "sys_core s" and "modest_table (sy_server s)"
  shows "\<forall>a \<in> set (sy_answers s). length (rs_payload a) \<le> 20"
  using assms by (force simp: sys_core_def server_side_def Let_def modest_table_def ran_def)

lemma server_room:
  assumes "sys_core s" and "solvent s"
  shows "length (ep_sent (sv_end s)) \<le> 33 * length (sy_handled s)" and "room (sv_end s)"
proof -
  have "length (sy_handled s) \<le> length (sy_issued s)"
    using sys_core_streams(1) [OF assms(1)] prefix_length_le by blast
  moreover show "length (ep_sent (sv_end s)) \<le> 33 * length (sy_handled s)"
    using assms response_stream [OF answers_small]
    by (simp add: solvent_def sys_core_def server_side_def Let_def)
  ultimately show "room (sv_end s)"
    using issued_bound assms(2) by (fastforce simp: solvent_def room_def max_calls_def)
qed

text \<open>The pair of a link and its server, as a list of them makes up the state of a run.\<close>

abbreviation client_of :: "kv_cell wire \<Rightarrow> rpc_client" where
  "client_of w \<equiv> sy_client (wr_sys w)"

abbreviation server_of :: "kv_cell wire \<Rightarrow> kv_server" where
  "server_of w \<equiv> sy_server (wr_sys w)"

definition link_of :: "kv_cell wire \<Rightarrow> client_link" where
  "link_of w = \<lparr>kl_client = client_of w, kl_c2s = wr_up w, kl_s2c = wr_down w\<rparr>"

definition sound :: "kv_cell wire \<Rightarrow> bool" where
  "sound w \<longleftrightarrow> joined w \<and> solvent (wr_sys w)"

text \<open>What the operations of one side leave alone.\<close>

definition same_books :: "kv_cell wire \<Rightarrow> kv_cell wire \<Rightarrow> bool" where
  "same_books w w' \<longleftrightarrow> issued (client_of w') = issued (client_of w)
     \<and> sy_done (wr_sys w') = sy_done (wr_sys w) \<and> sy_lost (wr_sys w') = sy_lost (wr_sys w)
     \<and> set (sy_issued (wr_sys w')) = set (sy_issued (wr_sys w))"

text \<open>Every request a client has put on its stream asks for the operation its id stands for.\<close>

definition asking :: "(u64 \<Rightarrow> op) \<Rightarrow> kv_cell wire \<Rightarrow> bool" where
  "asking P w \<longleftrightarrow> (\<forall>r \<in> set (sy_issued (wr_sys w)). asks P r)"

lemma asking_cong: "set (sy_issued (wr_sys w')) = set (sy_issued (wr_sys w)) \<Longrightarrow> asking P w' = asking P w"
  by (simp add: asking_def)

definition client_only :: "kv_cell wire \<Rightarrow> kv_cell wire \<Rightarrow> bool" where
  "client_only w w' \<longleftrightarrow> sound w' \<and> same_books w w' \<and> server_of w' = server_of w
     \<and> wr_down w' = wr_down w \<and> wr_at_server w' = wr_at_server w"

definition server_only :: "kv_cell wire \<Rightarrow> kv_cell wire \<Rightarrow> bool" where
  "server_only w w' \<longleftrightarrow> sound w' \<and> same_books w w' \<and> client_of w' = client_of w
     \<and> wr_up w' = wr_up w \<and> wr_at_client w' = wr_at_client w"

lemma one_sided_refl: "sound w \<Longrightarrow> client_only w w" "sound w \<Longrightarrow> server_only w w"
  by (simp_all add: client_only_def server_only_def same_books_def)

lemma one_sided_trans:
  "client_only w w' \<Longrightarrow> client_only w' w'' \<Longrightarrow> client_only w w''"
  "server_only w w' \<Longrightarrow> server_only w' w'' \<Longrightarrow> server_only w w''"
  by (simp_all add: client_only_def server_only_def same_books_def)

section \<open>The client's side\<close>

lemma sound_client_datagram:
  assumes "sound w" and "wr_at_client w = d # ds"
  obtains out w' where "client_on_datagram (client_of w) now d = Some (client_of w', out)"
    "send_all out (wr_up w) = Some (wr_up w')" "client_only w w'" "wr_at_client w' = ds"
proof -
  let ?s = "wr_sys w"
  have J: "joined w" and S: "solvent ?s" and core: "sys_core ?s"
    using assms(1) by (simp_all add: sound_def joined_def)
  have con: "consume (ToClient now d) w = Some (w\<lparr>wr_at_client := ds\<rparr>)" using assms(2) by simp
  obtain out s' where s': "client_on_datagram (client_of w) now d = Some (sy_client s', out)"
    "sys_move kv_logged (ToClient now d) ?s s'" "emitted (cl_end ?s) (cl_end s') = out"
    "sv_end s' = sv_end ?s" "sy_server s' = server_of w" "sy_done s' = sy_done ?s" "sy_lost s' = sy_lost ?s"
    "sy_issued s' = sy_issued ?s" "ep_sent (cl_end s') = ep_sent (cl_end ?s)"
    by (rule client_datagram_returns [OF core consume_arrives(1) [OF con J], of kv_logged])
  note A = affords_datagram [OF S [unfolded solvent_def, THEN conjunct1] s'(1)]
  have "room (cl_end s')" using J s'(9) by (simp add: joined_def flows_def room_def)
  then obtain up where up: "send_all out (wr_up w) = Some up"
    "joined (w\<lparr>wr_at_client := ds\<rparr>\<lparr>wr_sys := s', wr_up := up\<rparr>)"
    using joined_client_act [OF J con s'(2) _ s'(4)] s'(3) by blast
  show thesis
    by (rule that [of "w\<lparr>wr_at_client := ds\<rparr>\<lparr>wr_sys := s', wr_up := up\<rparr>" out])
      (use s' up A S in \<open>simp_all add: client_only_def sound_def solvent_def same_books_def\<close>)
qed

lemma client_arrivals_total:
  assumes "sound w"
  shows "\<exists>w'. client_arrivals now (wr_at_client w) (client_of w) (wr_up w) = Some (client_of w', wr_up w')
    \<and> client_only w w' \<and> wr_at_client w' = []"
  using assms
proof (induction "wr_at_client w" arbitrary: w)
  case Nil
  then show ?case using one_sided_refl(1) by (intro exI [of _ w]) (simp flip: Nil.hyps)
next
  case (Cons d ds)
  obtain out w1 where w1: "client_on_datagram (client_of w) now d = Some (client_of w1, out)"
    "send_all out (wr_up w) = Some (wr_up w1)" "client_only w w1" "wr_at_client w1 = ds"
    by (rule sound_client_datagram [OF Cons.prems Cons.hyps(2) [symmetric]])
  have "\<exists>w'. client_arrivals now (wr_at_client w1) (client_of w1) (wr_up w1) = Some (client_of w', wr_up w')
      \<and> client_only w1 w' \<and> wr_at_client w' = []"
    using Cons.hyps(1) [of w1] w1(3,4) by (simp add: client_only_def)
  with w1 one_sided_trans(1) [OF w1(3)] show ?case by (auto simp flip: Cons.hyps(2))
qed

lemma sound_client_tick:
  assumes "sound w" and "visits ids (client_of w)"
  obtains out w' where "client_on_tick ids (client_of w) now = Some (client_of w', out)"
    "send_all out (wr_up w) = Some (wr_up w')" "client_only w w'" "wr_at_client w' = wr_at_client w"
proof -
  let ?s = "wr_sys w"
  have J: "joined w" and core: "sys_core ?s" and S: "affords (client_of w) (sy_issued ?s) (length (sy_done ?s) + length (sy_lost ?s))"
    "modest_table (server_of w)" using assms(1) by (simp_all add: sound_def joined_def solvent_def)
  define rs where "rs = fst (retry_plan now ids (client_of w) [])"
  obtain c1 tf where plan: "retry_plan now ids (client_of w) [] = (rs, c1, tf)" by (metis rs_def prod.collapse)
  have "\<forall>i r. calls (client_of w) i = Some r \<longrightarrow> r \<in> set (sy_issued ?s)"
    using core by (simp add: sys_core_def client_side_def Let_def client_ok_def ledger_def)
  moreover have "set rs \<subseteq> ran (calls (client_of w))" using retry_plan_ok [OF plan] assms(2) by (auto simp: visits_def)
  ultimately have sub: "set rs \<subseteq> set (sy_issued ?s)" by (auto simp: ran_def)
  then have "\<forall>r \<in> set rs. modest r" using S(1) by (auto simp: affords_def)
  then have len: "length (ep_sent (cl_end ?s) @ concat (map request_frame rs)) + 42 < 2 ^ 32"
    using client_room(1) [OF core S(1)] affords_sweep [OF S(1) assms(2) plan] request_stream [of rs]
    by (simp add: max_calls_def)
  have con: "consume Internal w = Some w" by simp
  obtain out s' where s': "client_on_tick ids (client_of w) now = Some (sy_client s', out)"
    "sys_move kv_logged Internal ?s s'" "emitted (cl_end ?s) (cl_end s') = out"
    "sv_end s' = sv_end ?s" "sy_server s' = server_of w" "sy_done s' = sy_done ?s" "sy_lost s' = sy_lost ?s"
    "sy_issued s' = sy_issued ?s @ rs" "ep_sent (cl_end s') = ep_sent (cl_end ?s) @ concat (map request_frame rs)"
    by (rule client_tick_returns [OF core assms(2) rs_def, of kv_logged]) (use len in simp)
  note A = affords_tick [OF S(1) assms(2) s'(1) rs_def sub]
  have "room (cl_end s')" using len s'(9) by (simp add: room_def)
  then obtain up where up: "send_all out (wr_up w) = Some up" "joined (w\<lparr>wr_sys := s', wr_up := up\<rparr>)"
    using joined_client_act [OF J con s'(2) _ s'(4)] s'(3) by blast
  show thesis
    by (rule that [of "w\<lparr>wr_sys := s', wr_up := up\<rparr>" out])
      (use s' up A S sub in \<open>simp_all add: client_only_def sound_def solvent_def same_books_def sup.absorb1\<close>)
qed

lemma sound_call:
  assumes "sound w" and "issued (client_of w) < max_calls"
    and op: "length (encode_payload op) \<le> 20" "op_decode (op_method op) (encode_payload op) = Some op"
  obtains i out w' where "kv_call (client_of w) now op = Some (i, client_of w', out)"
    "send_all out (wr_up w) = Some (wr_up w')" "sound w'" "server_of w' = server_of w"
    "wr_down w' = wr_down w" "wr_at_server w' = wr_at_server w" "wr_at_client w' = wr_at_client w"
    "issued (client_of w') = Suc (issued (client_of w))"
    "sy_done (wr_sys w') = sy_done (wr_sys w)" "sy_lost (wr_sys w') = sy_lost (wr_sys w)"
    "asks P \<lparr>rq_id = cl_next_id (client_of w), rq_method = op_method op, rq_payload = encode_payload op\<rparr>
       \<and> asking P w \<longrightarrow> asking P w'"
proof -
  let ?s = "wr_sys w"
  have J: "joined w" and core: "sys_core ?s" and S: "affords (client_of w) (sy_issued ?s) (length (sy_done ?s) + length (sy_lost ?s))"
    "modest_table (server_of w)" using assms(1) by (simp_all add: sound_def joined_def solvent_def)
  have "length (sy_issued ?s) \<le> 60 * issued (client_of w)" using S(1) by (simp add: affords_def)
  then have len: "length (ep_sent (cl_end ?s)) + 33 + 42 < 2 ^ 32"
    using client_room(1) [OF core S(1)] assms(2) by (simp add: max_calls_def)
  have con: "consume Internal w = Some w" by simp
  obtain i out s' where s': "client_call (client_of w) now (op_method op) (encode_payload op) = Some (i, sy_client s', out)"
    "sys_move kv_logged Internal ?s s'" "emitted (cl_end ?s) (cl_end s') = out"
    "sv_end s' = sv_end ?s" "sy_server s' = server_of w" "sy_done s' = sy_done ?s" "sy_lost s' = sy_lost ?s"
    "sy_issued s' = sy_issued ?s @ [\<lparr>rq_id = i, rq_method = op_method op, rq_payload = encode_payload op\<rparr>]"
    "ep_sent (cl_end s') = concat (map request_frame (sy_issued s'))"
    by (rule call_returns [OF core, of "encode_payload op" now "op_method op" kv_logged]) (use len op in auto)
  have "modest \<lparr>rq_id = i, rq_method = op_method op, rq_payload = encode_payload op\<rparr>"
    using op by (simp add: modest_def)
  note A = affords_call [OF S(1) s'(1) assms(2) this]
  have id: "i = cl_next_id (client_of w)" using s'(1) by (auto simp: client_call_def Let_def)
  have "sys_core s'" using sys_core_step [OF core] sys_step.move [OF s'(2)] by simp
  then have "room (cl_end s')" using client_room(2) [of s'] A(1) s'(8) by simp
  then obtain up where up: "send_all out (wr_up w) = Some up" "joined (w\<lparr>wr_sys := s', wr_up := up\<rparr>)"
    using joined_client_act [OF J con s'(2) _ s'(4)] s'(3) by blast
  show thesis
    by (rule that [of i "w\<lparr>wr_sys := s', wr_up := up\<rparr>" out])
      (use s' up A S in \<open>simp_all add: sound_def solvent_def kv_call_def asking_def id\<close>)
qed

section \<open>The server's side\<close>

text \<open>The server borrows the shared cell for the datagram.\<close>

definition lend :: "kv_cell \<Rightarrow> kv_cell wire \<Rightarrow> kv_cell wire" where
  "lend cell w = w\<lparr>wr_sys := (wr_sys w)\<lparr>sy_server := borrow cell (server_of w)\<rparr>\<rparr>"

lemma lend_fields [simp]:
  "server_of (lend cell w) = borrow cell (server_of w)" "client_of (lend cell w) = client_of w"
  "wr_up (lend cell w) = wr_up w" "wr_down (lend cell w) = wr_down w"
  "wr_at_server (lend cell w) = wr_at_server w" "wr_at_client (lend cell w) = wr_at_client w"
  "sy_link (wr_sys (lend cell w)) = sy_link (wr_sys w)"
  "sy_done (wr_sys (lend cell w)) = sy_done (wr_sys w)" "sy_lost (wr_sys (lend cell w)) = sy_lost (wr_sys w)"
  "sv_seen (borrow cell v) = sv_seen v" "sv_state (borrow cell v) = cell"
  by (simp_all add: lend_def borrow_def)

lemma sound_lend: "sound w \<Longrightarrow> sound (lend cell w)"
  by (simp add: sound_def joined_def solvent_def sys_core_def client_side_def server_side_def Let_def
      modest_table_def lend_def borrow_def)

lemma sound_server_datagram:
  assumes "sound w" and "wr_at_server w = d # ds" and "modest_cell (sv_state (server_of w))" and "asking P w"
  obtains out w' where "server_on_datagram kv_logged (server_of w) now d = Some (server_of w', out)"
    "send_all out (wr_down w) = Some (wr_down w')" "server_only w w'" "wr_at_server w' = ds"
    "modest_cell (sv_state (server_of w'))"
    "mset (snd (sv_state (server_of w'))) + contents P (server_of w)
      = mset (snd (sv_state (server_of w))) + contents P (server_of w')"
proof -
  let ?s = "wr_sys w"
  have J: "joined w" and S: "solvent ?s" and core: "sys_core ?s"
    using assms(1) by (simp_all add: sound_def joined_def)
  have con: "consume (ToServer now d) w = Some (w\<lparr>wr_at_server := ds\<rparr>)" using assms(2) by simp
  note arr = consume_arrives(1) [OF con J]
  obtain as v where a: "answers kv_logged (server_of w) (read_requests ?s now d) = (as, v)" by fastforce
  have pre: "prefix (sy_handled ?s @ read_requests ?s now d) (sy_issued ?s)"
    by (rule requests_read_prefix [OF core arr])
  then have qs: "\<forall>q \<in> set (read_requests ?s now d). modest q \<and> asks P q"
    using S assms(4) set_mono_prefix [OF pre] by (auto simp: solvent_def affords_def asking_def)
  note M = answers_modest [OF a qs assms(3) S [unfolded solvent_def, THEN conjunct2]]
  have "length as = length (read_requests ?s now d)" using answers_seen [OF a] by simp
  then have len: "length (ep_sent (sv_end ?s) @ concat (map response_frame as)) + 42 < 2 ^ 32"
    using server_room(1) [OF core S] response_stream [of as] M prefix_length_le [OF pre] issued_bound S
    by (fastforce simp: solvent_def max_calls_def)
  obtain out s' where s': "server_on_datagram kv_logged (server_of w) now d = Some (sy_server s', out)"
    "sys_move kv_logged (ToServer now d) ?s s'" "emitted (sv_end ?s) (sv_end s') = out"
    "cl_end s' = cl_end ?s" "sy_client s' = client_of w" "sy_done s' = sy_done ?s" "sy_lost s' = sy_lost ?s"
    "sy_issued s' = sy_issued ?s" "ep_sent (sv_end s') = ep_sent (sv_end ?s) @ concat (map response_frame as)"
    "sv_seen (sy_server s') = sv_seen v" "sv_state (sy_server s') = sv_state v"
    by (rule server_datagram_returns [OF core arr a]) (use len in simp)
  have "room (sv_end s')" using len s'(9) by (simp add: room_def)
  then obtain down where down: "send_all out (wr_down w) = Some down"
    "joined (w\<lparr>wr_at_server := ds\<rparr>\<lparr>wr_sys := s', wr_down := down\<rparr>)"
    using joined_server_act [OF J con s'(2) _ s'(4)] s'(3) by blast
  show thesis
    by (rule that [of "w\<lparr>wr_at_server := ds\<rparr>\<lparr>wr_sys := s', wr_down := down\<rparr>" out])
      (use s' down S M contents_seen [OF s'(10), of P] in
        \<open>simp_all add: server_only_def sound_def solvent_def same_books_def modest_table_def\<close>)
qed

lemma serve_arrivals_total:
  assumes "sound w" and "modest_cell cell" and "asking P w"
  shows "\<exists>cell' w'. serve_arrivals now (wr_at_server w) cell (server_of w) (wr_down w)
      = Some (cell', server_of w', wr_down w')
    \<and> server_only w w' \<and> wr_at_server w' = [] \<and> modest_cell cell'
    \<and> mset (snd cell') + contents P (server_of w) = mset (snd cell) + contents P (server_of w')"
  using assms
proof (induction "wr_at_server w" arbitrary: w cell)
  case Nil
  then show ?case using one_sided_refl(2) by (intro exI [of _ cell] exI [of _ w]) (simp flip: Nil.hyps)
next
  case (Cons d ds)
  have lent: "sound (lend cell w)" "wr_at_server (lend cell w) = d # ds"
    "modest_cell (sv_state (server_of (lend cell w)))" "asking P (lend cell w)"
    using Cons.prems Cons.hyps(2) by (simp_all add: sound_lend) (simp add: asking_def lend_def)
  obtain out w1 where w1: "server_on_datagram kv_logged (borrow cell (server_of w)) now d = Some (server_of w1, out)"
    "send_all out (wr_down w) = Some (wr_down w1)" "server_only (lend cell w) w1" "wr_at_server w1 = ds"
    "modest_cell (sv_state (server_of w1))"
    "mset (snd (sv_state (server_of w1))) + contents P (server_of w) = mset (snd cell) + contents P (server_of w1)"
    by (rule sound_server_datagram [OF lent, of now, unfolded lend_fields])
      (simp add: contents_seen [of "borrow cell (server_of w)" "server_of w"])
  have s: "server_only w w1" using w1(3) by (simp add: server_only_def same_books_def lend_def)
  then have ask: "asking P w1" using Cons.prems(3) asking_cong [of w1 w P] by (simp add: server_only_def same_books_def)
  from Cons.hyps(1) [OF w1(4) [symmetric] _ w1(5) ask] w1(3,4)
  obtain cell' w' where w': "serve_arrivals now ds (sv_state (server_of w1)) (server_of w1) (wr_down w1)
      = Some (cell', server_of w', wr_down w')" "server_only w1 w'" "wr_at_server w' = []" "modest_cell cell'"
    "mset (snd cell') + contents P (server_of w1) = mset (snd (sv_state (server_of w1))) + contents P (server_of w')"
    by (auto simp: server_only_def)
  have "mset (snd cell') + contents P (server_of w) = mset (snd cell) + contents P (server_of w')"
    using carried_over [OF w1(6) w'(5)] .
  then show ?case
    using w1(1,2) w' one_sided_trans(2) [OF s w'(2)]
    by (intro exI [of _ cell'] exI [of _ w']) (simp flip: Cons.hyps(2))
qed

lemma sound_server_tick:
  assumes "sound w"
  obtains out w' where "server_on_tick (server_of w) now = Some (server_of w', out)"
    "send_all out (wr_down w) = Some (wr_down w')" "server_only w w'" "wr_at_server w' = wr_at_server w"
    "sv_seen (server_of w') = sv_seen (server_of w)"
proof -
  let ?s = "wr_sys w"
  have J: "joined w" and S: "solvent ?s" and core: "sys_core ?s"
    using assms(1) by (simp_all add: sound_def joined_def)
  have con: "consume Internal w = Some w" by simp
  obtain out s' where s': "server_on_tick (server_of w) now = Some (sy_server s', out)"
    "sys_move kv_logged Internal ?s s'" "emitted (sv_end ?s) (sv_end s') = out"
    "cl_end s' = cl_end ?s" "sy_client s' = client_of w" "sy_done s' = sy_done ?s" "sy_lost s' = sy_lost ?s"
    "sy_issued s' = sy_issued ?s" "ep_sent (sv_end s') = ep_sent (sv_end ?s)"
    "sv_seen (sy_server s') = sv_seen (server_of w)"
    by (rule server_tick_returns [OF core, of now kv_logged])
  have "room (sv_end s')" using J s'(9) by (simp add: joined_def flows_def room_def)
  then obtain down where down: "send_all out (wr_down w) = Some down" "joined (w\<lparr>wr_sys := s', wr_down := down\<rparr>)"
    using joined_server_act [OF J con s'(2) _ s'(4)] s'(3) by blast
  show thesis
    by (rule that [of "w\<lparr>wr_sys := s', wr_down := down\<rparr>" out])
      (use s' down S in \<open>simp_all add: server_only_def sound_def solvent_def same_books_def modest_table_def\<close>)
qed

section \<open>One tick\<close>

text \<open>Between two ticks nothing waits outside the channels.\<close>

definition ready :: "kv_cell wire \<Rightarrow> bool" where
  "ready w \<longleftrightarrow> sound w \<and> wr_at_server w = [] \<and> wr_at_client w = []"

lemma sound_due:
  assumes "sound w" and "wr_at_server w = []"
  obtains w' where "channel_advance now (wr_up w) = Some (wr_at_server w', wr_up w')" "sound w'"
    "wr_sys w' = wr_sys w" "wr_down w' = wr_down w" "wr_at_client w' = wr_at_client w"
proof -
  obtain ds up where "channel_advance now (wr_up w) = Some (ds, up)"
    "joined (w\<lparr>wr_up := up, wr_at_server := wr_at_server w @ ds\<rparr>)"
    by (rule joined_due [of w now]) (use assms in \<open>simp add: sound_def\<close>)
  with that [of "w\<lparr>wr_up := up, wr_at_server := ds\<rparr>"] assms show thesis by (simp add: sound_def)
qed

lemma sound_due_back:
  assumes "sound w" and "wr_at_client w = []"
  obtains w' where "channel_advance now (wr_down w) = Some (wr_at_client w', wr_down w')" "sound w'"
    "wr_sys w' = wr_sys w" "wr_up w' = wr_up w" "wr_at_server w' = wr_at_server w"
proof -
  obtain ds down where "channel_advance now (wr_down w) = Some (ds, down)"
    "joined (w\<lparr>wr_down := down, wr_at_client := wr_at_client w @ ds\<rparr>)"
    by (rule joined_due_back [of w now]) (use assms in \<open>simp add: sound_def\<close>)
  with that [of "w\<lparr>wr_down := down, wr_at_client := ds\<rparr>"] assms show thesis by (simp add: sound_def)
qed

lemma pump_total:
  assumes "ready w" and "modest_cell cell" and "orderly ord" and "asking P w"
  shows "\<exists>cell' w'. pump ord tick i cell (link_of w) (server_of w) = Some (cell', link_of w', server_of w')
    \<and> ready w' \<and> same_books w w' \<and> modest_cell cell'
    \<and> mset (snd cell') + contents P (server_of w) = mset (snd cell) + contents P (server_of w')"
proof -
  let ?now = "Tick tick"
  have w: "sound w" "wr_at_server w = []" "wr_at_client w = []" using assms(1) by (simp_all add: ready_def)
  obtain w1 where w1: "channel_advance ?now (wr_up w) = Some (wr_at_server w1, wr_up w1)" "sound w1"
    "wr_sys w1 = wr_sys w" "wr_down w1 = wr_down w" "wr_at_client w1 = wr_at_client w"
    by (rule sound_due [OF w(1,2)])
  have "asking P w1" using assms(4) by (simp add: asking_def w1(3))
  from serve_arrivals_total [OF w1(2) assms(2) this, of ?now] obtain cell' w2 where
    w2: "serve_arrivals ?now (wr_at_server w1) cell (server_of w1) (wr_down w1) = Some (cell', server_of w2, wr_down w2)"
    "server_only w1 w2" "wr_at_server w2 = []" "modest_cell cell'"
    "mset (snd cell') + contents P (server_of w1) = mset (snd cell) + contents P (server_of w2)"
    by auto
  have s2: "sound w2" "wr_at_client w2 = []" "client_of w2 = client_of w" "wr_up w2 = wr_up w1"
    using w2(2) w1(3,5) w(3) by (simp_all add: server_only_def)
  obtain w3 where w3: "channel_advance ?now (wr_down w2) = Some (wr_at_client w3, wr_down w3)" "sound w3"
    "wr_sys w3 = wr_sys w2" "wr_up w3 = wr_up w2" "wr_at_server w3 = wr_at_server w2"
    by (rule sound_due_back [OF s2(1,2)])
  from client_arrivals_total [OF w3(2), of ?now] obtain w4 where
    w4: "client_arrivals ?now (wr_at_client w3) (client_of w3) (wr_up w3) = Some (client_of w4, wr_up w4)"
    "client_only w3 w4" "wr_at_client w4 = []" by blast
  have s4: "sound w4" using w4(2) by (simp add: client_only_def)
  have "visits (ord tick i (client_of w4)) (client_of w4)" using assms(3) by (simp add: orderly_def)
  from sound_client_tick [OF s4 this] obtain out w5 where
    w5: "client_on_tick (ord tick i (client_of w4)) (client_of w4) ?now = Some (client_of w5, out)"
    "send_all out (wr_up w4) = Some (wr_up w5)" "client_only w4 w5" "wr_at_client w5 = wr_at_client w4" .
  have s5: "sound w5" using w5(3) by (simp add: client_only_def)
  obtain out' w6 where w6: "server_on_tick (server_of w5) ?now = Some (server_of w6, out')"
    "send_all out' (wr_down w5) = Some (wr_down w6)" "server_only w5 w6" "wr_at_server w6 = wr_at_server w5"
    "sv_seen (server_of w6) = sv_seen (server_of w5)"
    by (rule sound_server_tick [OF s5])
  have "contents P (server_of w6) = contents P (server_of w2)"
    using w6(5) w5(3) w4(2) w3(3) by (intro contents_seen) (simp add: client_only_def)
  then show ?thesis
    using w1 w2 s2 w3 w4 w5 w6
    by (intro exI [of _ cell'] exI [of _ w6])
      (simp add: pump_def Let_def link_of_def ready_def client_only_def server_only_def same_books_def)
qed

end
