(* ===== verification/Chaos_Total.thy ===== *)
theory Chaos_Total
  imports Chaos_Link
begin

text \<open>
  Every chaos run returns. The links and servers of a run are the image of a list of pairs of the
  theory \<open>Chaos_Link\<close>, and every operation of a tick maps to their moves. The same invariant accounts
  for the log, entry by entry, and relates it to what the run reported of its calls.
\<close>

section \<open>The state of a run\<close>

text \<open>The operation behind an id of client \<open>j\<close>.\<close>

definition asked_by :: "(u64 \<times> nat \<times> op) list \<Rightarrow> nat \<Rightarrow> u64 \<Rightarrow> op" where
  "asked_by sc j i = scheduled sc j ! unat i"

text \<open>The pairs \<open>ws\<close> stand for the links and servers of \<open>s\<close>, \<open>R\<close> is what has been reported, and the log holds
  what the servers have executed.\<close>

definition tracks :: "(u64 \<times> nat \<times> op) list \<Rightarrow> report list \<Rightarrow> chaos \<Rightarrow> kv_cell wire list \<Rightarrow> bool" where
  "tracks sc R s ws \<longleftrightarrow> co_links s = map link_of ws \<and> co_servers s = map server_of ws
     \<and> (\<forall>w \<in> set ws. ready w) \<and> modest_cell (co_cell s) \<and> co_fired s \<le> length sc
     \<and> (\<forall>j < length ws. issued (client_of (ws ! j)) = length (scheduled (take (co_fired s) sc) j))
     \<and> (\<forall>j < length ws. asking (asked_by sc j) (ws ! j))
     \<and> (\<forall>j < length ws. sy_done (wr_sys (ws ! j)) = completed_of R j)
     \<and> mset (snd (co_cell s)) = (\<Sum>j < length ws. contents (asked_by sc j) (server_of (ws ! j)))"

section \<open>Pumping\<close>

lemma pump_all_total:
  assumes "\<forall>w \<in> set ws. ready w" and "modest_cell cell" and "\<forall>j < length ws. asking (P j) (ws ! j)" and "orderly ord"
  shows "\<exists>cell' ws'. pump_all ord tick i cell (map link_of ws) (map server_of ws)
      = Some (cell', map link_of ws', map server_of ws')
    \<and> list_all2 same_books ws ws' \<and> (\<forall>w \<in> set ws'. ready w) \<and> modest_cell cell'
    \<and> mset (snd cell') + (\<Sum>j < length ws. contents (P j) (server_of (ws ! j)))
      = mset (snd cell) + (\<Sum>j < length ws. contents (P j) (server_of (ws' ! j)))"
  using assms(1-3)
proof (induction ws arbitrary: i cell P)
  case Nil
  then show ?case by (intro exI [of _ cell] exI [of _ "[]"]) simp
next
  case (Cons w ws)
  have "asking (P 0) w" using Cons.prems(3) by force
  then obtain cell1 w' where w': "pump ord tick i cell (link_of w) (server_of w) = Some (cell1, link_of w', server_of w')"
    "ready w'" "same_books w w'" "modest_cell cell1"
    "mset (snd cell1) + contents (P 0) (server_of w) = mset (snd cell) + contents (P 0) (server_of w')"
    using pump_total [of w cell ord "P 0" tick i] Cons.prems assms(4) by auto
  have "\<forall>j < length ws. asking (P (Suc j)) (ws ! j)" using Cons.prems(3) by force
  then obtain cell2 ws' where "pump_all ord tick (Suc i) cell1 (map link_of ws) (map server_of ws)
      = Some (cell2, map link_of ws', map server_of ws')" "list_all2 same_books ws ws'" "\<forall>w \<in> set ws'. ready w"
    "modest_cell cell2"
    and c: "mset (snd cell2) + (\<Sum>j < length ws. contents (P (Suc j)) (server_of (ws ! j)))
      = mset (snd cell1) + (\<Sum>j < length ws. contents (P (Suc j)) (server_of (ws' ! j)))"
    using Cons.IH [of cell1 "\<lambda>j. P (Suc j)" "Suc i"] Cons.prems(1) w'(4) by auto
  moreover have "mset (snd cell2) + (\<Sum>j < Suc (length ws). contents (P j) (server_of ((w # ws) ! j)))
      = mset (snd cell) + (\<Sum>j < Suc (length ws). contents (P j) (server_of ((w' # ws') ! j)))"
    using arg_cong2 [OF w'(5) c, of "(+)"] unfolding sum.lessThan_Suc_shift by (simp add: ac_simps)
  ultimately show ?case using w' by (intro exI [of _ cell2] exI [of _ "w' # ws'"]) simp
qed

lemma tracks_pump:
  assumes "tracks sc R s ws" and "orderly ord"
  obtains cell ls vs ws' where "pump_all ord tick 0 (co_cell s) (co_links s) (co_servers s) = Some (cell, ls, vs)"
    "tracks sc R (s\<lparr>co_cell := cell, co_links := ls, co_servers := vs\<rparr>) ws'" "length ws' = length ws"
proof -
  note T = assms(1) [unfolded tracks_def]
  obtain cell ws' where p: "pump_all ord tick 0 (co_cell s) (map link_of ws) (map server_of ws)
      = Some (cell, map link_of ws', map server_of ws')"
    "list_all2 same_books ws ws'" "\<forall>w \<in> set ws'. ready w" "modest_cell cell"
    and c: "mset (snd cell) + (\<Sum>j < length ws. contents (asked_by sc j) (server_of (ws ! j)))
      = mset (snd (co_cell s)) + (\<Sum>j < length ws. contents (asked_by sc j) (server_of (ws' ! j)))"
    using pump_all_total [of ws "co_cell s" "asked_by sc" ord tick 0] T assms(2) by blast
  have len: "length ws' = length ws" using list_all2_lengthD [OF p(2)] by simp
  have books: "same_books (ws ! j) (ws' ! j)" if "j < length ws" for j using p(2) that by (rule list_all2_nthD)
  have "mset (snd cell) = (\<Sum>j < length ws'. contents (asked_by sc j) (server_of (ws' ! j)))"
    using c T len by simp
  moreover have "asking (asked_by sc j) (ws' ! j) \<and> sy_done (wr_sys (ws' ! j)) = completed_of R j
      \<and> issued (client_of (ws' ! j)) = length (scheduled (take (co_fired s) sc) j)" if "j < length ws" for j
    using books [OF that] asking_cong [of "ws' ! j" "ws ! j" "asked_by sc j"] T that by (simp add: same_books_def)
  ultimately show thesis
    using that [of cell "map link_of ws'" "map server_of ws'" ws'] T p len by (simp add: tracks_def)
qed

section \<open>Calls\<close>

text \<open>An entry of the schedule that can be carried out.\<close>

definition feasible :: "nat \<Rightarrow> u64 \<times> nat \<times> op \<Rightarrow> bool" where
  "feasible n x \<longleftrightarrow> (case x of (t, i, op) \<Rightarrow> i < n \<and> length (encode_payload op) \<le> 20
     \<and> op_decode (op_method op) (encode_payload op) = Some op)"

lemma scheduled_nth:
  assumes "n < length sc" and "fst (snd (sc ! n)) = j"
  shows "scheduled sc j ! length (scheduled (take n sc) j) = snd (snd (sc ! n))"
proof -
  have "sc = take n sc @ sc ! n # drop (Suc n) sc" using assms(1) by (rule id_take_nth_drop)
  then have "scheduled sc j = scheduled (take n sc) j @ scheduled (sc ! n # drop (Suc n) sc) j"
    by (metis scheduled_def filter_append map_append)
  moreover have "scheduled (sc ! n # drop (Suc n) sc) j = snd (snd (sc ! n)) # scheduled (drop (Suc n) sc) j"
    using assms(2) by (simp add: scheduled_def)
  ultimately show ?thesis by simp
qed

lemma tracks_fire:
  assumes "tracks sc R s ws" and "feasible (length ws) (sc ! co_fired s)" and "co_fired s < length sc"
    and "length sc \<le> max_calls"
  obtains s' ws' where "fire_call now (fst (snd (sc ! co_fired s))) (snd (snd (sc ! co_fired s))) s = Some s'"
    "tracks sc R s' ws'" "length ws' = length ws" "co_fired s' = Suc (co_fired s)"
proof -
  note T = assms(1) [unfolded tracks_def]
  obtain t idx op where x: "sc ! co_fired s = (t, idx, op)" by (metis surj_pair)
  let ?w = "ws ! idx" and ?k = "length (scheduled (take (co_fired s) sc) idx)"
  have idx: "idx < length ws" and op: "length (encode_payload op) \<le> 20"
    "op_decode (op_method op) (encode_payload op) = Some op" using assms(2) by (simp_all add: feasible_def x)
  have ready: "ready ?w" and iss: "issued (client_of ?w) = ?k" using T idx by simp_all
  have "?k \<le> co_fired s" using length_scheduled_le [of "take (co_fired s) sc" idx] by simp
  then have less: "issued (client_of ?w) < max_calls" using assms(3,4) iss by simp
  have "asked_by sc idx (cl_next_id (client_of ?w)) = op"
    using scheduled_nth [OF assms(3), of idx] iss by (simp add: asked_by_def x issued_def)
  then have asks: "asks (asked_by sc idx) \<lparr>rq_id = cl_next_id (client_of ?w), rq_method = op_method op,
      rq_payload = encode_payload op\<rparr>" using op(2) by (simp add: asks_def)
  obtain i out w' where w': "kv_call (client_of ?w) now op = Some (i, client_of w', out)"
    "send_all out (wr_up ?w) = Some (wr_up w')" "sound w'" "server_of w' = server_of ?w"
    "wr_down w' = wr_down ?w" "wr_at_server w' = wr_at_server ?w" "wr_at_client w' = wr_at_client ?w"
    "issued (client_of w') = Suc (issued (client_of ?w))"
    "sy_done (wr_sys w') = sy_done (wr_sys ?w)" "sy_lost (wr_sys w') = sy_lost (wr_sys ?w)"
    "asks (asked_by sc idx) \<lparr>rq_id = cl_next_id (client_of ?w), rq_method = op_method op, rq_payload = encode_payload op\<rparr>
       \<and> asking (asked_by sc idx) ?w \<longrightarrow> asking (asked_by sc idx) w'"
    by (rule sound_call [where P = "asked_by sc idx" and now = now, OF _ less op]) (use ready in \<open>simp add: ready_def\<close>)
  have ask: "asking (asked_by sc idx) w'" using w'(11) asks T idx by blast
  let ?s = "s\<lparr>co_links := (co_links s)[idx := link_of w'], co_expected := co_expected s @ [i], co_fired := co_fired s + 1\<rparr>"
  have "fire_call now (fst (snd (sc ! co_fired s))) (snd (snd (sc ! co_fired s))) s = Some ?s"
    using T idx w'(1,2,5) by (simp add: fire_call_def link_of_def x)
  moreover have "tracks sc R ?s (ws[idx := w'])"
  proof -
    have "map server_of (ws[idx := w']) = map server_of ws" using idx w'(4) by (simp add: map_update list_update_same_conv)
    moreover have "server_of (ws[idx := w'] ! j) = server_of (ws ! j)" for j
      using idx w'(4) by (cases "j = idx") simp_all
    moreover have "\<forall>w \<in> set (ws[idx := w']). ready w"
      using T ready w'(3,6,7) set_update_subset_insert [of ws idx w'] by (auto simp: ready_def)
    ultimately show ?thesis
      using T idx assms(3) w'(8,9) ask iss by (simp add: tracks_def map_update nth_list_update scheduled_next x)
  qed
  ultimately show thesis using that [of ?s "ws[idx := w']"] by simp
qed

lemma tracks_fires:
  assumes "\<forall>x \<in> set sc. feasible (length ws) x" and "length sc \<le> max_calls" and "tracks sc R s ws"
  shows "\<exists>s' ws'. fire_calls sc tick s = Some s' \<and> tracks sc R s' ws' \<and> length ws' = length ws"
  using assms
proof (induction sc tick s arbitrary: ws rule: fire_calls.induct)
  case (1 sc tick s)
  show ?case
  proof (cases "co_fired s < length sc \<and> fst (sc ! co_fired s) \<le> tick")
    case True
    then have "feasible (length ws) (sc ! co_fired s)" using "1.prems"(1) by simp
    then obtain s1 ws1 where s1: "fire_call (Tick tick) (fst (snd (sc ! co_fired s))) (snd (snd (sc ! co_fired s))) s = Some s1"
      "tracks sc R s1 ws1" "length ws1 = length ws"
      using tracks_fire [OF "1.prems"(3) _ _ "1.prems"(2), of "Tick tick"] True by blast
    then show ?thesis
      using "1.IH" [OF True, of s1 ws1] "1.prems" True by (simp add: fire_calls.simps [of sc tick s])
  qed (use "1.prems" in \<open>auto simp: fire_calls.simps [of sc tick s]\<close>)
qed

section \<open>Switching the profile\<close>

text \<open>A profile the channel accepts and under which it forges no frame.\<close>

definition usable :: "fault_profile \<Rightarrow> bool" where
  "usable p \<longleftrightarrow> validate p = Inr () \<and> tame p"

lemma channel_new_total: "usable p \<Longrightarrow> \<exists>c. channel_new seed p = Some c"
  by (simp add: usable_def channel_new_def with_script_def)

lemma ready_relink:
  assumes "ready w" and "usable p"
  obtains w' where "make_link seed p = Some (wr_up w', wr_down w')" "ready w'" "wr_sys w' = wr_sys w"
proof -
  obtain c2s s2c where c: "channel_new seed p = Some c2s"
    "channel_new (seed XOR 0xABCDEF0123456789) p = Some s2c"
    using channel_new_total [OF assms(2)] by metis
  have "tame p" using assms(2) by (simp add: usable_def)
  then have "flows (cl_end (wr_sys w)) c2s []" "flows (sv_end (wr_sys w)) s2c []"
    using assms(1) flows_new [OF c(1)] flows_new [OF c(2)]
    by (simp_all add: ready_def sound_def joined_def) (simp_all add: flows_def)
  then show thesis
    using that [of "w\<lparr>wr_up := c2s, wr_down := s2c\<rparr>"] assms(1) c
    by (simp add: make_link_def ready_def sound_def joined_def)
qed

lemma relink_total:
  assumes "\<forall>w \<in> set ws. ready w" and "usable p"
  shows "\<exists>ws'. relink seed p i (map link_of ws) = Some (map link_of ws')
    \<and> map wr_sys ws' = map wr_sys ws \<and> (\<forall>w \<in> set ws'. ready w)"
  using assms(1)
proof (induction ws arbitrary: i)
  case (Cons w ws)
  have "ready w" using Cons.prems by simp
  then obtain w' where w': "make_link (seed + word_of_nat i * 1000) p = Some (wr_up w', wr_down w')"
    "ready w'" "wr_sys w' = wr_sys w" by (rule ready_relink [OF _ assms(2)])
  obtain ws' where "relink seed p (Suc i) (map link_of ws) = Some (map link_of ws')"
    "map wr_sys ws' = map wr_sys ws" "\<forall>w \<in> set ws'. ready w"
    using Cons.IH [of "Suc i"] Cons.prems by auto
  moreover have "(link_of w)\<lparr>kl_c2s := wr_up w', kl_s2c := wr_down w'\<rparr> = link_of w'"
    using w'(3) by (simp add: link_of_def)
  ultimately show ?case using w' by (intro exI [of _ "w' # ws'"]) simp
qed simp

lemma tracks_relinked:
  assumes "tracks sc R s ws" and "map wr_sys ws' = map wr_sys ws" and "\<forall>w \<in> set ws'. ready w"
  shows "tracks sc R (s\<lparr>co_links := map link_of ws', co_switched := n\<rparr>) ws'"
proof -
  have len: "length ws' = length ws" using assms(2) by (rule map_eq_imp_length_eq)
  have same: "wr_sys (ws' ! j) = wr_sys (ws ! j)" if "j < length ws" for j
    using arg_cong [OF assms(2), of "\<lambda>xs. xs ! j"] len that by simp
  have "map sy_server (map wr_sys ws') = map sy_server (map wr_sys ws)" by (simp only: assms(2))
  then have servers: "map server_of ws' = map server_of ws" by (simp only: map_map comp_def)
  have sum: "(\<Sum>j < length ws'. contents (asked_by sc j) (server_of (ws' ! j)))
      = (\<Sum>j < length ws. contents (asked_by sc j) (server_of (ws ! j)))"
    using same len by (intro sum.cong) simp_all
  have each: "asking (asked_by sc j) (ws' ! j) = asking (asked_by sc j) (ws ! j)" if "j < length ws" for j
    using same [OF that] by (simp add: asking_def)
  show ?thesis
    using assms(1,3) unfolding tracks_def sum servers by (simp add: len same each)
qed

lemma tracks_switches:
  assumes "tracks sc R s ws" and "\<forall>x \<in> set sw. usable (snd x)"
  shows "\<exists>s' ws'. apply_switches seed sw tick s = Some s' \<and> tracks sc R s' ws' \<and> length ws' = length ws"
  using assms
proof (induction seed sw tick s arbitrary: ws rule: apply_switches.induct)
  case (1 seed sw tick s)
  show ?case
  proof (cases "co_switched s < length sw \<and> fst (sw ! co_switched s) \<le> tick")
    case True
    let ?p = "snd (sw ! co_switched s)"
    have "usable ?p" using True "1.prems"(2) by simp
    then obtain ws1 where ws1: "relink (seed + word_of_nat (co_switched s) * 7919) ?p 0 (co_links s)
        = Some (map link_of ws1)" "map wr_sys ws1 = map wr_sys ws" "\<forall>w \<in> set ws1. ready w"
      using relink_total [of ws ?p "seed + word_of_nat (co_switched s) * 7919" 0] "1.prems"(1)
      by (auto simp: tracks_def)
    have "length ws1 = length ws" using ws1(2) by (rule map_eq_imp_length_eq)
    then show ?thesis
      using "1.IH" [OF True ws1(1) tracks_relinked [OF "1.prems"(1) ws1(2,3)] "1.prems"(2)] True ws1(1)
      by (subst apply_switches.simps) simp
  qed (use "1.prems" in \<open>auto simp: apply_switches.simps [of seed sw tick s]\<close>)
qed

section \<open>Polling\<close>

definition poll_wire :: "kv_cell wire \<Rightarrow> kv_cell wire" where
  "poll_wire w = w\<lparr>wr_sys := (wr_sys w)\<lparr>sy_client := (client_of w)\<lparr>cl_completed := [], cl_failed := []\<rparr>,
     sy_done := sy_done (wr_sys w) @ cl_completed (client_of w),
     sy_lost := sy_lost (wr_sys w) @ cl_failed (client_of w)\<rparr>\<rparr>"

lemma poll_wire_ready:
  assumes "ready w"
  shows "ready (poll_wire w)" and "issued (client_of (poll_wire w)) = issued (client_of w)"
    and "poll_link (link_of w) = (link_of (poll_wire w), length (cl_failed (client_of w)))"
proof -
  have p: "poll_completed (client_of w) = (cl_completed (client_of w), (client_of w)\<lparr>cl_completed := []\<rparr>)"
    "poll_failed ((client_of w)\<lparr>cl_completed := []\<rparr>)
      = (cl_failed (client_of w), (client_of w)\<lparr>cl_completed := [], cl_failed := []\<rparr>)"
    by (simp_all add: poll_completed_def poll_failed_def)
  have w: "joined w" "solvent (wr_sys w)" using assms by (simp_all add: ready_def sound_def)
  then have core: "sys_core (wr_sys w)" by (simp add: joined_def)
  have "sys_core (wr_sys (poll_wire w))"
    using core_poll [OF core p] by (simp add: poll_wire_def)
  moreover have "solvent (wr_sys (poll_wire w))"
    using affords_poll(1) [OF w(2) [unfolded solvent_def, THEN conjunct1] p] w(2)
    by (simp add: solvent_def poll_wire_def ac_simps)
  ultimately show "ready (poll_wire w)"
    using assms by (auto simp: ready_def sound_def joined_def poll_wire_def)
qed (simp_all add: poll_wire_def issued_def link_of_def poll_link_def poll_completed_def poll_failed_def)

lemma tracks_poll:
  assumes "tracks sc R s ws"
  shows "tracks sc (R @ polls s) (poll_all s) (map poll_wire ws)"
proof -
  note T = assms [unfolded tracks_def]
  have ready: "ready w" if "w \<in> set ws" for w using T that by blast
  have "map (fst \<circ> poll_link) (map link_of ws) = map link_of (map poll_wire ws)"
    using poll_wire_ready(3) [OF ready] by simp
  moreover have "server_of (poll_wire w) = server_of w" "set (sy_issued (wr_sys (poll_wire w))) = set (sy_issued (wr_sys w))"
    "sy_done (wr_sys (poll_wire w)) = sy_done (wr_sys w) @ cl_completed (client_of w)" for w
    by (simp_all add: poll_wire_def)
  moreover have "completed_of (polls s) j = cl_completed (client_of (ws ! j))" if "j < length ws" for j
    using T that by (simp add: link_of_def)
  ultimately show ?thesis
    unfolding tracks_def poll_all_def using T poll_wire_ready(1,2) [OF ready]
    by (simp add: comp_def asking_def)
qed

section \<open>Ticks\<close>

lemma chaos_work_total:
  assumes "orderly ord" and "\<forall>x \<in> set sw. usable (snd x)" and "\<forall>x \<in> set sc. feasible (length ws) x"
    and "length sc \<le> max_calls" and "tracks sc R s ws"
  shows "\<exists>s' ws'. chaos_work ord seed sw sc tick s = Some s' \<and> tracks sc R s' ws' \<and> length ws' = length ws"
proof -
  obtain s1 ws1 where s1: "apply_switches seed sw tick s = Some s1" "tracks sc R s1 ws1" "length ws1 = length ws"
    using tracks_switches [OF assms(5,2)] by metis
  obtain s2 ws2 where s2: "fire_calls sc tick s1 = Some s2" "tracks sc R s2 ws2" "length ws2 = length ws1"
    using tracks_fires [of sc ws1 R s1 tick] assms(3,4) s1 by auto
  obtain cell ls vs ws3 where s3: "pump_all ord tick 0 (co_cell s2) (co_links s2) (co_servers s2) = Some (cell, ls, vs)"
    "tracks sc R (s2\<lparr>co_cell := cell, co_links := ls, co_servers := vs\<rparr>) ws3" "length ws3 = length ws2"
    by (rule tracks_pump [OF s2(2) assms(1)])
  show ?thesis
    using s1 s2 s3
    by (intro exI [of _ "s2\<lparr>co_cell := cell, co_links := ls, co_servers := vs\<rparr>"] exI [of _ ws3])
      (simp add: chaos_work_def)
qed

lemma watch_loop_total:
  assumes "orderly ord" and "\<forall>x \<in> set sw. usable (snd x)" and "\<forall>x \<in> set sc. feasible (length ws) x"
    and "length sc \<le> max_calls" and "tracks sc R0 s ws"
  shows "\<exists>r R. watch_loop ord cfg sw sc tick s = Some (r, R)
    \<and> (\<forall>t s'. r = Inr (t, s') \<longrightarrow> (\<exists>ws'. tracks sc (R0 @ R) s' ws' \<and> length ws' = length ws))"
  using assms
proof (induction ord cfg sw sc tick s arbitrary: ws R0 rule: watch_loop.induct)
  case (1 ord cfg sw sc tick s)
  obtain w ws1 where w: "chaos_work ord (cf_seed cfg) sw sc (tick + 1) s = Some w" "tracks sc R0 w ws1"
    "length ws1 = length ws" using chaos_work_total [OF "1.prems"] by metis
  note P = tracks_poll [OF w(2)]
  show ?case
  proof (cases "all_drained sc (poll_all w) \<or> cf_max_ticks cfg \<le> tick + 1")
    case True
    then show ?thesis using w P by (auto simp: watch_loop.simps [of ord cfg sw sc tick s])
  next
    case False
    have "\<exists>r R. watch_loop ord cfg sw sc (tick + 1) (poll_all w) = Some (r, R)
      \<and> (\<forall>t s'. r = Inr (t, s') \<longrightarrow> (\<exists>ws'. tracks sc ((R0 @ polls w) @ R) s' ws' \<and> length ws' = length (map poll_wire ws1)))"
      using False "1.prems"(1-4) w(3) P by (intro "1.IH" [OF w(1)]) simp_all
    then show ?thesis using False w(1,3) by (fastforce simp: watch_loop.simps [of ord cfg sw sc tick s])
  qed
qed

section \<open>The start\<close>

definition unused :: "kv_cell wire \<Rightarrow> bool" where
  "unused w \<longleftrightarrow> ready w \<and> issued (client_of w) = 0 \<and> executed (server_of w) = {}
     \<and> sy_issued (wr_sys w) = [] \<and> sy_done (wr_sys w) = []"

lemma setup_one_total:
  assumes "usable (cf_initial_profile cfg)"
  obtains l v syn w where "setup_one cfg i = Some (l, v, syn)" "channel_send syn (kl_c2s l) = Some (wr_up w)"
    "link_of w = l\<lparr>kl_c2s := wr_up w\<rparr>" "server_of w = v" "unused w"
proof -
  let ?p = "cf_initial_profile cfg" and ?seed = "cf_seed cfg + word_of_nat i * 1000"
  obtain c syn where c: "conn_connect chaos_transport_config (Tick 0) = (c, syn)" by fastforce
  let ?v = "conn_listen chaos_transport_config (Tick 0)"
  obtain c2s s2c where ch: "channel_new ?seed ?p = Some c2s"
    "channel_new (?seed XOR 0xABCDEF0123456789) ?p = Some s2c"
    using channel_new_total [OF assms] by metis
  define s :: "kv_cell rpc_sys" where "s = \<lparr>sy_client = client_new c 25 60, sy_server = server_new ?v (\<lambda>_. None, []),
    sy_link = \<lparr>client = ep_client chaos_transport_config (Tick 0), server = ep_server chaos_transport_config (Tick 0)\<rparr>,
    sy_issued = [], sy_handled = [], sy_answers = [], sy_done = [], sy_lost = []\<rparr>"
  have "config_ok chaos_transport_config" by (simp add: config_ok_def chaos_transport_config_def)
  then have "link_init chaos_transport_config chaos_transport_config (sy_link s)"
    by (auto simp: link_init_def s_def)
  moreover have "ep_conn (cl_end s) = c" "ep_conn (sv_end s) = ?v"
    by (simp_all add: s_def ep_client_def ep_server_def c)
  ultimately have init: "sys_init chaos_transport_config chaos_transport_config (\<lambda>_. None, []) s"
    unfolding sys_init_def by (intro exI [of _ "sy_link s"] exI [of _ 25] exI [of _ 60]) (simp add: s_def)
  have "tame ?p" using assms by (simp add: usable_def)
  then obtain up where up: "send_all (ep_wire (cl_end s)) c2s = Some up"
    "joined \<lparr>wr_sys = s, wr_up = up, wr_down = s2c, wr_at_server = [], wr_at_client = []\<rparr>"
    using joined_new [OF init _ _ ch] by blast
  have "channel_send syn c2s = Some up"
    using up(1) by (simp add: s_def ep_client_def c split: option.splits)
  moreover have "solvent s" by (simp add: solvent_def s_def affords_new modest_table_def server_new_def)
  ultimately show thesis
    using that [of "\<lparr>kl_client = client_new c 25 60, kl_c2s = c2s, kl_s2c = s2c\<rparr>"
        "make_server ?v (\<lambda>_. None, [])" syn
        "\<lparr>wr_sys = s, wr_up = up, wr_down = s2c, wr_at_server = [], wr_at_client = []\<rparr>"] up(2) ch
    by (simp add: setup_one_def make_link_def c Let_def link_of_def unused_def ready_def sound_def executed_def)
      (simp add: s_def make_server_def issued_def client_new_def server_new_def)
qed

lemma setup_all_total:
  assumes "usable (cf_initial_profile cfg)"
  shows "\<exists>xs ws. setup_all cfg is = Some xs \<and> send_syns xs = Some (map link_of ws, map server_of ws)
    \<and> length ws = length is \<and> (\<forall>w \<in> set ws. unused w)"
proof (induction "is")
  case (Cons i "is")
  then obtain xs ws where xs: "setup_all cfg is = Some xs" "send_syns xs = Some (map link_of ws, map server_of ws)"
    "length ws = length is" "\<forall>w \<in> set ws. unused w" by blast
  obtain l v syn w where "setup_one cfg i = Some (l, v, syn)" "channel_send syn (kl_c2s l) = Some (wr_up w)"
    "link_of w = l\<lparr>kl_c2s := wr_up w\<rparr>" "server_of w = v" "unused w"
    by (rule setup_one_total [OF assms])
  with xs show ?case by (intro exI [of _ "(l, v, syn) # xs"] exI [of _ "w # ws"]) simp
qed simp

lemma chaos_start_total:
  assumes "usable (cf_initial_profile cfg)"
  obtains s ws where "chaos_start cfg = Some s" "tracks sc [] s ws" "length ws = cf_clients cfg"
proof -
  obtain xs ws where x: "setup_all cfg [0..<cf_clients cfg] = Some xs"
    "send_syns xs = Some (map link_of ws, map server_of ws)" "length ws = cf_clients cfg" "\<forall>w \<in> set ws. unused w"
    using setup_all_total [OF assms, of "[0..<cf_clients cfg]"] by auto
  have "contents P (server_of w) = {#}" if "w \<in> set ws" for P w using x(4) that by (simp add: contents_def unused_def)
  then show thesis
    using x by (intro that) (auto simp: chaos_start_def tracks_def unused_def modest_cell_def scheduled_def asking_def)
qed

section \<open>The schedule\<close>

lemma length_decimal: "n < 10 ^ Suc k \<Longrightarrow> length (decimal n) \<le> Suc k"
proof (induction k arbitrary: n)
  case 0
  then show ?case by (simp add: decimal.simps)
next
  case (Suc k)
  have "n div 10 < 10 ^ Suc k" using Suc.prems by (simp add: less_mult_imp_div_less)
  then show ?case using Suc.IH [of "n div 10"] by (simp add: decimal.simps [of n])
qed

lemma length_random_bytes: "length (fst (random_bytes n rng)) = n"
  by (induction n arbitrary: rng) (simp_all add: case_prod_beta)

lemma random_op_feasible:
  assumes "random_op k rng = Some (op, rng')" and "k \<le> 10 ^ 9"
  shows "length (encode_payload op) \<le> 20 \<and> op_decode (op_method op) (encode_payload op) = Some op"
proof -
  have draw: "x < m" if "below_usize m r = Some (x, r')" for m x r r'
    using that draw_total [of m r] by (cases "m = 0") (auto simp: below_usize_def)
  obtain j r1 which r2 where j: "below_usize k rng = Some (j, r1)" "below_usize 3 r1 = Some (which, r2)"
    using assms(1) by (auto simp: random_op_def split: bind_splits)
  have "j < 10 ^ Suc 8" using draw [OF j(1)] assms(2) by simp
  from length_decimal [OF this] have key: "length (key_name j) \<le> 10" by (simp add: key_name_def)
  consider "op = Get (key_name j)" | "op = Delete (key_name j)"
    | len r3 where "below_usize 8 r2 = Some (len, r3)" "op = Put (key_name j) (fst (random_bytes (1 + len) r3))"
    using assms(1) j by (auto simp: random_op_def case_prod_beta split: bind_splits if_splits)
  then show ?thesis
  proof cases
    case 3
    have "length (fst (random_bytes (1 + len) r3)) \<le> 8"
      using draw [OF 3(1)] by (simp only: length_random_bytes)
    with key show ?thesis using op_decode_encode [of op] by (simp add: 3(2))
  qed (use key op_decode_encode [of op] in simp_all)
qed

lemma make_schedule_feasible:
  "make_schedule cfg n t rng = Some sc \<Longrightarrow> cf_key_space cfg \<le> 10 ^ 9 \<Longrightarrow> \<forall>x \<in> set sc. feasible (cf_clients cfg) x"
proof (induction n arbitrary: t rng sc)
  case (Suc n)
  obtain gap r1 i r2 op r3 rest where s: "below_usize (cf_clients cfg) r1 = Some (i, r2)"
    "random_op (cf_key_space cfg) r2 = Some (op, r3)" "make_schedule cfg n (t + (1 + word_of_nat gap)) r3 = Some rest"
    "sc = (t + (1 + word_of_nat gap), i, op) # rest"
    using Suc.prems(1) by (auto simp: Let_def split: bind_splits)
  have "i < cf_clients cfg"
    using s(1) draw_total [of "cf_clients cfg" r1] by (cases "cf_clients cfg = 0") (auto simp: below_usize_def)
  then show ?case
    using Suc.IH [OF s(3) Suc.prems(2)] random_op_feasible [OF s(2) Suc.prems(2)] s(4) by (simp add: feasible_def)
qed simp

section \<open>What was executed\<close>

text \<open>A server has executed only calls of its client, and every call whose completion was polled, with the
  answer that was polled.\<close>

lemma ready_executed:
  assumes "ready w"
  shows "i \<in> executed (server_of w) \<Longrightarrow> i < cl_next_id (client_of w)"
    and "(i, a) \<in> set (sy_done (wr_sys w)) \<Longrightarrow> sv_seen (server_of w) i = Some a"
proof -
  let ?s = "wr_sys w"
  have core: "sys_core ?s" and sol: "solvent ?s" using assms by (simp_all add: ready_def sound_def joined_def)
  note streams = sys_core_streams [OF core]
  have cs: "client_side ?s" and ss: "server_side ?s" using core by (simp_all add: sys_core_def)
  have dom: "executed (server_of w) = rq_id ` set (sy_handled ?s)"
    and ans: "sy_answers ?s = map (\<lambda>q. the (sv_seen (server_of w) (rq_id q))) (sy_handled ?s)"
    using ss unfolding executed_def by (simp_all only: server_side_def Let_def)
  have given: "\<forall>(i, a) \<in> set (sy_done ?s @ cl_completed (client_of w)). rs_id a = i \<and> a \<in> set (got (cl_end ?s))"
    using cs unfolding client_side_def Let_def by (elim conjE)
  have ok: "client_ok (sy_issued ?s) (sy_done ?s) (sy_lost ?s) (client_of w)"
    using cs unfolding client_side_def Let_def by (elim conjE)
  show "i < cl_next_id (client_of w)" if "i \<in> executed (server_of w)"
    using that set_mono_prefix [OF streams(1)] ok unfolding dom by (auto simp: client_ok_def ledger_def)
  show "sv_seen (server_of w) i = Some a" if "(i, a) \<in> set (sy_done ?s)"
  proof -
    have "(i, a) \<in> set (sy_done ?s @ cl_completed (client_of w))" using that by simp
    then have a: "rs_id a = i" "a \<in> set (got (cl_end ?s))" using given by blast+
    then have "a \<in> set (sy_answers ?s)" using set_mono_prefix [OF streams(2)] by blast
    then obtain q where q: "q \<in> set (sy_handled ?s)" "a = the (sv_seen (server_of w) (rq_id q))"
      using ans by auto
    have "rq_id q \<in> executed (server_of w)" unfolding dom using q(1) by (rule imageI)
    then have seen: "sv_seen (server_of w) (rq_id q) = Some a" using q(2) by (auto simp: executed_def)
    then have "rs_id a = rq_id q" using sol by (simp add: solvent_def modest_table_def)
    with a(1) seen show ?thesis by simp
  qed
qed

section \<open>Properties\<close>

text \<open>The configurations covered: there is something to draw, keys of at most nine digits, at most two
  million calls, and profiles the channels accept in which corruption and truncation do not compound.\<close>

definition runnable :: "chaos_config \<Rightarrow> bool" where
  "runnable cfg \<longleftrightarrow> 0 < cf_clients cfg \<and> 0 < cf_key_space cfg \<and> cf_key_space cfg \<le> 10 ^ 9
     \<and> cf_calls cfg \<le> max_calls \<and> usable (cf_initial_profile cfg)
     \<and> (\<forall>x \<in> set (cf_profile_switches cfg). usable (snd x))"

lemma runnable_run:
  assumes "orderly ord" and "runnable cfg"
  obtains s sc r R where "chaos_start cfg = Some s" "make_schedule cfg (cf_calls cfg) 1 (cf_seed cfg) = Some sc"
    "watch_run ord cfg = Some (r, R)"
    "run_chaos ord cfg = Some (case r of Inl f \<Rightarrow> Inl f | Inr (t, s') \<Rightarrow> chaos_verdict cfg t s')"
    "chaos_loop ord cfg (sort_key fst (cf_profile_switches cfg)) sc 0 s = Some r"
    "\<forall>t s'. r = Inr (t, s') \<longrightarrow> (\<exists>ws. tracks sc R s' ws \<and> length ws = cf_clients cfg)"
proof -
  note R = assms(2) [unfolded runnable_def]
  let ?sw = "sort_key fst (cf_profile_switches cfg)"
  obtain sc where sc: "make_schedule cfg (cf_calls cfg) 1 (cf_seed cfg) = Some sc"
    using make_schedule_None [of cfg "cf_calls cfg" 1 "cf_seed cfg"] R by fastforce
  obtain s ws where s: "chaos_start cfg = Some s" "tracks sc [] s ws" "length ws = cf_clients cfg"
    by (rule chaos_start_total) (use R in blast)
  have feas: "\<forall>x \<in> set sc. feasible (length ws) x" using make_schedule_feasible [OF sc] R s(3) by simp
  have sw: "\<forall>x \<in> set ?sw. usable (snd x)" using R by simp
  obtain r rs where r: "watch_loop ord cfg ?sw sc 0 s = Some (r, rs)"
    "\<forall>t s'. r = Inr (t, s') \<longrightarrow> (\<exists>ws. tracks sc rs s' ws \<and> length ws = cf_clients cfg)"
    using watch_loop_total [OF assms(1) sw feas _ s(2), of cfg 0] length_make_schedule [OF sc] R s(3) by auto
  have w: "watch_run ord cfg = Some (r, rs)" using s(1) sc r(1) by (simp add: watch_run_def)
  show thesis
    by (rule that [OF s(1) sc w _ _ r(2)]) (use w r(1) in \<open>simp_all add: watch_run_run watch_loop_run\<close>)
qed

text \<open>C11. A chaos run returns: no operation of any layer panics in it, whatever the seed, the faults injected and
  the order of retries, and it ends with a summary or with the report that the calls did not drain in
  time.\<close>

theorem chaos_returns:
  assumes "orderly ord" and "runnable cfg"
  shows "(\<exists>su. run_chaos ord cfg = Some (Inr su))
    \<or> (\<exists>n. run_chaos ord cfg = Some (Inl \<lparr>fa_seed = cf_seed cfg,
          fa_message = DidNotDrain (cf_max_ticks cfg) n (cf_calls cfg)\<rparr>))"
proof -
  obtain s sc r R where r: "chaos_start cfg = Some s"
    "run_chaos ord cfg = Some (case r of Inl f \<Rightarrow> Inl f | Inr (t, s') \<Rightarrow> chaos_verdict cfg t s')"
    "chaos_loop ord cfg (sort_key fst (cf_profile_switches cfg)) sc 0 s = Some r"
    by (rule runnable_run [OF assms])
  show ?thesis
    using chaos_loop_log [OF chaos_start_clients(1) [OF r(1)] r(3)] r(2)
    by (auto simp: verdict_of_log split: sum.splits prod.splits)
qed

lemma usable_CLEAN: "usable CLEAN"
  by (simp add: usable_def tame_CLEAN) (simp add: validate_def in_unit_def CLEAN_def)

text \<open>Three of the five named profiles are usable; the others both corrupt and truncate.\<close>

lemma usable_named: "map (usable \<circ> snd) all_profiles = [True, False, True, False, True]"
proof -
  have "validate p = Inr ()" if "p \<in> snd ` set all_profiles" for p
    using that by (auto simp: all_profiles_def clean_def lossy_def high_latency_reordering_def CLEAN_def
        bursty_corruption_def near_partition_def f64_literals validate_iff in_unit_def)
  then have "map (usable \<circ> snd) all_profiles = map (tame \<circ> snd) all_profiles"
    by (simp add: usable_def)
  then show ?thesis
    by (simp add: all_profiles_def clean_def lossy_def high_latency_reordering_def CLEAN_def
        bursty_corruption_def near_partition_def f64_literals tame_def)
qed

lemma runnable_demo: "runnable chaos_demo"
  by (simp add: runnable_def chaos_demo_def chaos_config_default_def usable_CLEAN max_calls_def)

theorem chaos_returns_witness:
  "\<exists>su. run_chaos by_id chaos_demo = Some (Inr su) \<and> su_executions su = 1"
  using chaos_returns [OF orderly_by_id runnable_demo] chaos_demo_run by auto

text \<open>The state behind a summary: what the servers executed and what was polled.\<close>

lemma tracked_calls:
  assumes "tracks sc R s ws" and "all_drained sc s" and "j < length ws"
  shows "executed (co_servers s ! j) \<subseteq> set (call_ids sc j)"
    and "(i, a) \<in> set (completed_of R j) \<Longrightarrow> sv_seen (co_servers s ! j) i = Some a"
proof -
  note T = assms(1) [unfolded tracks_def]
  have v: "co_servers s ! j = server_of (ws ! j)" using T assms(3) by simp
  have ready: "ready (ws ! j)" using T assms(3) by simp
  have n: "unat (cl_next_id (client_of (ws ! j))) = length (scheduled sc j)"
    using T assms(2,3) by (simp add: all_drained_def issued_def)
  show "executed (co_servers s ! j) \<subseteq> set (call_ids sc j)"
  proof
    fix i assume "i \<in> executed (co_servers s ! j)"
    then have "unat i < length (scheduled sc j)"
      using ready_executed(1) [OF ready] n v by (metis word_less_nat_alt)
    then have "word_of_nat (unat i) \<in> set (call_ids sc j)"
      unfolding call_ids_def set_map set_upt by (intro imageI) simp
    then show "i \<in> set (call_ids sc j)" by simp
  qed
  show "(i, a) \<in> set (completed_of R j) \<Longrightarrow> sv_seen (co_servers s ! j) i = Some a"
    using ready_executed(2) [OF ready, of i a] T assms(3) v by simp
qed

lemma tracked_log:
  assumes "tracks sc R s ws"
  shows "mset (snd (co_cell s)) = (\<Sum>j < length ws. contents (asked_by sc j) (co_servers s ! j))"
    and "mset (map fst (snd (co_cell s)))
      = (\<Sum>j < length ws. image_mset (asked_by sc j) (mset_set (executed (co_servers s ! j))))"
proof -
  have "(\<Sum>j < length ws. contents (asked_by sc j) (server_of (ws ! j)))
      = (\<Sum>j < length ws. contents (asked_by sc j) (co_servers s ! j))"
    using assms by (intro sum.cong) (simp_all add: tracks_def)
  then show log: "mset (snd (co_cell s)) = (\<Sum>j < length ws. contents (asked_by sc j) (co_servers s ! j))"
    using assms by (simp add: tracks_def)
  have "image_mset fst (contents P v) = image_mset P (mset_set (executed v))" for P v
    by (simp add: contents_def entry_def image_mset.compositionality comp_def)
  then show "mset (map fst (snd (co_cell s)))
      = (\<Sum>j < length ws. image_mset (asked_by sc j) (mset_set (executed (co_servers s ! j))))"
    using sum_comp_morphism [of "image_mset fst" "\<lambda>j. contents (asked_by sc j) (co_servers s ! j)" "{..<length ws}"]
    by (simp add: log comp_def)
qed

text \<open>All calls of all clients ask, together, for the operations of the schedule.\<close>

lemma calls_asked:
  assumes "length sc < 2 ^ 64"
  shows "image_mset (asked_by sc j) (mset_set (set (call_ids sc j))) = mset (scheduled sc j)"
proof -
  have "map (asked_by sc j) (call_ids sc j) = scheduled sc j"
    using assms length_scheduled_le [of sc j]
    by (intro nth_equalityI) (simp_all add: call_ids_def asked_by_def unat_of_nat take_bit_nat_eq_self)
  then show ?thesis
    using mset_set_set [OF distinct_call_ids [OF assms]] by (metis mset_map)
qed

lemma all_scheduled:
  "\<forall>x \<in> set sc. fst (snd x) < n \<Longrightarrow> (\<Sum>j < n. mset (scheduled sc j)) = mset (map (snd \<circ> snd) sc)"
proof (induction sc)
  case (Cons x sc)
  have "mset (scheduled (x # sc) j) = (if j = fst (snd x) then {#snd (snd x)#} else {#}) + mset (scheduled sc j)" for j
    by (simp add: scheduled_def)
  then show ?case using Cons by (simp add: sum.distrib)
qed (simp add: scheduled_def)

lemma executed_ops:
  assumes "tracks sc R s ws" and "all_drained sc s" and "length sc < 2 ^ 64"
    and "\<forall>x \<in> set sc. fst (snd x) < length ws"
  shows "mset (map fst (snd (co_cell s))) \<subseteq># mset (map (snd \<circ> snd) sc)"
    and "\<forall>j < length ws. executed (co_servers s ! j) = set (call_ids sc j) \<Longrightarrow>
      mset (map fst (snd (co_cell s))) = mset (map (snd \<circ> snd) sc)"
proof -
  let ?E = "\<lambda>j. executed (co_servers s ! j)"
  have all: "mset (map (snd \<circ> snd) sc) = (\<Sum>j < length ws. image_mset (asked_by sc j) (mset_set (set (call_ids sc j))))"
    using all_scheduled [OF assms(4)] by (simp add: calls_asked [OF assms(3)])
  have "mset_set (set (call_ids sc j)) = mset_set (?E j) + mset_set (set (call_ids sc j) - ?E j)" if "j < length ws" for j
    using tracked_calls(1) [OF assms(1,2) that] by (subst mset_set_Union [symmetric]) (auto simp: Un_absorb1)
  then have "(\<Sum>j < length ws. image_mset (asked_by sc j) (mset_set (set (call_ids sc j))))
      = (\<Sum>j < length ws. image_mset (asked_by sc j) (mset_set (?E j)))
        + (\<Sum>j < length ws. image_mset (asked_by sc j) (mset_set (set (call_ids sc j) - ?E j)))"
    by (simp flip: sum.distrib)
  then show "mset (map fst (snd (co_cell s))) \<subseteq># mset (map (snd \<circ> snd) sc)"
    unfolding all tracked_log(2) [OF assms(1)] by simp
  show "mset (map fst (snd (co_cell s))) = mset (map (snd \<circ> snd) sc)" if "\<forall>j < length ws. ?E j = set (call_ids sc j)"
    unfolding all tracked_log(2) [OF assms(1)] using that by (intro sum.cong) simp_all
qed

text \<open>C12. Exactly once, call by call, for a runnable configuration (two million calls at most, keys of at
  most nine digits, profiles that never both corrupt and truncate) that ends with a summary. The log of
  executions that the run checks consists, up to order, of one entry for each call in the tables of the
  servers, namely its operation in the schedule and its answer there, and of nothing else: no call is
  executed twice. Only scheduled calls are in the tables; every call whose completion was polled is, with
  the very answer that was polled. So the operations executed are a sub-multiset of those scheduled; and
  when the summary counts no failure, every scheduled call was executed, exactly once.\<close>

theorem chaos_exactly_once:
  assumes "orderly ord" and "runnable cfg" and "run_chaos ord cfg = Some (Inr su)"
  shows "\<exists>sc t s R. make_schedule cfg (cf_calls cfg) 1 (cf_seed cfg) = Some sc
    \<and> watch_run ord cfg = Some (Inr (t, s), R) \<and> chaos_verdict cfg t s = Inr su
    \<and> su_executions su = length (snd (co_cell s))
    \<and> mset (snd (co_cell s)) = (\<Sum>j < cf_clients cfg. contents (asked_by sc j) (co_servers s ! j))
    \<and> (\<forall>j < cf_clients cfg. executed (co_servers s ! j) \<subseteq> set (call_ids sc j)
        \<and> (\<forall>(i, a) \<in> set (completed_of R j). sv_seen (co_servers s ! j) i = Some a))
    \<and> mset (map fst (snd (co_cell s))) \<subseteq># mset (map (snd \<circ> snd) sc)
    \<and> (su_calls_failed su = 0 \<longrightarrow>
        (\<forall>j < cf_clients cfg. executed (co_servers s ! j) = set (call_ids sc j))
        \<and> mset (map fst (snd (co_cell s))) = mset (map (snd \<circ> snd) sc))"
proof -
  have small: "cf_calls cfg < 2 ^ 64" using assms(2) by (simp add: runnable_def max_calls_def)
  obtain sc t s R where w: "make_schedule cfg (cf_calls cfg) 1 (cf_seed cfg) = Some sc"
    "watch_run ord cfg = Some (Inr (t, s), R)" "chaos_verdict cfg t s = Inr su" "accounts sc R s"
    "length (co_links s) = cf_clients cfg" "t \<le> max 1 (cf_max_ticks cfg)" "all_drained sc s" "log_ok (co_cell s)"
    "\<forall>l \<in> set (co_links s). cl_completed (kl_client l) = [] \<and> cl_failed (kl_client l) = []"
    by (rule watched_summary [OF assms(1) small assms(3)])
  have "\<exists>ws. tracks sc R s ws \<and> length ws = cf_clients cfg"
    by (rule runnable_run [OF assms(1,2)]) (use w(1,2) in auto)
  then obtain ws where ws: "tracks sc R s ws" "length ws = cf_clients cfg" by blast
  have su: "su_executions su = length (snd (co_cell s))" "su_calls_failed su = co_failed s"
    using w(3) by (auto simp: verdict_of_log [OF w(8)])
  have sc: "length sc < 2 ^ 64" "\<forall>x \<in> set sc. fst (snd x) < length ws"
    using length_make_schedule [OF w(1)] small make_schedule_clients [OF w(1)] ws(2) by simp_all
  note E = executed_ops [OF ws(1) w(7) sc] and C = tracked_calls [OF ws(1) w(7)]
  have full: "executed (co_servers s ! j) = set (call_ids sc j)" if "su_calls_failed su = 0" "j < cf_clients cfg" for j
  proof -
    have "failed_of R j = []" using summary_counts(1) [OF w(1) small w(4,7,5,9)] su(2) that by simp
    then have "set (call_ids sc j) = fst ` set (completed_of R j)"
      using reported_once(2) [OF w(4,7) _ w(9), of j] that(2) w(5) by simp
    also have "\<dots> \<subseteq> executed (co_servers s ! j)" using C(2) that(2) ws(2) by (auto simp: executed_def)
    finally show ?thesis using C(1) that(2) ws(2) by (intro subset_antisym) simp_all
  qed
  show ?thesis
    using w(1-3) su(1) tracked_log(1) [OF ws(1)] E C full ws(2)
    by (intro exI [of _ sc] exI [of _ t] exI [of _ s] exI [of _ R]) auto
qed

theorem chaos_exactly_once_witness:
  "\<exists>t s R. watch_run by_id chaos_demo = Some (Inr (t, s), R) \<and> map fst (snd (co_cell s)) = [Get [107, 51]]
    \<and> executed (co_servers s ! 0) = {0}"
proof -
  have demo: "cf_clients chaos_demo = 1" by (simp add: chaos_demo_def)
  from chaos_exactly_once [OF orderly_by_id runnable_demo chaos_demo_run] chaos_demo_schedule
  obtain t s R where w: "watch_run by_id chaos_demo = Some (Inr (t, s), R)"
    "executed (co_servers s ! 0) = set (call_ids [(2, 0, Get [107, 51])] 0)"
    "mset (map fst (snd (co_cell s))) = {#Get [107, 51]#}"
    by (auto simp: demo)
  have "executed (co_servers s ! 0) = {0}" using w(2) by (simp add: call_ids_def scheduled_def)
  moreover have "map fst (snd (co_cell s)) = [Get [107, 51]]" using w(3) by (metis mset_single_iff_right)
  ultimately show ?thesis using w(1) by (intro exI conjI)
qed

end
