(* ===== verification/Chaos_Drain.thy ===== *)
theory Chaos_Drain
  imports Chaos_Total
begin

text \<open>
  A chaos run drains: every call has an answer or has been given up within 60 retry deadlines of the
  tick at which it was issued, whatever the channels do, so a run with that many ticks to spare after
  its schedule never fails. The retry deadline of the runner is 25 ticks.
\<close>

section \<open>What a sweep leaves pending\<close>

lemma client_on_tick_pending:
  assumes "visits ids c" and "client_on_tick ids c now = Some (c', out)"
  shows "cl_pending c' i = (case cl_pending c i of None \<Rightarrow> None
      | Some k \<Rightarrow> if overdue now c k \<and> exhausted c k then None else Some (swept now c k))"
    and "cl_retry_deadline c' = cl_retry_deadline c" and "cl_max_attempts c' = cl_max_attempts c"
proof -
  let ?e = "\<lparr>ep_conn = cl_conn c, ep_wire = [], ep_sent = [], ep_recvd = []\<rparr>"
  let ?c1 = "c\<lparr>cl_pending := \<lambda>i. if i \<in> set ids then map_option (swept now c) (cl_pending c i) else cl_pending c i\<rparr>"
  let ?tf = "calls_where c (\<lambda>k. overdue now c k \<and> exhausted c k) ids"
  have ids: "distinct ids" "i \<in> set ids \<longleftrightarrow> cl_pending c i \<noteq> None" using assms(1) by (auto simp: visits_def)
  have c': "c' = fold fail_call ?tf (?c1\<lparr>cl_conn := cl_conn c'\<rparr>)"
    using client_tick_run(2) [of ids c now c' out ?e, OF assms(2)] retry_plan_sweep [OF ids(1), of now c "[]"] by simp
  have frame: "cl_retry_deadline (fold fail_call xs x) = cl_retry_deadline x" for xs x
    by (induction xs arbitrary: x) (simp_all add: fail_call_def)
  have "cl_pending c' = cl_pending ?c1 |` (- set ?tf)"
    by (subst c') (simp add: fail_calls_pending)
  then show "cl_pending c' i = (case cl_pending c i of None \<Rightarrow> None
      | Some k \<Rightarrow> if overdue now c k \<and> exhausted c k then None else Some (swept now c k))"
    using ids(2) by (auto simp: restrict_map_def calls_where_def split: option.split)
  show "cl_retry_deadline c' = cl_retry_deadline c" by (subst c') (simp add: frame)
  show "cl_max_attempts c' = cl_max_attempts c" by (subst c') simp
qed

section \<open>Calls on time\<close>

text \<open>
  After tick \<open>t\<close> a pending call was last sent less than 25 ticks ago, and no later than its number of
  attempts allows for a call issued by tick \<open>L\<close>.
\<close>

definition on_time :: "nat \<Rightarrow> nat \<Rightarrow> pending_call \<Rightarrow> bool" where
  "on_time L t k \<longleftrightarrow> pk_attempts k \<le> 60 \<and> t < unat (ticks (pk_sent_at k)) + 25
     \<and> unat (ticks (pk_sent_at k)) + 25 \<le> L + 25 * unat (pk_attempts k)"

definition timely :: "nat \<Rightarrow> nat \<Rightarrow> rpc_client \<Rightarrow> bool" where
  "timely L t c \<longleftrightarrow> cl_retry_deadline c = 25 \<and> cl_max_attempts c = 60
     \<and> (\<forall>i k. cl_pending c i = Some k \<longrightarrow> on_time L t k)"

lemma timely_new: "timely L t (client_new cn 25 60)"
  by (simp add: timely_def client_new_def)

lemma timely_over:
  assumes "timely L t c" and "L + 1500 \<le> t"
  shows "cl_pending c = Map.empty"
proof
  fix i
  have "\<not> on_time L t k" for k :: pending_call
    using assms(2) by (auto simp: on_time_def word_le_nat_alt)
  then show "cl_pending c i = None" using assms(1) by (cases "cl_pending c i") (auto simp: timely_def)
qed

lemma timely_call:
  assumes "timely L t c" and "kv_call c (Tick u) op = Some (i, c', out)" and "unat u = Suc t" and "Suc t \<le> L"
  shows "timely L t c'"
proof -
  obtain cn r where c': "c' = c\<lparr>cl_next_id := cl_next_id c + 1, cl_conn := cn, cl_pending := (cl_pending c)(cl_next_id c \<mapsto>
      \<lparr>pk_request = r, pk_sent_at = Tick u, pk_attempts = 1\<rparr>)\<rparr>"
    using assms(2) by (auto simp: kv_call_def client_call_def Let_def)
  have "on_time L t \<lparr>pk_request = r, pk_sent_at = Tick u, pk_attempts = 1\<rparr>"
    using assms(3,4) by (simp add: on_time_def)
  then show ?thesis using assms(1) by (simp add: c' timely_def)
qed

lemma timely_datagram:
  assumes "timely L t c" and "client_on_datagram c now d = Some (c', out)"
  shows "timely L t c'"
proof -
  obtain cn rd fs where c': "c' = fold take_response fs (c\<lparr>cl_conn := cn, cl_reader := rd\<rparr>)"
    using assms(2) by (auto simp: client_on_datagram_def split: bind_splits prod.splits)
  have "timely L t (take_response f x)" if "timely L t x" for f x
    using that by (simp add: take_response_def timely_def split: option.split)
  then have fold: "timely L t (fold take_response fs x)" if "timely L t x" for x
    using that by (induction fs arbitrary: x) simp_all
  show ?thesis unfolding c' by (rule fold) (use assms(1) in \<open>simp add: timely_def\<close>)
qed

lemma timely_arrivals:
  "timely L t c \<Longrightarrow> client_arrivals now ds c c2s = Some (c', c2s') \<Longrightarrow> timely L t c'"
proof (induction ds arbitrary: c c2s)
  case (Cons d ds)
  then obtain c1 out s1 where "client_on_datagram c now d = Some (c1, out)"
    "client_arrivals now ds c1 s1 = Some (c', c2s')" by (auto split: bind_splits)
  then show ?case using Cons.IH timely_datagram [OF Cons.prems(1)] by blast
qed simp

lemma swept_on_time:
  assumes "on_time L t k" and "unat u = Suc t" and "cl_retry_deadline c = 25" and "cl_max_attempts c = 60"
    and "\<not> (overdue (Tick u) c k \<and> exhausted c k)"
  shows "on_time L (Suc t) (swept (Tick u) c k)"
proof (cases "overdue (Tick u) c k")
  case True
  have n: "unat (pk_attempts k + 1) = Suc (unat (pk_attempts k))"
    by (rule attempt_counted [of k 60]) (use assms(1) in \<open>simp_all add: on_time_def\<close>)
  have "25 \<le> Suc t - unat (ticks (pk_sent_at k))"
    using True assms(2,3) by (simp add: overdue_def tick_sub_def word_le_nat_alt unat_sat_sub)
  then have "Suc t = unat (ticks (pk_sent_at k)) + 25" using assms(1) unfolding on_time_def by linarith
  moreover have "pk_attempts k + 1 \<le> 60" using assms(4,5) True by (simp add: exhausted_def not_less)
  ultimately show ?thesis
    using assms True n by (simp add: on_time_def swept_def)
next
  case False
  then have "\<not> 25 \<le> Suc t - unat (ticks (pk_sent_at k))"
    using assms(2,3) by (simp add: overdue_def tick_sub_def word_le_nat_alt unat_sat_sub)
  then show ?thesis using assms(1) False by (simp add: on_time_def swept_def)
qed

lemma timely_tick:
  assumes "timely L t c" and "visits ids c" and "client_on_tick ids c (Tick u) = Some (c', out)" and "unat u = Suc t"
  shows "timely L (Suc t) c'"
proof -
  note P = client_on_tick_pending [OF assms(2,3)]
  have "on_time L (Suc t) k'" if k': "cl_pending c' i = Some k'" for i k'
  proof -
    obtain k where "cl_pending c i = Some k" "\<not> (overdue (Tick u) c k \<and> exhausted c k)" "k' = swept (Tick u) c k"
      using k' P(1) [of i] by (auto split: option.splits if_splits)
    then show ?thesis using swept_on_time [OF _ assms(4)] assms(1) by (simp add: timely_def)
  qed
  then show ?thesis using assms(1) P(2,3) by (simp add: timely_def)
qed

section \<open>A tick of the run\<close>

abbreviation all_timely :: "nat \<Rightarrow> nat \<Rightarrow> client_link list \<Rightarrow> bool" where
  "all_timely L t ls \<equiv> \<forall>l \<in> set ls. timely L t (kl_client l)"

lemma pump_timely:
  assumes "orderly ord" and "timely L t (kl_client l)" and "unat u = Suc t"
    and "pump ord u i cell l v = Some (cell', l', v')"
  shows "timely L (Suc t) (kl_client l')"
  using assms(4)
proof (rule pumpE)
  fix ds c2s c1 c2s1 out
  assume "client_arrivals (Tick u) ds (kl_client l) c2s = Some (c1, c2s1)"
    and tick: "client_on_tick (ord u i c1) c1 (Tick u) = Some (kl_client l', out)"
  then have "timely L t c1" using timely_arrivals [OF assms(2)] by blast
  then show ?thesis using timely_tick [OF _ _ tick assms(3)] assms(1) by (simp add: orderly_def)
qed

lemma pump_all_timely:
  assumes "orderly ord" and "unat u = Suc t"
  shows "all_timely L t ls \<Longrightarrow> length vs = length ls \<Longrightarrow> pump_all ord u i cell ls vs = Some (cell', ls', vs') \<Longrightarrow>
    all_timely L (Suc t) ls' \<and> length vs' = length ls'"
proof (induction ls arbitrary: i cell vs ls' vs')
  case (Cons l ls)
  obtain v ws where vs: "vs = v # ws" using Cons.prems(2) by (cases vs) simp_all
  obtain cell1 l1 v1 ls1 vs1 where p: "pump ord u i cell l v = Some (cell1, l1, v1)"
    "pump_all ord u (Suc i) cell1 ls ws = Some (cell', ls1, vs1)" "ls' = l1 # ls1" "vs' = v1 # vs1"
    using Cons.prems(3) unfolding vs by (rule pump_allE)
  have "timely L (Suc t) (kl_client l1)"
    using pump_timely [OF assms(1) _ assms(2) p(1)] Cons.prems(1) by simp
  moreover have "all_timely L (Suc t) ls1 \<and> length vs1 = length ls1"
    using Cons.IH [OF _ _ p(2)] Cons.prems(1,2) vs by simp
  ultimately show ?case by (simp add: p(3,4))
qed simp

text \<open>The state of a run after tick \<open>t\<close>: nothing is late, and what is not issued lies in the future.\<close>

definition prompt :: "nat \<Rightarrow> (u64 \<times> nat \<times> op) list \<Rightarrow> nat \<Rightarrow> chaos \<Rightarrow> bool" where
  "prompt L sc t s \<longleftrightarrow> all_timely L t (co_links s) \<and> length (co_servers s) = length (co_links s)
     \<and> co_fired s \<le> length sc \<and> (co_fired s < length sc \<longrightarrow> t < unat (fst (sc ! co_fired s)))"

lemma fire_call_timely:
  assumes "fire_call (Tick u) idx op s = Some s'" and "all_timely L t (co_links s)" and "unat u = Suc t" and "Suc t \<le> L"
  shows "all_timely L t (co_links s')" and "length (co_links s') = length (co_links s)"
    and "co_servers s' = co_servers s" and "co_fired s' = Suc (co_fired s)"
proof -
  let ?l = "co_links s ! idx"
  obtain i c out c2s where f: "idx < length (co_links s)" "kv_call (kl_client ?l) (Tick u) op = Some (i, c, out)"
    "s' = s\<lparr>co_links := (co_links s)[idx := ?l\<lparr>kl_client := c, kl_c2s := c2s\<rparr>],
       co_expected := co_expected s @ [i], co_fired := co_fired s + 1\<rparr>"
    using assms(1) by (auto simp: fire_call_def Let_def split: if_splits bind_splits)
  have "timely L t c" using timely_call [OF _ f(2) assms(3,4)] assms(2) f(1) by simp
  then show "all_timely L t (co_links s')"
    using assms(2) set_update_subset_insert [of "co_links s" idx] f(3) by fastforce
  show "length (co_links s') = length (co_links s)" "co_servers s' = co_servers s" "co_fired s' = Suc (co_fired s)"
    by (simp_all add: f(3))
qed

lemma fire_calls_timely:
  assumes "sorted_wrt (<) (map fst sc)" and "\<forall>x \<in> set sc. unat (fst x) \<le> L"
  shows "fire_calls sc u s = Some s' \<Longrightarrow> all_timely L t (co_links s) \<Longrightarrow> co_fired s \<le> length sc \<Longrightarrow>
    unat u = Suc t \<Longrightarrow> (co_fired s < length sc \<longrightarrow> t < unat (fst (sc ! co_fired s))) \<Longrightarrow>
    all_timely L t (co_links s') \<and> length (co_links s') = length (co_links s) \<and> co_servers s' = co_servers s
    \<and> co_fired s' \<le> length sc \<and> (co_fired s' < length sc \<longrightarrow> Suc t < unat (fst (sc ! co_fired s')))"
  using assms
proof (induction sc u s rule: fire_calls.induct)
  case (1 sc u s)
  let ?x = "sc ! co_fired s"
  show ?case
  proof (cases "co_fired s < length sc \<and> fst ?x \<le> u")
    case True
    then obtain s1 where s1: "fire_call (Tick u) (fst (snd ?x)) (snd (snd ?x)) s = Some s1" "fire_calls sc u s1 = Some s'"
      using "1.prems"(1) by (auto simp: fire_calls.simps [of sc u s] split: option.splits)
    have x: "unat (fst ?x) = Suc t" using True "1.prems"(4,5) by (simp add: word_le_nat_alt)
    have "unat (fst ?x) \<le> L" using bspec [OF "1.prems"(7), of ?x] True by simp
    then have "Suc t \<le> L" using x by simp
    note F = fire_call_timely [OF s1(1) "1.prems"(2,4) this]
    have "t < unat (fst (sc ! co_fired s1))" if "co_fired s1 < length sc"
    proof -
      have "fst ?x < fst (sc ! co_fired s1)"
        using sorted_wrt_nth_less [OF "1.prems"(6), of "co_fired s" "co_fired s1"] F(4) that by simp
      then show ?thesis using x by (simp add: word_less_nat_alt)
    qed
    then show ?thesis using "1.IH" [OF True s1(1)] s1(2) F True "1.prems"(4,6,7) by auto
  next
    case False
    then have "s' = s" using "1.prems"(1) by (subst (asm) fire_calls.simps) (simp only: if_False option.inject)
    then show ?thesis using "1.prems" False by (auto simp: word_le_nat_alt)
  qed
qed

lemma chaos_tick_prompt:
  assumes "orderly ord" and "sorted_wrt (<) (map fst sc)" and "\<forall>x \<in> set sc. unat (fst x) \<le> L"
    and "prompt L sc t s" and "unat u = Suc t" and "chaos_tick ord seed sw sc u s = Some s'"
  shows "prompt L sc (Suc t) s'"
proof -
  obtain s1 s2 cell ls vs where t: "apply_switches seed sw u s = Some s1" "fire_calls sc u s1 = Some s2"
    "pump_all ord u 0 (co_cell s2) (co_links s2) (co_servers s2) = Some (cell, ls, vs)"
    "s' = poll_all (s2\<lparr>co_cell := cell, co_links := ls, co_servers := vs\<rparr>)"
    using assms(6) by (auto simp: chaos_tick_def split: bind_splits)
  note P = assms(4) [unfolded prompt_def]
  have s1: "map kl_client (co_links s1) = map kl_client (co_links s)" "co_servers s1 = co_servers s" "co_fired s1 = co_fired s"
    using apply_switches_frame [OF t(1)] by simp_all
  have "list_all (timely L t) (map kl_client (co_links s))" using P by (simp add: list_all_iff)
  then have "all_timely L t (co_links s1)" by (simp add: list_all_iff flip: s1(1))
  then have s2: "all_timely L t (co_links s2)" "length (co_servers s2) = length (co_links s2)"
    "co_fired s2 \<le> length sc" "co_fired s2 < length sc \<longrightarrow> Suc t < unat (fst (sc ! co_fired s2))"
    using fire_calls_timely [OF assms(2,3) t(2)] P assms(5) s1 map_eq_imp_length_eq [OF s1(1)] by simp_all
  have "all_timely L (Suc t) ls" "length vs = length ls"
    using pump_all_timely [OF assms(1,5) s2(1,2) t(3)] by simp_all
  then show ?thesis
    using s2(3,4)
    by (auto simp: prompt_def t(4) poll_all_def poll_link_def poll_completed_def poll_failed_def timely_def)
qed

section \<open>The run\<close>

lemma prompt_over:
  assumes "prompt L sc t s" and "\<forall>x \<in> set sc. unat (fst x) \<le> L" and "L + 1500 \<le> t"
  shows "all_drained sc s"
proof -
  have "co_fired s = length sc"
  proof (rule ccontr)
    assume "co_fired s \<noteq> length sc"
    then have "co_fired s < length sc" "t < unat (fst (sc ! co_fired s))" using assms(1) by (auto simp: prompt_def)
    then show False using assms(2,3) nth_mem by fastforce
  qed
  then show ?thesis
    using assms(1) timely_over [OF _ assms(3)] by (auto simp: all_drained_def prompt_def pending_count_def)
qed

lemma chaos_loop_drains:
  assumes "orderly ord" and "sorted_wrt (<) (map fst sc)" and "\<forall>x \<in> set sc. unat (fst x) \<le> L"
    and "L + 1500 \<le> unat (cf_max_ticks cfg)"
  shows "chaos_loop ord cfg sw sc tick s = Some r \<Longrightarrow> prompt L sc (unat tick) s \<Longrightarrow> unat tick < L + 1500 \<Longrightarrow>
    \<exists>t s'. r = Inr (t, s') \<and> unat t \<le> L + 1500"
  using assms
proof (induction ord cfg sw sc tick s rule: chaos_loop.induct)
  case (1 ord cfg sw sc tick s)
  obtain s1 where s1: "chaos_tick ord (cf_seed cfg) sw sc (tick + 1) s = Some s1"
    using "1.prems"(1) by (auto simp: chaos_loop.simps [of ord cfg sw sc tick s] split: option.splits)
  have "tick < cf_max_ticks cfg" using "1.prems"(3,7) by (simp add: word_less_nat_alt)
  then have n: "unat (tick + 1) = Suc (unat tick)" by (rule unat_incr)
  have p: "prompt L sc (unat (tick + 1)) s1"
    using chaos_tick_prompt [OF "1.prems"(4-6,2) n s1] n by simp
  show ?case
  proof (cases "all_drained sc s1")
    case True
    then have "r = Inr (tick + 1, s1)"
      using "1.prems"(1) s1 by (simp add: chaos_loop.simps [of ord cfg sw sc tick s])
    then show ?thesis using n "1.prems"(3) by simp
  next
    case False
    then have less: "unat (tick + 1) < L + 1500" using prompt_over [OF p "1.prems"(6)] by linarith
    then have go: "\<not> cf_max_ticks cfg \<le> tick + 1" using "1.prems"(7) by (simp add: word_le_nat_alt)
    then have "chaos_loop ord cfg sw sc (tick + 1) s1 = Some r"
      using "1.prems"(1) s1 False by (simp add: chaos_loop.simps [of ord cfg sw sc tick s])
    then show ?thesis using "1.IH" [OF s1 False go _ p less "1.prems"(4-7)] by simp
  qed
qed

lemma chaos_start_prompt:
  assumes "chaos_start cfg = Some s" and "\<forall>x \<in> set sc. 0 < fst x"
  shows "prompt L sc 0 s"
proof -
  obtain xs ls vs where x: "setup_all cfg [0..<cf_clients cfg] = Some xs" "send_syns xs = Some (ls, vs)"
    "s = \<lparr>co_links = ls, co_servers = vs, co_cell = (\<lambda>_. None, []), co_fired = 0, co_switched = 0,
      co_expected = [], co_failed = 0\<rparr>"
    using assms(1) by (auto simp: chaos_start_def split: bind_splits)
  have "setup_all cfg is = Some ys \<Longrightarrow> \<forall>y \<in> set ys. timely L 0 (kl_client (fst y))" for "is" ys
    by (induction "is" arbitrary: ys) (auto simp: setup_one_def timely_new split: bind_splits prod.splits)
  then have xs: "\<forall>y \<in> set xs. timely L 0 (kl_client (fst y))" using x(1) by blast
  have "send_syns ys = Some (ks, ws) \<Longrightarrow> map kl_client ks = map (kl_client \<circ> fst) ys \<and> length ws = length ys" for ys ks ws
    by (induction ys arbitrary: ks ws rule: send_syns.induct) (auto split: bind_splits)
  then have ls: "map kl_client ls = map (kl_client \<circ> fst) xs" "length vs = length xs" using x(2) by blast+
  have "list_all (timely L 0) (map kl_client ls)" using xs by (simp add: ls(1) list_all_iff)
  then have "all_timely L 0 ls" by (simp add: list_all_iff)
  moreover have "length vs = length ls" using ls(2) map_eq_imp_length_eq [OF ls(1)] by simp
  ultimately show ?thesis
    using bspec [OF assms(2), of "sc ! 0"] by (auto simp: prompt_def x(3) unat_gt_0)
qed

lemma run_drains:
  assumes "orderly ord" and "4 * cf_calls cfg + 1501 \<le> unat (cf_max_ticks cfg)" and "run_chaos ord cfg = Some r"
  shows "\<exists>su. r = Inr su \<and> unat (su_ticks_used su) \<le> 4 * cf_calls cfg + 1501"
proof -
  let ?L = "4 * cf_calls cfg + 1"
  obtain s sc x where x: "chaos_start cfg = Some s" "make_schedule cfg (cf_calls cfg) 1 (cf_seed cfg) = Some sc"
    "chaos_loop ord cfg (sort_key fst (cf_profile_switches cfg)) sc 0 s = Some x"
    "r = (case x of Inl f \<Rightarrow> Inl f | Inr (tick, s) \<Rightarrow> chaos_verdict cfg tick s)"
    using assms(3) by (rule run_chaosE)
  have "unat (1 :: u64) + 4 * cf_calls cfg < 2 ^ 64"
    using assms(2) unat_less_exp [of "cf_max_ticks cfg"] by simp
  note sc = make_schedule_entries [OF x(2) this]
  then have L: "\<forall>y \<in> set sc. unat (fst y) \<le> ?L" "\<forall>y \<in> set sc. 0 < fst y"
    by (fastforce, fastforce intro: le_less_trans)
  have "?L + 1500 \<le> unat (cf_max_ticks cfg)" using assms(2) by simp
  from chaos_loop_drains [OF assms(1) _ L(1) this x(3)] obtain t s'
    where s': "x = Inr (t, s')" "unat t \<le> ?L + 1500"
    using sc chaos_start_prompt [OF x(1) L(2)] by auto
  then have "log_ok (co_cell s')"
    using chaos_loop_log [OF chaos_start_clients(1) [OF x(1)] x(3)] by simp
  then show ?thesis using x(4) s' by (simp add: verdict_of_log)
qed

text \<open>C10. A chaos run passes, given time: with 1501 ticks beyond four for every call, no run is cut off before
  its calls have drained, whatever its seed, the faults injected and the order of retries, and a run of a
  runnable configuration ends with a summary within that many ticks.\<close>

theorem chaos_passes:
  assumes "orderly ord" and "4 * cf_calls cfg + 1501 \<le> unat (cf_max_ticks cfg)"
  shows "(\<forall>f. run_chaos ord cfg \<noteq> Some (Inl f))
    \<and> (runnable cfg \<longrightarrow> (\<exists>su. run_chaos ord cfg = Some (Inr su) \<and> unat (su_ticks_used su) \<le> 4 * cf_calls cfg + 1501))"
proof (intro conjI allI impI)
  show "run_chaos ord cfg \<noteq> Some (Inl f)" for f using run_drains [OF assms] by blast
  assume "runnable cfg"
  then obtain r where "run_chaos ord cfg = Some r" using runnable_run [OF assms(1)] by metis
  then show "\<exists>su. run_chaos ord cfg = Some (Inr su) \<and> unat (su_ticks_used su) \<le> 4 * cf_calls cfg + 1501"
    using run_drains [OF assms] by blast
qed

theorem chaos_passes_witness:
  "\<exists>su. run_chaos by_id (chaos_config_default\<lparr>cf_initial_profile := near_partition\<rparr>) = Some (Inr su)
     \<and> su_ticks_used su \<le> 1741"
proof -
  let ?cfg = "chaos_config_default\<lparr>cf_initial_profile := near_partition\<rparr>"
  have "usable near_partition" using usable_named by (simp add: all_profiles_def)
  then have "runnable ?cfg" by (simp add: runnable_def chaos_config_default_def max_calls_def)
  then show ?thesis
    using chaos_passes [OF orderly_by_id, of ?cfg] by (simp add: chaos_config_default_def word_le_nat_alt)
qed

end
