(* ===== verification/Cli.thy ===== *)
theory Cli
  imports Chaos_Drain
begin

text \<open>
  The command line of the chaos harness, \<^verbatim>\<open>crates/workload/src/bin/distrans-chaos.rs\<close>, as a function
  from the arguments to the exit code and the lines printed; a line is a value of the datatype
  \<open>output_line\<close>, its wording is not modelled. \<open>str::parse\<close> and \<open>u64::from_str_radix\<close> of the standard
  library are modelled with their errors. Each run iterates hash maps in an order of its own, so the
  order of the \<open>i\<close>-th run is \<open>ords i\<close>.
\<close>

section \<open>Numbers\<close>

datatype parse_error = EmptyInput | InvalidDigit | PosOverflow

definition to_digit :: "nat \<Rightarrow> char \<Rightarrow> nat option" where
  "to_digit radix c =
    (let n = of_char c :: nat;
         v = (if 48 \<le> n \<and> n < 58 then Some (n - 48)
              else if 97 \<le> n \<and> n < 123 then Some (n - 87)
              else if 65 \<le> n \<and> n < 91 then Some (n - 55) else None)
     in case v of None \<Rightarrow> None | Some d \<Rightarrow> if d < radix then Some d else None)"

fun parse_digits :: "nat \<Rightarrow> string \<Rightarrow> u64 \<Rightarrow> parse_error + u64" where
  "parse_digits radix [] acc = Inr acc"
| "parse_digits radix (c # cs) acc =
    (case to_digit radix c of
       None \<Rightarrow> Inl InvalidDigit
     | Some d \<Rightarrow>
        if unat acc * radix + d < 2 ^ 64 then parse_digits radix cs (word_of_nat (unat acc * radix + d))
        else Inl PosOverflow)"

definition from_str_radix :: "nat \<Rightarrow> string \<Rightarrow> parse_error + u64" where
  "from_str_radix radix s =
    (if s = [] then Inl EmptyInput
     else if s = ''+'' \<or> s = ''-'' then Inl InvalidDigit
     else parse_digits radix (if hd s = CHR ''+'' then tl s else s) 0)"

section \<open>Arguments\<close>

datatype cli_error =
    NeedsValue string
  | BadNumber string string parse_error
  | UnknownArgument string
  | UnknownProfile string

definition strip_0x :: "string \<Rightarrow> string option" where
  "strip_0x s = (if take 2 s = ''0x'' then Some (drop 2 s) else None)"

text \<open>The value that follows a flag, with the arguments left.\<close>

definition parse_u64 :: "string \<Rightarrow> string list \<Rightarrow> cli_error + (u64 \<times> string list)" where
  "parse_u64 flag args =
    (case args of
       [] \<Rightarrow> Inl (NeedsValue flag)
     | v # rest \<Rightarrow>
        (case (case strip_0x v of Some hex \<Rightarrow> from_str_radix 16 hex | None \<Rightarrow> from_str_radix 10 v) of
           Inl e \<Rightarrow> Inl (BadNumber flag v e)
         | Inr n \<Rightarrow> Inr (n, rest)))"

record cli_options =
  cli_seed :: u64
  cli_runs :: u64
  cli_profile :: string
  cli_calls :: nat
  cli_clients :: nat

definition cli_default :: cli_options where
  "cli_default = \<lparr>cli_seed = 0, cli_runs = 1, cli_profile = ''clean'', cli_calls = 60, cli_clients = 3\<rparr>"

datatype cli_stop = Help | Usage cli_error

text \<open>One pass of the \<open>while let\<close>: the options and the arguments left, or the reason to stop.\<close>

definition parse_flag :: "string \<Rightarrow> string list \<Rightarrow> cli_options \<Rightarrow> cli_stop + (cli_options \<times> string list)" where
  "parse_flag flag args opts =
    (let number = (\<lambda>set. case parse_u64 flag args of
         Inl e \<Rightarrow> Inl (Usage e)
       | Inr (n, rest) \<Rightarrow> Inr (set n, rest))
     in if flag = ''--seed'' then number (\<lambda>n. opts\<lparr>cli_seed := n\<rparr>)
        else if flag = ''--runs'' then number (\<lambda>n. opts\<lparr>cli_runs := n\<rparr>)
        else if flag = ''--calls'' then number (\<lambda>n. opts\<lparr>cli_calls := unat n\<rparr>)
        else if flag = ''--clients'' then number (\<lambda>n. opts\<lparr>cli_clients := unat n\<rparr>)
        else if flag = ''--profile'' then
          (case args of
             [] \<Rightarrow> Inl (Usage (NeedsValue flag))
           | v # rest \<Rightarrow> Inr (opts\<lparr>cli_profile := v\<rparr>, rest))
        else if flag = ''--help'' \<or> flag = ''-h'' then Inl Help
        else Inl (Usage (UnknownArgument flag)))"

lemma parse_flag_shrinks: "parse_flag flag args opts = Inr (opts', rest) \<Longrightarrow> length rest < length args"
  by (auto simp: parse_flag_def parse_u64_def Let_def split: if_splits list.splits sum.splits)

function parse_args :: "string list \<Rightarrow> cli_options \<Rightarrow> cli_stop + cli_options" where
  "parse_args [] opts = Inr opts"
| "parse_args (flag # args) opts =
    (case parse_flag flag args opts of
       Inl stop \<Rightarrow> Inl stop
     | Inr (opts', rest) \<Rightarrow> parse_args rest opts')"
  by pat_completeness auto
termination
  by (relation "measure (\<lambda>(args, opts). length args)")
    (auto dest: parse_flag_shrinks)

section \<open>The runs\<close>

datatype output_line =
    ErrorLine cli_error
  | HelpLines "string list"
  | FailureLine chaos_failure
  | SummaryLine string chaos_summary
  | TotalLine cli_options u64 nat nat

definition cli_config :: "cli_options \<Rightarrow> fault_profile \<Rightarrow> u64 \<Rightarrow> chaos_config" where
  "cli_config opts profile i = chaos_config_default\<lparr>cf_seed := cli_seed opts + i,
     cf_clients := cli_clients opts, cf_calls := cli_calls opts, cf_initial_profile := profile,
     cf_max_ticks := 300000\<rparr>"

text \<open>\<open>n\<close> runs are left, the next is number \<open>i\<close>; \<open>Inl\<close> is the output of a failure.\<close>

fun run_seeds :: "(u64 \<Rightarrow> visit_order) \<Rightarrow> cli_options \<Rightarrow> fault_profile \<Rightarrow> nat \<Rightarrow> u64 \<Rightarrow> nat \<Rightarrow> nat
    \<Rightarrow> output_line list \<Rightarrow> (output_line list + nat \<times> nat \<times> output_line list) option" where
  "run_seeds ords opts profile 0 i execs fails out = Some (Inr (execs, fails, out))"
| "run_seeds ords opts profile (Suc n) i execs fails out =
    (case run_chaos (ords i) (cli_config opts profile i) of
       None \<Rightarrow> None
     | Some (Inl f) \<Rightarrow> Some (Inl (out @ [FailureLine f]))
     | Some (Inr summary) \<Rightarrow>
        run_seeds ords opts profile n (i + 1) (execs + su_executions summary)
          (fails + su_calls_failed summary)
          (if cli_runs opts = 1 then out @ [SummaryLine (cli_profile opts) summary] else out))"

definition find_profile :: "string \<Rightarrow> fault_profile option" where
  "find_profile name = map_option snd (List.find (\<lambda>(n, _). n = name) all_profiles)"

text \<open>The exit code and the lines printed; None when a run does not return.\<close>

definition cli_main :: "(u64 \<Rightarrow> visit_order) \<Rightarrow> string list \<Rightarrow> (u8 \<times> output_line list) option" where
  "cli_main ords args =
    (case parse_args args cli_default of
       Inl Help \<Rightarrow> Some (0, [HelpLines (map fst all_profiles)])
     | Inl (Usage e) \<Rightarrow> Some (2, [ErrorLine e])
     | Inr opts \<Rightarrow>
        (case find_profile (cli_profile opts) of
           None \<Rightarrow> Some (2, [ErrorLine (UnknownProfile (cli_profile opts))])
         | Some profile \<Rightarrow>
            (case run_seeds ords opts profile (unat (cli_runs opts)) 0 0 0 [] of
               None \<Rightarrow> None
             | Some (Inl out) \<Rightarrow> Some (1, out)
             | Some (Inr (execs, fails, out)) \<Rightarrow>
                Some (0, if 1 < cli_runs opts
                  then out @ [TotalLine opts (cli_seed opts + (cli_runs opts - 1)) execs fails]
                  else out))))"

text \<open>The command a failure prints for its replay (\<open>Display\<close> of \<open>ChaosFailure\<close>), with \<open>{:#x}\<close>.\<close>

fun hex_digits :: "nat \<Rightarrow> string" where
  "hex_digits n =
    (let c = char_of (if n mod 16 < 10 then 48 + n mod 16 else 87 + n mod 16)
     in if n < 16 then [c] else hex_digits (n div 16) @ [c])"

declare hex_digits.simps [simp del]

definition replay_args :: "chaos_failure \<Rightarrow> string list" where
  "replay_args f = [''--seed'', ''0x'' @ hex_digits (unat (fa_seed f))]"

section \<open>Numbers survive printing\<close>

lemma parse_digits_append:
  "parse_digits radix (xs @ ys) acc =
    (case parse_digits radix xs acc of Inl e \<Rightarrow> Inl e | Inr a \<Rightarrow> parse_digits radix ys a)"
  by (induction radix xs acc rule: parse_digits.induct) (auto split: option.split)

lemma to_digit_hex:
  assumes "d < 16"
  shows "to_digit 16 (char_of (if d < 10 then 48 + d else 87 + d)) = Some d"
  using assms by (auto simp: to_digit_def Let_def)

lemma parse_hex_digits:
  "n < 2 ^ 64 \<Longrightarrow> parse_digits 16 (hex_digits n) 0 = Inr (word_of_nat n)"
proof (induction n rule: hex_digits.induct)
  case (1 n)
  let ?c = "char_of (if n mod 16 < 10 then 48 + n mod 16 else 87 + n mod 16) :: char"
  note D = to_digit_hex [of "n mod 16"]
  show ?case
  proof (cases "n < 16")
    case True
    then show ?thesis using D "1.prems" by (subst hex_digits.simps) (simp add: Let_def)
  next
    case False
    have IH: "parse_digits 16 (hex_digits (n div 16)) 0 = Inr (word_of_nat (n div 16))"
      using "1.IH" [OF refl False] "1.prems" by simp
    have u: "unat (word_of_nat (n div 16) :: u64) = n div 16"
      using "1.prems" by (simp add: unat_of_nat)
    have "n div 16 * 16 + n mod 16 = n" by simp
    then show ?thesis
      using False D "1.prems" by (subst hex_digits.simps) (simp add: Let_def parse_digits_append IH u)
  qed
qed

lemma hex_digits_plain:
  "hex_digits n \<noteq> []" "c \<in> set (hex_digits n) \<Longrightarrow> c \<noteq> CHR ''+'' \<and> c \<noteq> CHR ''-''"
proof -
  have plain: "(char_of (if d < 10 then 48 + d else 87 + d) :: char) \<noteq> CHR ''+''
      \<and> (char_of (if d < 10 then 48 + d else 87 + d) :: char) \<noteq> CHR ''-''" if "d < 16" for d :: nat
  proof -
    let ?c = "char_of (if d < 10 then 48 + d else 87 + d) :: char"
    have "to_digit 16 ?c \<noteq> None" using to_digit_hex [OF that] by simp
    moreover have "to_digit 16 CHR ''+'' = None" "to_digit 16 CHR ''-'' = None"
      by (simp_all add: to_digit_def)
    ultimately show ?thesis by metis
  qed
  show "hex_digits n \<noteq> []" by (subst hex_digits.simps) (simp add: Let_def)
  show "c \<in> set (hex_digits n) \<Longrightarrow> c \<noteq> CHR ''+'' \<and> c \<noteq> CHR ''-''"
  proof (induction n rule: hex_digits.induct)
    case (1 n)
    then show ?case
      using plain [of "n mod 16"] by (subst (asm) (2) hex_digits.simps) (auto simp: Let_def split: if_splits)
  qed
qed

lemma from_str_radix_hex: "n < 2 ^ 64 \<Longrightarrow> from_str_radix 16 (hex_digits n) = Inr (word_of_nat n)"
proof -
  assume n: "n < 2 ^ 64"
  have "hd (hex_digits n) \<in> set (hex_digits n)" using hex_digits_plain(1) by (rule hd_in_set)
  then have "hd (hex_digits n) \<noteq> CHR ''+''" "hd (hex_digits n) \<noteq> CHR ''-''"
    using hex_digits_plain(2) by blast+
  then show ?thesis
    using parse_hex_digits [OF n] hex_digits_plain(1) [of n] by (auto simp: from_str_radix_def)
qed

section \<open>What the exit code says\<close>

lemma run_chaos_failure_seed:
  assumes "run_chaos ord cfg = Some (Inl f)"
  shows "fa_seed f = cf_seed cfg"
proof -
  obtain s sc x where x: "chaos_start cfg = Some s"
    "chaos_loop ord cfg (sort_key fst (cf_profile_switches cfg)) sc 0 s = Some x"
    "Inl f = (case x of Inl f \<Rightarrow> Inl f | Inr (tick, s) \<Rightarrow> chaos_verdict cfg tick s)"
    using assms by (rule run_chaosE)
  then show ?thesis
    using chaos_loop_log [OF chaos_start_clients(1) [OF x(1)] x(2)]
    by (auto simp: verdict_of_log split: sum.splits prod.splits)
qed

definition seed_passes :: "(u64 \<Rightarrow> visit_order) \<Rightarrow> cli_options \<Rightarrow> fault_profile \<Rightarrow> nat \<Rightarrow> bool" where
  "seed_passes ords opts profile i \<longleftrightarrow>
    (\<exists>su. run_chaos (ords (word_of_nat i)) (cli_config opts profile (word_of_nat i)) = Some (Inr su))"

lemma run_seeds_result:
  assumes "run_seeds ords opts profile n (word_of_nat k) execs fails out = Some r"
    and "\<forall>j < k. seed_passes ords opts profile j"
  shows "case r of
      Inr _ \<Rightarrow> \<forall>j < k + n. seed_passes ords opts profile j
    | Inl out' \<Rightarrow> \<exists>i f. i < k + n \<and> (\<forall>j < i. seed_passes ords opts profile j) \<and> last out' = FailureLine f
        \<and> run_chaos (ords (word_of_nat i)) (cli_config opts profile (word_of_nat i)) = Some (Inl f)"
  using assms
proof (induction n arbitrary: k execs fails out)
  case (Suc n)
  obtain x where x: "run_chaos (ords (word_of_nat k)) (cli_config opts profile (word_of_nat k)) = Some x"
    using Suc.prems(1) by (auto split: option.splits)
  show ?case
  proof (cases x)
    case (Inl f)
    then have "r = Inl (out @ [FailureLine f])" using Suc.prems(1) x by simp
    moreover have "k < k + Suc n" by simp
    ultimately show ?thesis using x Inl Suc.prems(2) by (simp only: sum.case) (metis last_snoc)
  next
    case (Inr su)
    then have "\<forall>j < Suc k. seed_passes ords opts profile j"
      using Suc.prems(2) x by (auto simp: seed_passes_def less_Suc_eq)
    moreover have "\<exists>execs fails out.
        run_seeds ords opts profile n (word_of_nat (Suc k)) execs fails out = Some r"
      using Suc.prems(1) x Inr by (auto simp: add.commute)
    ultimately show ?thesis using Suc.IH [of "Suc k"] unfolding add_Suc_shift by blast
  qed
qed auto

text \<open>C37. A failing run can be selected again by its printed command, but only its seed: whatever options
  a chaos failure was found with, the command it prints parses, without error, to that seed with the
  default profile, number of calls and number of clients.\<close>

theorem replay_command_keeps_only_seed:
  "parse_args (replay_args f) cli_default = Inr (cli_default\<lparr>cli_seed := fa_seed f\<rparr>)"
proof -
  have "unat (fa_seed f) < 2 ^ 64" using unat_less_exp [of "fa_seed f"] by simp
  then have "from_str_radix 16 (hex_digits (unat (fa_seed f))) = Inr (fa_seed f)"
    using from_str_radix_hex by simp
  then show ?thesis
    by (simp add: replay_args_def parse_flag_def parse_u64_def strip_0x_def)
qed

text \<open>C36. The exit code of the harness is right: with valid arguments, 0 means that every one of the
  requested seeds passed, and 1 that the seeds before some \<open>i\<close> passed while seed \<open>i\<close> failed, its
  failure, with that very seed, being the last line printed.\<close>

theorem cli_exit_status:
  assumes "parse_args args cli_default = Inr opts" and "find_profile (cli_profile opts) = Some profile"
    and "cli_main ords args = Some (code, out)"
  shows "code = 0 \<and> (\<forall>i < unat (cli_runs opts). seed_passes ords opts profile i)
    \<or> code = 1 \<and> (\<exists>i f. i < unat (cli_runs opts) \<and> (\<forall>j < i. seed_passes ords opts profile j)
        \<and> run_chaos (ords (word_of_nat i)) (cli_config opts profile (word_of_nat i)) = Some (Inl f)
        \<and> fa_seed f = cli_seed opts + word_of_nat i \<and> last out = FailureLine f)"
proof -
  let ?n = "unat (cli_runs opts)"
  obtain r where r: "run_seeds ords opts profile ?n 0 0 0 [] = Some r"
    using assms by (auto simp: cli_main_def split: option.splits)
  then have R: "case r of
      Inr _ \<Rightarrow> \<forall>j < ?n. seed_passes ords opts profile j
    | Inl out' \<Rightarrow> \<exists>i f. i < ?n \<and> (\<forall>j < i. seed_passes ords opts profile j) \<and> last out' = FailureLine f
        \<and> run_chaos (ords (word_of_nat i)) (cli_config opts profile (word_of_nat i)) = Some (Inl f)"
    using run_seeds_result [of ords opts profile ?n 0 0 0 "[]" r] by (simp only: of_nat_0 add_0) simp
  show ?thesis
  proof (cases r)
    case (Inl out')
    then have c: "code = 1" "out = out'" using assms r by (auto simp: cli_main_def)
    obtain i f where i: "i < ?n" "\<forall>j < i. seed_passes ords opts profile j" "last out = FailureLine f"
      "run_chaos (ords (word_of_nat i)) (cli_config opts profile (word_of_nat i)) = Some (Inl f)"
      using R Inl c(2) by auto
    moreover have "fa_seed f = cli_seed opts + word_of_nat i"
      using run_chaos_failure_seed [OF i(4)] by (simp add: cli_config_def)
    ultimately show ?thesis using c(1) by blast
  next
    case (Inr b)
    then have "code = 0" using assms r by (auto simp: cli_main_def split: prod.splits)
    with R Inr show ?thesis by simp
  qed
qed

definition demo_args :: "string list" where
  "demo_args = [''--seed'', ''0x3'', ''--clients'', ''1'', ''--calls'', ''1'']"

theorem cli_exit_status_witness:
  "\<exists>out. cli_main (\<lambda>_. by_id) demo_args = Some (0, out)
    \<and> seed_passes (\<lambda>_. by_id) \<lparr>cli_seed = 3, cli_runs = 1, cli_profile = ''clean'', cli_calls = 1,
        cli_clients = 1\<rparr> clean 0"
proof -
  define opts where "opts = \<lparr>cli_seed = 3, cli_runs = 1, cli_profile = ''clean'', cli_calls = 1,
    cli_clients = 1\<rparr>"
  have args: "parse_args demo_args cli_default = Inr opts"
    by (simp add: demo_args_def opts_def parse_flag_def parse_u64_def strip_0x_def from_str_radix_def
        to_digit_def cli_default_def)
  have prof: "find_profile (cli_profile opts) = Some clean"
    by (simp add: find_profile_def all_profiles_def opts_def)
  have "cli_config opts clean 0 = chaos_demo"
    by (simp add: cli_config_def opts_def chaos_demo_def chaos_config_default_def clean_def)
  then obtain out where out: "cli_main (\<lambda>_. by_id) demo_args = Some (0, out)"
    using chaos_demo_run by (simp add: cli_main_def args prof) (simp add: opts_def)
  show ?thesis
    using cli_exit_status [OF args prof out] out by (simp add: opts_def)
qed

section \<open>The harness passes\<close>

lemma run_seeds_pass:
  assumes "\<And>i f. run_chaos (ords i) (cli_config opts profile i) \<noteq> Some (Inl f)"
  shows "run_seeds ords opts profile n i execs fails out \<noteq> Some (Inl out')"
    and "(\<And>i. run_chaos (ords i) (cli_config opts profile i) \<noteq> None) \<Longrightarrow>
      \<exists>x. run_seeds ords opts profile n i execs fails out = Some (Inr x)"
proof -
  show "run_seeds ords opts profile n i execs fails out \<noteq> Some (Inl out')"
    using assms by (induction n arbitrary: i execs fails out) (auto split: option.split sum.split)
  assume total: "\<And>i. run_chaos (ords i) (cli_config opts profile i) \<noteq> None"
  have "\<exists>su. run_chaos (ords i) (cli_config opts profile i) = Some (Inr su)" for i
    using total [of i] assms [of i] by (metis not_None_eq sumE)
  then show "\<exists>x. run_seeds ords opts profile n i execs fails out = Some (Inr x)"
  proof (induction n arbitrary: i execs fails out)
    case (Suc n)
    from Suc.prems [of i] Suc.IH [OF Suc.prems] show ?case by fastforce
  qed auto
qed

text \<open>The limit of 300000 ticks leaves room for 74624 calls.\<close>

lemma cli_runs_pass:
  assumes "orderly ord" and "cli_calls opts \<le> 74624"
  shows "run_chaos ord (cli_config opts profile i) \<noteq> Some (Inl f)"
    and "0 < cli_clients opts \<Longrightarrow> usable profile \<Longrightarrow> run_chaos ord (cli_config opts profile i) \<noteq> None"
proof -
  let ?cfg = "cli_config opts profile i"
  have room: "4 * cf_calls ?cfg + 1501 \<le> unat (cf_max_ticks ?cfg)"
    using assms(2) by (simp add: cli_config_def)
  show "run_chaos ord ?cfg \<noteq> Some (Inl f)" using run_drains [OF assms(1) room] by blast
  assume "0 < cli_clients opts" "usable profile"
  then have "runnable ?cfg"
    using assms(2) by (simp add: runnable_def cli_config_def chaos_config_default_def max_calls_def)
  then show "run_chaos ord ?cfg \<noteq> None" using runnable_run [OF assms(1)] by (metis option.distinct(1))
qed

text \<open>C35. The chaos harness passes: with valid arguments asking for at most 74624 calls a run, no seed of any
  profile ever fails, so the exit code 1 does not occur; and with a profile that does not both corrupt and
  truncate, and at least one client, it finishes all its runs and exits with 0.\<close>

theorem cli_passes:
  assumes "\<And>i. orderly (ords i)" and "parse_args args cli_default = Inr opts"
    and "find_profile (cli_profile opts) = Some profile" and "cli_calls opts \<le> 74624"
  shows "(\<forall>out. cli_main ords args \<noteq> Some (1, out))
    \<and> (0 < cli_clients opts \<and> usable profile \<longrightarrow> (\<exists>out. cli_main ords args = Some (0, out)))"
proof -
  note runs = cli_runs_pass [OF assms(1,4), where profile = profile]
  note seeds = run_seeds_pass [of ords opts profile, OF runs(1)]
  let ?r = "run_seeds ords opts profile (unat (cli_runs opts)) 0 0 0 []"
  have "cli_main ords args \<noteq> Some (1, out)" for out
    using assms(2,3) seeds(1) by (auto simp: cli_main_def split: option.splits sum.splits)
  moreover have "\<exists>out. cli_main ords args = Some (0, out)" if cfg: "0 < cli_clients opts" "usable profile"
  proof -
    obtain x where "?r = Some (Inr x)" using seeds(2) runs(2) [OF cfg] by blast
    then show ?thesis using assms(2,3) by (cases x) (simp add: cli_main_def)
  qed
  ultimately show ?thesis by blast
qed

theorem cli_passes_witness:
  "\<exists>out. cli_main (\<lambda>_. by_id) [''--profile'', ''near_partition'', ''--runs'', ''5''] = Some (0, out)"
proof -
  let ?opts = "cli_default\<lparr>cli_profile := ''near_partition'', cli_runs := 5\<rparr>"
  have args: "parse_args [''--profile'', ''near_partition'', ''--runs'', ''5''] cli_default = Inr ?opts"
    by (simp add: parse_flag_def parse_u64_def strip_0x_def from_str_radix_def to_digit_def)
  have prof: "find_profile (cli_profile ?opts) = Some near_partition"
    by (simp add: find_profile_def all_profiles_def)
  have "usable near_partition" using usable_named by (simp add: all_profiles_def)
  then show ?thesis
    using cli_passes [OF orderly_by_id args prof] by (simp add: cli_default_def)
qed

end
