(* ===== verification/Spec2Isabelle.thy ===== *)
theory Spec2Isabelle
  imports
    Baselines_Props
    Silence
    Cli
begin

text \<open>
  A verification library for distrans: a reliable, ordered transport and an exactly-once
  remote-procedure-call layer over a deliberately hostile simulated datagram channel, with the
  key-value workload that exercises them.

  \<^bold>\<open>The program.\<close> Six crates under src/crates, each calling only the ones before it. channel is
  a virtual-time datagram network that loses, duplicates, delays, corrupts and truncates what it is
  given, by seeded random draws or a script. frame puts a version, flags and a CRC-32C around a
  payload and rejects what does not check. transport is the connection state machine: handshake,
  sliding window with selective acknowledgements, congestion control, adaptive retransmission timer
  and close, over frames. rpc cuts the byte stream of a connection into messages and gives client
  calls with retries and a server with a table of the answers it gave. workload is a key-value
  service on top with fault profiles, a chaos runner and two baseline protocols.

  \<^bold>\<open>Conventions.\<close> Structs are records and enums datatypes. u8, u32 and u64 are words of that width
  with the wrap-around of a release build (wrapping_add is +, saturating_add and saturating_sub are
  defined in Prelude); usize, which only counts bytes in memory, is nat. A Vec or VecDeque is a
  list, a BTreeMap an ascending association list (Ordered_Map), a HashMap a partial map or an
  association list whose iteration order is an argument. A method on mut self takes the record and
  returns the new one with its result. The value None of a transport or rpc operation stands for a
  call that does not return: a panic, or a loop that does not end.

  \<^bold>\<open>The theories.\<close>
  \<^item> Prelude: collections of simplification facts, little-endian codecs, saturating arithmetic,
    slices, and reachability with its invariant rule (locale invariant_system).
  \<^item> Tick (channel/src/tick.rs), Rng (both rng.rs), Fault (channel/src/fault.rs and
    workload/src/profiles.rs): virtual time, the two SplitMix64 generators (locale random_source),
    fault profiles, their validation, scripts, and the named profiles.
  \<^item> Channel and Channel_Props (channel/src/lib.rs): the pending heap as a priority queue (locale
    min_queue), send, emit_one, enqueue, advance, and the reachable states of a channel.
  \<^item> Crc32c and Frame (frame/src): the checksum with its linearity and error detection, and the frame
    codec.
  \<^item> Segment, Rto, Ordered_Map, Connection (transport/src): the header codec, the timer, the B-tree
    map interface and every operation of the connection, in the order of connection.rs.
  \<^item> Connection_Inv: the invariant of one connection relative to what its peer may have put on the
    wire, and that every operation keeps it. Link: two connections over a network, with the
    theorems on reachable states.
  \<^item> Conn_States: the diagram of the connection states, with the calls that may take each edge and the
    shape of the control fields in each state, for any datagrams at all.
  \<^item> Close_Inv and Close: graceful close. The invariant tracks the offsets at which the segments of a
    stream start and end, shows that cumulative acks fall only there, and hence that a FIN, and the
    state Closed, mean that the streams are complete. Transport_Props: a connection at its edges, that
    is, inputs and configurations on which a method panics or hangs, the admission of data against the
    window, bytes sent after the close (which stay in the queue for ever), and giving up on a silent peer.
  \<^item> Conn_Flow, Recovery_Inv and Recovery: liveness of the transport. Conn_Flow has what one operation
    does to the acknowledgement state, the clock and the queue; Recovery_Inv that selective acks are
    sound and never cover the oldest byte in flight; Recovery that rounds of one retransmission timeout
    whose datagrams arrive complete the transfer, one round per byte at most, from any reachable state in
    which the sender is Established with retries left and the receiver takes data, and that a segment
    marked as selectively acked is held by the peer, whole. (Close, Recovery and Silence are about
    runs in which no application sends after its own close; Transport_Props shows what happens to one
    that does.)
    Silence: a peer that falls silent, during a transfer or after the close, is given up on after
    max_retries timeouts, of the data or of the FIN.
  \<^item> Framing and Message (rpc/src/framing.rs, message.rs): the stream of framed messages (locale
    message_codec, interpreted for requests and for responses).
  \<^item> Rpc_Client, Rpc_Server (rpc/src/client.rs, server.rs): the two ends of the call protocol.
    Rpc_System: both ends on two connections over a network, as a labelled transition system whose
    labels name the datagrams handed over. Rpc_Correct: its invariant and theorems. Wire: the same
    system with two of the program's own channels as the network, and its refinement. Rpc_Total: that
    every operation of the client and of the server returns on such a link.
  \<^item> Kv (workload/src/kv.rs): the operations, their codec, the server store and the reference store
    (locales kv_store and kv_pair). Workload (workload/src/server.rs, client.rs): the handler closure
    and the client helper (locale handler_invariant).
  \<^item> Chaos and Chaos_Props (workload/src/chaos.rs): set-up, schedule, profile switches, the tick loop
    over all clients, polling and the differential replay; that the replay cannot fail. Chaos_Reports:
    the run watched at its polls (watch_run, which is run_chaos with the polled completions and failures
    noted), and that every scheduled call is reported exactly once. Chaos_Budget, Chaos_Link and
    Chaos_Total: a count of what a run may still put on a stream, paid down by every call, retry and
    answer (Chaos_Budget); the links of a run kept within it, so that no operation on them can panic
    (Chaos_Link); hence that a run returns, and that the log of executions has one entry for each call
    executed and nothing else (Chaos_Total); and that every call is answered or given up within
    60 retry deadlines, so that a run with ticks enough cannot fail (Chaos_Drain). Cli
    (workload/src/bin/distrans-chaos.rs): arguments, the loop over the seeds, the exit code, the
    replay command a failure prints, and that the harness passes.
  \<^item> Network: the channel as its clients rely on it, a network that forges no frame (locale
    frame_network) and, when clean, a delay of one tick (locale delay_line). Baselines and
    Baselines_Props (workload/src/baselines.rs): stop-and-wait and go-back-N, their correctness over
    hostile channels with tame profiles and their exact running times over clean ones.

  \<^bold>\<open>The network of Link and Rpc_System\<close> is a monotone set of datagrams: a delivery hands a
  connection any datagram sent so far or any bytes the frame layer rejects, so loss, duplication,
  reordering, delay and detected corruption are all runs of it. Channel_Props shows that what a
  Channel delivers is of that kind: a sent datagram, or one that the frame layer rejects as long as
  corruption and truncation do not compound on one datagram. Wire carries that through the whole
  stack: with two such Channels for the network, only states of Rpc_System are reached, so its
  theorems hold end to end.

  \<^bold>\<open>Bounds.\<close> Sequence numbers are 32 bits wide, so the theorems on connections are about streams of
  fewer than 2^32 bytes (with SYN and FIN) in each direction; the timer is bounded by the
  configuration, required below 2^58 ticks. The admission loop of try_send_more is the one loop of
  the program with no structural bound; it is a partial function of the option monad and shown to
  return for every nonzero segment size.

  The chaos theorems of Chaos_Total are for runnable configurations. At most 2 000 000 calls
  (max_calls), and keys of at most nine digits: with the runner's 60 attempts and framed messages of
  at most 33 bytes, no stream then reaches 2^32 bytes. Initial and
  switched profiles must be valid and must not both corrupt and truncate (the condition tame that Wire
  and Baselines_Props put on their channels too), so that no damaged datagram passes the checksum by
  chance: a frame forged that way could carry an inverted
  selective-ack range, on which the code panics (Transport_Props). Of the named profiles clean,
  high_latency_reordering and near_partition qualify, lossy and bursty_corruption do not
  (usable_named). The theorems of Chaos_Props and Chaos_Reports hold for every configuration. A run of n calls has
  drained by tick 4n + 1501 (Chaos_Drain): the schedule spaces calls by at most four ticks, and each
  is retried every 25 ticks, 60 times in all. The limit of the command line, 300000 ticks, is thus
  enough for 74624 calls.

  \<^bold>\<open>Not modelled.\<close> The wording of messages (Display and Error implementations; the one exception is
  the replay command in Cli), accessors that only return a field, and tests.
\<close>

end
